(* ===== verification/Prelude.thy ===== *)
theory Prelude
  imports Main "HOL-Library.Word" "HOL-Library.Multiset"
begin

text \<open>
  Shared vocabulary of the development: the names of the simulator's integer types, the ways a
  simulator function can stop without a result (\<open>panic\<close>, \<open>fatal\<close>, a failed \<open>assert\<close>, behaviour
  C++ leaves undefined) as values of a sum type, and the generic facts on lists and words that
  several components use.
\<close>

unbundle bit_operations_syntax

named_theorems bit_chars \<open>characteristic bits of the bit-field operations\<close>
named_theorems queue_inv \<open>preservation of a component's invariant by its operations\<close>

section \<open>Types of the simulator\<close>

type_synonym addr = "64 word"
type_synonym tick = "64 word"
type_synonym u64 = "64 word"
type_synonym u32 = "32 word"
type_synonym u16 = "16 word"
type_synonym u8 = "8 word"

section \<open>Results that can stop\<close>

text \<open>\<open>panic()\<close>, \<open>fatal()\<close>, \<open>assert()\<close> and an uncaught C++ exception end the simulation; \<open>Undefined\<close> marks the
  inputs for which C++ defines no behaviour, and \<open>NoReturn\<close> a loop that runs forever.\<close>

datatype sim_error = Panic | Fatal | AssertFailed | Exception | Undefined | NoReturn

type_synonym 'a result = "sim_error + 'a"

definition bindR :: "'a result \<Rightarrow> ('a \<Rightarrow> 'b result) \<Rightarrow> 'b result" where
  "bindR m f = (case m of Inl e \<Rightarrow> Inl e | Inr x \<Rightarrow> f x)"

definition assertR :: "bool \<Rightarrow> unit result" where
  "assertR b = (if b then Inr () else Inl AssertFailed)"

text \<open>The value of a loop written as a partial function, whose \<open>None\<close> means that it never ends.\<close>

definition loopR :: "'a option \<Rightarrow> 'a result" where
  "loopR x = (case x of None \<Rightarrow> Inl NoReturn | Some y \<Rightarrow> Inr y)"

lemma loopR_simps [simp]:
  "loopR None = Inl NoReturn"
  "loopR (Some y) = Inr y"
  by (simp_all add: loopR_def)

lemma bindR_simps [simp]:
  "bindR (Inl e) f = Inl e"
  "bindR (Inr x) f = f x"
  by (simp_all add: bindR_def)

lemma bindR_Inr_iff: "bindR m f = Inr y \<longleftrightarrow> (\<exists>x. m = Inr x \<and> f x = Inr y)"
  by (cases m) simp_all

lemma assertR_simps [simp]:
  "assertR True = Inr ()"
  "assertR False = Inl AssertFailed"
  by (simp_all add: assertR_def)

lemma assertR_Inr_iff [simp]: "assertR b = Inr u \<longleftrightarrow> b"
  by (cases b) simp_all

lemma bindR_cong [fundef_cong]:
  "m = m' \<Longrightarrow> (\<And>x. m' = Inr x \<Longrightarrow> f x = g x) \<Longrightarrow> bindR m f = bindR m' g"
  by (cases m') simp_all

text \<open>A loop that runs a fallible body over a list of items.\<close>

fun foldR :: "('a \<Rightarrow> 's \<Rightarrow> 's result) \<Rightarrow> 'a list \<Rightarrow> 's \<Rightarrow> 's result" where
  "foldR f [] s = Inr s"
| "foldR f (x # xs) s = bindR (f x s) (foldR f xs)"

lemma foldR_append: "foldR f (xs @ ys) s = bindR (foldR f xs s) (foldR f ys)"
  by (induction xs arbitrary: s) (auto simp: bindR_def split: sum.splits)

lemma foldR_invariant:
  assumes "foldR f xs s = Inr t" and "P s"
    and "\<And>x s t. x \<in> set xs \<Longrightarrow> P s \<Longrightarrow> f x s = Inr t \<Longrightarrow> P t"
  shows "P t"
  using assms
proof (induction xs arbitrary: s)
  case Nil
  then show ?case by simp
next
  case (Cons x xs)
  from Cons.prems(1) obtain u where u: "f x s = Inr u" "foldR f xs u = Inr t"
    by (auto simp: bindR_Inr_iff)
  have "P u" using Cons.prems(2,3) u(1) by auto
  then show ?case using Cons.IH [OF u(2)] Cons.prems(3) by auto
qed

section \<open>Vectors\<close>

text \<open>The index operator of a C++ vector with an \<open>int\<close> index: out of range, nothing is defined.\<close>

definition vec_at :: "'a list \<Rightarrow> int \<Rightarrow> 'a result" where
  "vec_at xs i = (if 0 \<le> i \<and> nat i < length xs then Inr (xs ! nat i) else Inl Undefined)"

definition vec_put :: "int \<Rightarrow> 'a \<Rightarrow> 'a list \<Rightarrow> 'a list result" where
  "vec_put i x xs = (if 0 \<le> i \<and> nat i < length xs then Inr (xs[nat i := x]) else Inl Undefined)"

text \<open>A method called on an element of a vector.\<close>

definition vec_modify :: "int \<Rightarrow> ('a \<Rightarrow> 'a result) \<Rightarrow> 'a list \<Rightarrow> 'a list result" where
  "vec_modify i f xs = bindR (vec_at xs i) (\<lambda>x. bindR (f x) (\<lambda>y. vec_put i y xs))"

lemma vec_at_Inr_iff: "vec_at xs i = Inr x \<longleftrightarrow> 0 \<le> i \<and> nat i < length xs \<and> x = xs ! nat i"
  by (auto simp: vec_at_def)

lemma vec_put_Inr_iff: "vec_put i x xs = Inr ys \<longleftrightarrow> 0 \<le> i \<and> nat i < length xs \<and> ys = xs[nat i := x]"
  by (auto simp: vec_put_def)

lemma vec_modify_Inr_iff:
  "vec_modify i f xs = Inr ys \<longleftrightarrow>
     0 \<le> i \<and> nat i < length xs \<and> (\<exists>y. f (xs ! nat i) = Inr y \<and> ys = xs[nat i := y])"
  by (auto simp: vec_modify_def bindR_Inr_iff vec_at_Inr_iff vec_put_Inr_iff)

lemmas vec_Inr_iffs = vec_at_Inr_iff vec_put_Inr_iff vec_modify_Inr_iff

lemma vec_at_in [simp]: "0 \<le> i \<Longrightarrow> nat i < length xs \<Longrightarrow> vec_at xs i = Inr (xs ! nat i)"
  by (simp add: vec_at_def)

lemma vec_put_in [simp]: "0 \<le> i \<Longrightarrow> nat i < length xs \<Longrightarrow> vec_put i x xs = Inr (xs[nat i := x])"
  by (simp add: vec_put_def)

section \<open>Words\<close>

lemma word64_eqI: "(\<And>n. n < 64 \<Longrightarrow> bit x n = bit y n) \<Longrightarrow> x = (y :: 64 word)"
  by (rule bit_word_eqI) simp

lemma bit_word64_imp_less: "bit (x :: 64 word) n \<Longrightarrow> n < 64"
  using bit_imp_le_length by fastforce

lemma word_nonzero_bit: "(x :: 64 word) \<noteq> 0 \<longleftrightarrow> (\<exists>n < 64. bit x n)"
  by (metis bit_0_eq bit_word64_imp_less bot_apply bot_bool_def word64_eqI)

lemma word_lt_exp_bits: "(x :: 64 word) < 2 ^ n \<Longrightarrow> n < 64 \<Longrightarrow> n \<le> k \<Longrightarrow> \<not> bit x k"
  by (metis bit_take_bit_iff leD less_mask_eq take_bit_eq_mask)

lemma unat_exp64: "k < 64 \<Longrightarrow> unat (2 ^ k :: 64 word) = 2 ^ k"
proof -
  assume "k < 64"
  have "unat (of_nat (2 ^ k) :: 64 word) = 2 ^ k mod 2 ^ 64" by (simp only: unat_of_nat) simp
  also have "\<dots> = 2 ^ k" using \<open>k < 64\<close> by (intro mod_less power_strict_increasing) simp_all
  finally show ?thesis by simp
qed

end
