(* ===== verification/EventQueue.thy ===== *)
theory EventQueue
  imports Prelude "HOL-Library.Product_Lexorder"
begin

text \<open>
  \<open>sim/eventq.hh\<close>, \<open>sim/eventq_impl.hh\<close>, \<open>sim/eventq.cc\<close>, the part of \<open>base/flags.hh\<close> they use and
  the loop of \<open>sim/simulate.cc\<close>. Events live in an explicit store, because the queue is a linked list
  of linked lists threaded through the events themselves: \<open>nextBin\<close> leads from the top event of a bin
  (one time and priority) to the top event of the next bin, \<open>nextInBin\<close> leads down the stack of one
  bin. The null pointer is \<open>None\<close>; a null dereference is an \<open>Undefined\<close> result. The virtual
  \<open>process()\<close> of an event is a parameter of the functions that call it.
\<close>

section \<open>Flags\<close>

definition isSet :: "u16 \<Rightarrow> u16 \<Rightarrow> bool" where
  "isSet flags f \<longleftrightarrow> flags AND f \<noteq> 0"

definition noneSet :: "u16 \<Rightarrow> u16 \<Rightarrow> bool" where
  "noneSet flags f \<longleftrightarrow> flags AND f = 0"

definition clear :: "u16 \<Rightarrow> u16 \<Rightarrow> u16" where
  "clear flags f = flags AND NOT f"

definition set_flag :: "u16 \<Rightarrow> u16 \<Rightarrow> u16" where
  "set_flag flags f = flags OR f"

definition PublicRead :: u16 where "PublicRead = 0x003f"
definition PublicWrite :: u16 where "PublicWrite = 0x001d"
definition Squashed :: u16 where "Squashed = 0x0001"
definition Scheduled :: u16 where "Scheduled = 0x0002"
definition Managed :: u16 where "Managed = 0x0004"
definition IsExitEvent :: u16 where "IsExitEvent = 0x0010"
definition IsMainQueue :: u16 where "IsMainQueue = 0x0020"
definition Initialized :: u16 where "Initialized = 0x7a40"
definition InitMask :: u16 where "InitMask = 0xffc0"

lemmas flag_defs = PublicRead_def PublicWrite_def Squashed_def Scheduled_def Managed_def
  IsExitEvent_def IsMainQueue_def Initialized_def InitMask_def

section \<open>Priorities\<close>

text \<open>A \<open>Priority\<close> is an \<open>int8_t\<close>; no arithmetic is done on it, so an integer stands for it.\<close>

definition Minimum_Pri :: int where "Minimum_Pri = - 128"
definition Debug_Enable_Pri :: int where "Debug_Enable_Pri = - 101"
definition Debug_Break_Pri :: int where "Debug_Break_Pri = - 100"
definition CPU_Switch_Pri :: int where "CPU_Switch_Pri = - 31"
definition Delayed_Writeback_Pri :: int where "Delayed_Writeback_Pri = - 1"
definition Default_Pri :: int where "Default_Pri = 0"
definition DVFS_Update_Pri :: int where "DVFS_Update_Pri = 31"
definition Serialize_Pri :: int where "Serialize_Pri = 32"
definition CPU_Tick_Pri :: int where "CPU_Tick_Pri = 50"
definition CPU_Exit_Pri :: int where "CPU_Exit_Pri = 64"
definition Stat_Event_Pri :: int where "Stat_Event_Pri = 90"
definition Progress_Event_Pri :: int where "Progress_Event_Pri = 95"
definition Sim_Exit_Pri :: int where "Sim_Exit_Pri = 100"
definition Maximum_Pri :: int where "Maximum_Pri = 127"

lemmas pri_defs = Minimum_Pri_def Debug_Enable_Pri_def Debug_Break_Pri_def CPU_Switch_Pri_def
  Delayed_Writeback_Pri_def Default_Pri_def DVFS_Update_Pri_def Serialize_Pri_def CPU_Tick_Pri_def
  CPU_Exit_Pri_def Stat_Event_Pri_def Progress_Event_Pri_def Sim_Exit_Pri_def Maximum_Pri_def

section \<open>Events\<close>

type_synonym eptr = nat

record Event =
  nextBin :: "eptr option"
  nextInBin :: "eptr option"
  ev_when :: tick
  ev_priority :: int
  ev_flags :: u16
  ev_queue :: "nat option"

type_synonym estore = "eptr \<Rightarrow> Event"

definition Event_init :: "int \<Rightarrow> u16 \<Rightarrow> Event result" where
  "Event_init p f = bindR (assertR (noneSet f (NOT PublicWrite))) (\<lambda>_.
     Inr \<lparr>nextBin = None, nextInBin = None, ev_when = 0, ev_priority = p,
          ev_flags = Initialized OR f, ev_queue = None\<rparr>)"

definition setWhen :: "tick \<Rightarrow> nat \<Rightarrow> Event \<Rightarrow> Event" where
  "setWhen w q e = e\<lparr>ev_when := w, ev_queue := Some q\<rparr>"

definition initialized :: "Event \<Rightarrow> bool" where
  "initialized e \<longleftrightarrow> ev_flags e AND InitMask = Initialized"

definition getFlags :: "Event \<Rightarrow> u16" where
  "getFlags e = ev_flags e AND PublicRead"

definition isFlagSet :: "u16 \<Rightarrow> Event \<Rightarrow> bool result" where
  "isFlagSet f e = bindR (assertR (noneSet f (NOT PublicRead))) (\<lambda>_. Inr (isSet (ev_flags e) f))"

definition setFlags :: "u16 \<Rightarrow> Event \<Rightarrow> Event result" where
  "setFlags f e = bindR (assertR (noneSet f (NOT PublicWrite)))
     (\<lambda>_. Inr (e\<lparr>ev_flags := set_flag (ev_flags e) f\<rparr>))"

definition clearFlags :: "u16 \<Rightarrow> Event \<Rightarrow> Event result" where
  "clearFlags f e = bindR (assertR (noneSet f (NOT PublicWrite)))
     (\<lambda>_. Inr (e\<lparr>ev_flags := clear (ev_flags e) f\<rparr>))"

definition clearAllFlags :: "Event \<Rightarrow> Event" where
  "clearAllFlags e = e\<lparr>ev_flags := clear (ev_flags e) PublicWrite\<rparr>"

definition scheduled :: "Event \<Rightarrow> bool" where
  "scheduled e \<longleftrightarrow> isSet (ev_flags e) Scheduled"

definition squash :: "Event \<Rightarrow> Event" where
  "squash e = e\<lparr>ev_flags := set_flag (ev_flags e) Squashed\<rparr>"

definition squashed :: "Event \<Rightarrow> bool" where
  "squashed e \<longleftrightarrow> isSet (ev_flags e) Squashed"

definition isExitEvent :: "Event \<Rightarrow> bool" where
  "isExitEvent e \<longleftrightarrow> isSet (ev_flags e) IsExitEvent"

definition isManaged :: "Event \<Rightarrow> bool" where
  "isManaged e \<longleftrightarrow> isSet (ev_flags e) Managed"

definition event_less :: "Event \<Rightarrow> Event \<Rightarrow> bool" where
  "event_less l r \<longleftrightarrow>
     ev_when l < ev_when r \<or> ev_when l = ev_when r \<and> ev_priority l < ev_priority r"

definition event_greater :: "Event \<Rightarrow> Event \<Rightarrow> bool" where
  "event_greater l r \<longleftrightarrow>
     ev_when l > ev_when r \<or> ev_when l = ev_when r \<and> ev_priority l > ev_priority r"

definition event_le :: "Event \<Rightarrow> Event \<Rightarrow> bool" where
  "event_le l r \<longleftrightarrow>
     ev_when l < ev_when r \<or> ev_when l = ev_when r \<and> ev_priority l \<le> ev_priority r"

definition event_ge :: "Event \<Rightarrow> Event \<Rightarrow> bool" where
  "event_ge l r \<longleftrightarrow>
     ev_when l > ev_when r \<or> ev_when l = ev_when r \<and> ev_priority l \<ge> ev_priority r"

definition event_eq :: "Event \<Rightarrow> Event \<Rightarrow> bool" where
  "event_eq l r \<longleftrightarrow> ev_when l = ev_when r \<and> ev_priority l = ev_priority r"

definition event_neq :: "Event \<Rightarrow> Event \<Rightarrow> bool" where
  "event_neq l r \<longleftrightarrow> ev_when l \<noteq> ev_when r \<or> ev_priority l \<noteq> ev_priority r"

section \<open>The queue\<close>

text \<open>One queue and the store of events. \<open>eq_self\<close> is the identity of the queue, \<open>eq_current\<close> says
  whether it is the queue of the running thread, \<open>eq_parallel\<close> is \<open>inParallelMode\<close>, \<open>eq_freed\<close> the
  managed events that were deleted.\<close>

record EventQ =
  eq_mem :: estore
  eq_head :: "eptr option"
  eq_curTick :: tick
  eq_async :: "eptr list"
  eq_self :: nat
  eq_current :: bool
  eq_parallel :: bool
  eq_freed :: "eptr list"

text \<open>A new queue, in the thread that owns it.\<close>

definition EventQueue_new :: "nat \<Rightarrow> estore \<Rightarrow> EventQ" where
  "EventQueue_new n m =
     \<lparr>eq_mem = m, eq_head = None, eq_curTick = 0, eq_async = [], eq_self = n, eq_current = True,
      eq_parallel = False, eq_freed = []\<rparr>"

definition eq_empty :: "EventQ \<Rightarrow> bool" where
  "eq_empty st \<longleftrightarrow> eq_head st = None"

definition setCurTick :: "tick \<Rightarrow> EventQ \<Rightarrow> EventQ" where
  "setCurTick t st = st\<lparr>eq_curTick := t\<rparr>"

definition nextTick :: "EventQ \<Rightarrow> tick result" where
  "nextTick st = (case eq_head st of None \<Rightarrow> Inl Undefined | Some h \<Rightarrow> Inr (ev_when (eq_mem st h)))"

definition upd_event :: "eptr \<Rightarrow> (Event \<Rightarrow> Event) \<Rightarrow> EventQ \<Rightarrow> EventQ" where
  "upd_event p f st = st\<lparr>eq_mem := (eq_mem st)(p := f (eq_mem st p))\<rparr>"

definition insertBefore :: "estore \<Rightarrow> eptr \<Rightarrow> eptr option \<Rightarrow> estore \<times> eptr option" where
  "insertBefore m event cur =
     (case cur of
        None \<Rightarrow> (m(event := (m event)\<lparr>nextBin := None, nextInBin := None\<rparr>), Some event)
      | Some c \<Rightarrow>
          if event_less (m event) (m c)
          then (m(event := (m event)\<lparr>nextBin := Some c, nextInBin := None\<rparr>), Some event)
          else (m(event := (m event)\<lparr>nextBin := nextBin (m c), nextInBin := Some c\<rparr>), Some event))"

text \<open>The search loop of \<open>insert\<close> and \<open>remove\<close>: it returns \<open>prev\<close> and \<open>curr\<close>.\<close>

partial_function (option) find_bin :: "estore \<Rightarrow> eptr \<Rightarrow> eptr option \<Rightarrow> eptr \<Rightarrow> (eptr \<times> eptr option) option"
  where [code]:
  "find_bin m event cur prev =
     (case cur of
        None \<Rightarrow> Some (prev, None)
      | Some c \<Rightarrow>
          if event_less (m c) (m event) then find_bin m event (nextBin (m c)) c
          else Some (prev, Some c))"

definition eq_insert :: "eptr \<Rightarrow> EventQ \<Rightarrow> EventQ result" where
  "eq_insert event st =
     (let m = eq_mem st in
      case eq_head st of
        None \<Rightarrow> (let (m', h) = insertBefore m event None in Inr (st\<lparr>eq_mem := m', eq_head := h\<rparr>))
      | Some hp \<Rightarrow>
          if event_le (m event) (m hp)
          then (let (m', h) = insertBefore m event (Some hp) in Inr (st\<lparr>eq_mem := m', eq_head := h\<rparr>))
          else bindR (loopR (find_bin m event (nextBin (m hp)) hp)) (\<lambda>(prev, cur).
                 let (m', e) = insertBefore m event cur
                 in Inr (st\<lparr>eq_mem := m'(prev := (m' prev)\<lparr>nextBin := e\<rparr>)\<rparr>)))"

partial_function (option) find_in_bin :: "estore \<Rightarrow> eptr \<Rightarrow> eptr option \<Rightarrow> eptr \<Rightarrow> eptr result option"
  where [code]:
  "find_in_bin m event nxt cur =
     (case nxt of
        None \<Rightarrow> Some (Inl Panic)
      | Some n \<Rightarrow>
          if n = event then Some (Inr cur) else find_in_bin m event (nextInBin (m n)) n)"

definition removeItem :: "estore \<Rightarrow> eptr \<Rightarrow> eptr \<Rightarrow> (estore \<times> eptr option) result" where
  "removeItem m event tp =
     (if event = tp
      then (case nextInBin (m tp) of
              None \<Rightarrow> Inr (m, nextBin (m tp))
            | Some n \<Rightarrow> Inr (m(n := (m n)\<lparr>nextBin := nextBin (m tp)\<rparr>), Some n))
      else bindR (bindR (loopR (find_in_bin m event (nextInBin (m tp)) tp)) id) (\<lambda>cur.
             Inr (m(cur := (m cur)\<lparr>nextInBin := nextInBin (m event)\<rparr>), Some tp)))"

definition eq_remove :: "eptr \<Rightarrow> EventQ \<Rightarrow> EventQ result" where
  "eq_remove event st =
     (let m = eq_mem st in
      case eq_head st of
        None \<Rightarrow> Inl Panic
      | Some hp \<Rightarrow>
          bindR (assertR (ev_queue (m event) = Some (eq_self st))) (\<lambda>_.
          if event_eq (m hp) (m event)
          then bindR (removeItem m event hp) (\<lambda>(m', h). Inr (st\<lparr>eq_mem := m', eq_head := h\<rparr>))
          else bindR (loopR (find_bin m event (nextBin (m hp)) hp)) (\<lambda>(prev, cur).
                 case cur of
                   None \<Rightarrow> Inl Panic
                 | Some c \<Rightarrow>
                     if event_neq (m c) (m event) then Inl Panic
                     else bindR (removeItem m event c) (\<lambda>(m', e).
                            Inr (st\<lparr>eq_mem := m'(prev := (m' prev)\<lparr>nextBin := e\<rparr>)\<rparr>)))))"

text \<open>\<open>acquireImpl()\<close> does nothing by default; \<open>releaseImpl()\<close> deletes an event that is not
  scheduled.\<close>

definition acquire :: "eptr \<Rightarrow> EventQ \<Rightarrow> EventQ" where
  "acquire event st = st"

definition release :: "eptr \<Rightarrow> EventQ \<Rightarrow> EventQ" where
  "release event st =
     (if isManaged (eq_mem st event) \<and> \<not> scheduled (eq_mem st event)
      then st\<lparr>eq_freed := event # eq_freed st\<rparr> else st)"

definition asyncInsert :: "eptr \<Rightarrow> EventQ \<Rightarrow> EventQ" where
  "asyncInsert event st = st\<lparr>eq_async := eq_async st @ [event]\<rparr>"

fun async_loop :: "eptr list \<Rightarrow> EventQ \<Rightarrow> EventQ result" where
  "async_loop [] st = Inr st"
| "async_loop (e # es) st = bindR (eq_insert e st) (\<lambda>st'. async_loop es (st'\<lparr>eq_async := es\<rparr>))"

definition handleAsyncInsertions :: "EventQ \<Rightarrow> EventQ result" where
  "handleAsyncInsertions st =
     bindR (assertR (eq_current st)) (\<lambda>_. async_loop (eq_async st) st)"

definition schedule :: "eptr \<Rightarrow> tick \<Rightarrow> bool \<Rightarrow> EventQ \<Rightarrow> EventQ result" where
  "schedule event wh global st =
     bindR (assertR (wh \<ge> eq_curTick st)) (\<lambda>_.
     bindR (assertR (\<not> scheduled (eq_mem st event))) (\<lambda>_.
     bindR (assertR (initialized (eq_mem st event))) (\<lambda>_.
     let st1 = upd_event event (setWhen wh (eq_self st)) st in
     bindR (if eq_parallel st \<and> (\<not> eq_current st \<or> global)
            then Inr (asyncInsert event st1) else eq_insert event st1) (\<lambda>st2.
     Inr (acquire event
       (upd_event event (\<lambda>e. e\<lparr>ev_flags := set_flag (ev_flags e) Scheduled\<rparr>) st2))))))"

definition deschedule :: "eptr \<Rightarrow> EventQ \<Rightarrow> EventQ result" where
  "deschedule event st =
     bindR (assertR (scheduled (eq_mem st event))) (\<lambda>_.
     bindR (assertR (initialized (eq_mem st event))) (\<lambda>_.
     bindR (assertR (\<not> eq_parallel st \<or> eq_current st)) (\<lambda>_.
     bindR (eq_remove event st) (\<lambda>st1.
     Inr (release event
       (upd_event event (\<lambda>e. e\<lparr>ev_flags := clear (clear (ev_flags e) Squashed) Scheduled\<rparr>) st1))))))"

definition reschedule :: "eptr \<Rightarrow> tick \<Rightarrow> bool \<Rightarrow> EventQ \<Rightarrow> EventQ result" where
  "reschedule event wh always st =
     bindR (assertR (wh \<ge> eq_curTick st)) (\<lambda>_.
     bindR (assertR (always \<or> scheduled (eq_mem st event))) (\<lambda>_.
     bindR (assertR (initialized (eq_mem st event))) (\<lambda>_.
     bindR (assertR (\<not> eq_parallel st \<or> eq_current st)) (\<lambda>_.
     bindR (if scheduled (eq_mem st event) then eq_remove event st
            else Inr (acquire event st)) (\<lambda>st1.
     bindR (eq_insert event (upd_event event (setWhen wh (eq_self st)) st1)) (\<lambda>st2.
     Inr (upd_event event
       (\<lambda>e. e\<lparr>ev_flags := set_flag (clear (ev_flags e) Squashed) Scheduled\<rparr>) st2)))))))"

definition replaceHead :: "eptr option \<Rightarrow> EventQ \<Rightarrow> EventQ \<times> eptr option" where
  "replaceHead s st = (st\<lparr>eq_head := s\<rparr>, eq_head st)"

section \<open>Serving events\<close>

type_synonym handler = "eptr \<Rightarrow> EventQ \<Rightarrow> EventQ result"

text \<open>The first half of \<open>serviceOne\<close>: the head event leaves the queue.\<close>

definition pop_head :: "eptr \<Rightarrow> EventQ \<Rightarrow> EventQ" where
  "pop_head event st =
     (let nxt = nextInBin (eq_mem st event);
          st1 = upd_event event (\<lambda>e. e\<lparr>ev_flags := clear (ev_flags e) Scheduled\<rparr>) st
      in case nxt of
           Some n \<Rightarrow> (upd_event n (\<lambda>e. e\<lparr>nextBin := nextBin (eq_mem st1 event)\<rparr>) st1)\<lparr>eq_head := Some n\<rparr>
         | None \<Rightarrow> st1\<lparr>eq_head := nextBin (eq_mem st1 event)\<rparr>)"

definition serviceOne :: "handler \<Rightarrow> EventQ \<Rightarrow> (EventQ \<times> eptr option) result" where
  "serviceOne process st =
     (case eq_head st of
        None \<Rightarrow> Inl Undefined
      | Some event \<Rightarrow>
          let st1 = pop_head event st in
          if \<not> squashed (eq_mem st1 event)
          then bindR (process event (setCurTick (ev_when (eq_mem st1 event)) st1)) (\<lambda>st2.
                 let e = eq_mem st2 event in
                 if isExitEvent e
                 then bindR (assertR (\<not> isSet (ev_flags e) Managed \<or> \<not> isSet (ev_flags e) IsMainQueue))
                        (\<lambda>_. Inr (st2, Some event))
                 else Inr (release event st2, None))
          else Inr (release event
                 (upd_event event (\<lambda>e. e\<lparr>ev_flags := clear (ev_flags e) Squashed\<rparr>) st1), None))"

partial_function (option) service_loop :: "handler \<Rightarrow> tick \<Rightarrow> EventQ \<Rightarrow> EventQ result option" where [code]:
  "service_loop process wh st =
     (case eq_head st of
        None \<Rightarrow> Some (Inr st)
      | Some h \<Rightarrow>
          if ev_when (eq_mem st h) > wh then Some (Inr st)
          else (case serviceOne process st of
                  Inl err \<Rightarrow> Some (Inl err)
                | Inr (st', _) \<Rightarrow> service_loop process wh st'))"

definition serviceEvents :: "handler \<Rightarrow> tick \<Rightarrow> EventQ \<Rightarrow> EventQ result" where
  "serviceEvents process wh st =
     bindR (bindR (loopR (service_loop process wh st)) id) (\<lambda>st'. Inr (setCurTick wh st'))"

text \<open>\<open>doSimLoop\<close> of \<open>sim/simulate.cc\<close> with no asynchronous (signal) event pending.\<close>

partial_function (option) sim_loop :: "handler \<Rightarrow> EventQ \<Rightarrow> (EventQ \<times> eptr) result option" where [code]:
  "sim_loop process st =
     (case eq_head st of
        None \<Rightarrow> Some (Inl AssertFailed)
      | Some h \<Rightarrow>
          if eq_curTick st \<le> ev_when (eq_mem st h)
          then (case serviceOne process st of
                  Inl err \<Rightarrow> Some (Inl err)
                | Inr (st', ret) \<Rightarrow>
                    (case ret of Some event \<Rightarrow> Some (Inr (st', event)) | None \<Rightarrow> sim_loop process st'))
          else Some (Inl AssertFailed))"

definition doSimLoop :: "handler \<Rightarrow> EventQ \<Rightarrow> (EventQ \<times> eptr) result" where
  "doSimLoop process st =
     bindR (handleAsyncInsertions (st\<lparr>eq_current := True\<rparr>)) (\<lambda>st1.
       bindR (loopR (sim_loop process st1)) id)"

definition MaxTick :: tick where "MaxTick = - 1"

definition simulate_limit :: "tick \<Rightarrow> tick \<Rightarrow> tick" where
  "simulate_limit curTick num_cycles =
     (if num_cycles < MaxTick - curTick then curTick + num_cycles else MaxTick)"

partial_function (option) destroy_loop :: "EventQ \<Rightarrow> EventQ result option" where [code]:
  "destroy_loop st =
     (case eq_head st of
        None \<Rightarrow> Some (Inr st)
      | Some h \<Rightarrow> (case deschedule h st of Inl err \<Rightarrow> Some (Inl err) | Inr st' \<Rightarrow> destroy_loop st'))"

section \<open>Checkpoints\<close>

type_synonym event_cp = "tick \<times> int \<times> u16"

definition event_serialize :: "Event \<Rightarrow> event_cp" where
  "event_serialize e = (ev_when e, ev_priority e, ev_flags e)"

definition event_unserialize :: "event_cp \<Rightarrow> Event \<Rightarrow> Event result" where
  "event_unserialize cp e =
     (case cp of (wh, pri, fl) \<Rightarrow>
        bindR (assertR (\<not> scheduled e)) (\<lambda>_.
        bindR (assertR (initialized e)) (\<lambda>_.
        let f1 = set_flag fl Initialized;
            f2 = if isSet f1 Scheduled \<and> \<not> isSet f1 Squashed then clear f1 (Squashed OR Scheduled) else f1
        in Inr (e\<lparr>ev_when := wh, ev_priority := pri, ev_flags := f2\<rparr>))))"

definition checkpointReschedule :: "eptr \<Rightarrow> EventQ \<Rightarrow> EventQ result" where
  "checkpointReschedule event st =
     (if isSet (ev_flags (eq_mem st event)) Scheduled then eq_insert event st else Inr st)"

section \<open>Self check\<close>

text \<open>\<open>Some None\<close> is the return of false from inside the inner loop.\<close>

partial_function (option) verify_in_bin ::
    "estore \<Rightarrow> eptr option \<Rightarrow> tick \<Rightarrow> int \<Rightarrow> eptr list \<Rightarrow> (tick \<times> int \<times> eptr list) option option"
  where [code]:
  "verify_in_bin m p time priority seen =
     (case p of
        None \<Rightarrow> Some (Some (time, priority, seen))
      | Some n \<Rightarrow>
          if ev_when (m n) < time then Some None
          else if ev_when (m n) = time \<and> ev_priority (m n) < priority then Some None
          else if n \<in> set seen then Some None
          else verify_in_bin m (nextInBin (m n)) (ev_when (m n)) (ev_priority (m n)) (n # seen))"

partial_function (option) verify_bins ::
    "estore \<Rightarrow> eptr option \<Rightarrow> tick \<Rightarrow> int \<Rightarrow> eptr list \<Rightarrow> bool option"
  where [code]:
  "verify_bins m p time priority seen =
     (case p of
        None \<Rightarrow> Some True
      | Some n \<Rightarrow>
          Option.bind (verify_in_bin m (Some n) time priority seen) (\<lambda>r.
            case r of
              None \<Rightarrow> Some False
            | Some (t, pr, sn) \<Rightarrow> verify_bins m (nextBin (m n)) t pr sn))"

definition debugVerify :: "EventQ \<Rightarrow> bool option" where
  "debugVerify st = verify_bins (eq_mem st) (eq_head st) 0 0 []"

end
