(* ===== verification/EventQueueCorrect.thy ===== *)
theory EventQueueCorrect
  imports EventQueue
begin

text \<open>
  Correctness of the event queue. The abstract queue is a list of events sorted by time and priority,
  the last inserted first among equals; \<open>insert\<close> is \<^const>\<open>insort_key\<close>, \<open>remove\<close> is \<^const>\<open>remove1\<close> and
  serving takes the first element. Between it and the pointers stands a list of bins: the theory
  proves that the pointer operations implement the bins and the bins the sorted list, that every
  operation keeps the invariant of the queue, and what follows for the simulation loop.
\<close>

section \<open>Bins\<close>

fun bins_insert :: "('e \<Rightarrow> 'k::linorder) \<Rightarrow> 'e \<Rightarrow> 'e list list \<Rightarrow> 'e list list" where
  "bins_insert k e [] = [[e]]"
| "bins_insert k e (b # bs) =
     (if k e < k (hd b) then [e] # b # bs
      else if k e = k (hd b) then (e # b) # bs
      else b # bins_insert k e bs)"

fun bins_remove :: "('e \<Rightarrow> 'k::linorder) \<Rightarrow> 'e \<Rightarrow> 'e list list \<Rightarrow> 'e list list" where
  "bins_remove k e [] = []"
| "bins_remove k e (b # bs) =
     (if k e = k (hd b) then (if remove1 e b = [] then bs else remove1 e b # bs)
      else b # bins_remove k e bs)"

fun bins_ok :: "('e \<Rightarrow> 'k::linorder) \<Rightarrow> 'e list list \<Rightarrow> bool" where
  "bins_ok k [] \<longleftrightarrow> True"
| "bins_ok k ([] # bs) \<longleftrightarrow> False"
| "bins_ok k ((y # ys) # bs) \<longleftrightarrow>
     (\<forall>x \<in> set ys. k x = k y) \<and> (\<forall>x \<in> set (concat bs). k y < k x) \<and> bins_ok k bs"

lemma bins_ok_nonempty: "bins_ok k bs \<Longrightarrow> [] \<notin> set bs"
  by (induction k bs rule: bins_ok.induct) auto

lemma bins_ok_append:
  "bins_ok k (bs @ cs) \<longleftrightarrow>
     bins_ok k bs \<and> bins_ok k cs \<and> (\<forall>x \<in> set (concat bs). \<forall>y \<in> set (concat cs). k x < k y)"
proof (induction k bs rule: bins_ok.induct)
  case (3 k y ys bs)
  show ?case
  proof (cases "\<forall>x \<in> set ys. k x = k y")
    case True
    then have "(\<forall>x \<in> set (y # ys). \<forall>z \<in> set (concat cs). k x < k z)
        \<longleftrightarrow> (\<forall>z \<in> set (concat cs). k y < k z)" by auto
    then show ?thesis using 3 True by (simp add: ball_Un del: set_concat) blast
  next
    case False
    then show ?thesis by (simp only: append_Cons bins_ok.simps) simp
  qed
qed simp_all

lemma bins_ok_sorted: "bins_ok k bs \<Longrightarrow> sorted (map k (concat bs))"
proof (induction k bs rule: bins_ok.induct)
  case (3 k y ys bs)
  have ys: "x \<in> set ys \<Longrightarrow> k x = k y" for x using 3(2) by simp
  have "sorted (map k ys)"
    by (auto simp: sorted_iff_nth_mono ys)
  moreover have "x \<in> set (concat bs) \<Longrightarrow> k y < k x" for x using 3(2) by (simp del: set_concat)
  ultimately show ?case using 3(1,2) ys
    by (auto simp: sorted_append less_imp_le simp del: set_concat)
qed simp_all

lemma bins_ok_cong: "(\<And>x. x \<in> set (concat bs) \<Longrightarrow> k x = k' x) \<Longrightarrow> bins_ok k bs \<Longrightarrow> bins_ok k' bs"
  by (induction k bs rule: bins_ok.induct) auto

lemma set_bins_insert: "set (concat (bins_insert k e bs)) = insert e (set (concat bs))"
  by (induction bs) auto

lemma bins_ok_insert: "bins_ok k bs \<Longrightarrow> bins_ok k (bins_insert k e bs)"
proof (induction k bs rule: bins_ok.induct)
  case (3 k y ys bs)
  then show ?case using set_bins_insert [of k e bs]
    by (auto simp del: UN_iff set_concat)
qed simp_all

lemma insort_key_append_less:
  "\<forall>x \<in> set xs. k x < k e \<Longrightarrow> insort_key k e (xs @ ys) = xs @ insort_key k e ys"
  by (induction xs) (auto simp: not_le)

lemma concat_bins_insert: "bins_ok k bs \<Longrightarrow> concat (bins_insert k e bs) = insort_key k e (concat bs)"
proof (induction k bs rule: bins_ok.induct)
  case (3 k y ys bs)
  have IH: "concat (bins_insert k e bs) = insort_key k e (concat bs)"
    using 3 by (simp del: set_concat)
  have below: "k y < k e \<Longrightarrow> \<forall>x \<in> set (y # ys). k x < k e"
    using 3(2) by (simp del: set_concat)
  consider "k e < k y" | "k e = k y" | "k y < k e" by (rule linorder_cases)
  then show ?case
  proof cases
    case 3
    then have "insort_key k e ((y # ys) @ concat bs) = (y # ys) @ insort_key k e (concat bs)"
      using below by (intro insort_key_append_less) simp
    moreover have "concat (bins_insert k e ((y # ys) # bs)) = (y # ys) @ concat (bins_insert k e bs)"
      using 3 by (auto dest: order.asym)
    ultimately show ?thesis using IH by (simp only: concat.simps)
  qed (auto simp: less_imp_le)
qed simp_all

lemma bins_insert_append:
  "\<forall>b \<in> set bs. k (hd b) < k e \<Longrightarrow> bins_insert k e (bs @ cs) = bs @ bins_insert k e cs"
  by (induction bs) auto

lemma bins_remove_append:
  "\<forall>b \<in> set bs. k (hd b) < k e \<Longrightarrow> bins_remove k e (bs @ cs) = bs @ bins_remove k e cs"
  by (induction bs) auto

lemma concat_bins_remove:
  "bins_ok k bs \<Longrightarrow> e \<in> set (concat bs) \<Longrightarrow> concat (bins_remove k e bs) = remove1 e (concat bs)"
proof (induction k bs rule: bins_ok.induct)
  case (3 k y ys bs)
  show ?case
  proof (cases "e \<in> set (y # ys)")
    case True
    then have "k e = k y" using 3(2) by auto
    then show ?thesis using True by (auto simp: remove1_append)
  next
    case False
    then have e: "e \<in> set (concat bs)" using 3(3) by simp
    then have "k y < k e" using 3(2) by (simp del: set_concat)
    then show ?thesis using 3(1,2) e False by (auto simp: remove1_append)
  qed
qed simp_all

lemma set_bins_remove: "x \<in> set (concat (bins_remove k e bs)) \<Longrightarrow> x \<in> set (concat bs)"
proof (induction bs)
  case (Cons b bs)
  then show ?case
    by (auto split: if_splits dest: notin_set_remove1)
qed simp

lemma bins_ok_remove: "bins_ok k bs \<Longrightarrow> bins_ok k (bins_remove k e bs)"
proof (induction k bs rule: bins_ok.induct)
  case (3 k y ys bs)
  have rest: "\<forall>x \<in> set (concat (bins_remove k e bs)). k y < k x"
    using 3 set_bins_remove by fastforce
  have same: "\<forall>x \<in> set (remove1 e (y # ys)). k x = k y"
    using 3(2) by (auto dest: notin_set_remove1)
  show ?case
  proof (cases "remove1 e (y # ys)")
    case Nil
    then show ?thesis using 3 rest by (auto simp del: UN_iff set_concat)
  next
    case (Cons z zs)
    then show ?thesis using 3 rest same by (auto simp del: UN_iff set_concat)
  qed
qed simp_all

section \<open>Bins in the store\<close>

definition evkey :: "estore \<Rightarrow> eptr \<Rightarrow> tick \<times> int" where
  "evkey m x = (ev_when (m x), ev_priority (m x))"

lemma event_order [simp]:
  "event_less (m x) (m y) \<longleftrightarrow> evkey m x < evkey m y"
  "event_le (m x) (m y) \<longleftrightarrow> evkey m x \<le> evkey m y"
  "event_eq (m x) (m y) \<longleftrightarrow> evkey m x = evkey m y"
  "event_neq (m x) (m y) \<longleftrightarrow> evkey m x \<noteq> evkey m y"
  by (auto simp: event_less_def event_le_def event_eq_def event_neq_def evkey_def
      less_prod_def less_eq_prod_def)

fun chain :: "estore \<Rightarrow> eptr option \<Rightarrow> eptr list \<Rightarrow> bool" where
  "chain m p [] \<longleftrightarrow> p = None"
| "chain m p (x # xs) \<longleftrightarrow> p = Some x \<and> chain m (nextInBin (m x)) xs"

fun bins_rep :: "estore \<Rightarrow> eptr option \<Rightarrow> eptr list list \<Rightarrow> bool" where
  "bins_rep m p [] \<longleftrightarrow> p = None"
| "bins_rep m p (b # bs) \<longleftrightarrow> b \<noteq> [] \<and> chain m p b \<and> bins_rep m (nextBin (m (hd b))) bs"

lemma chain_cong:
  "(\<And>x. x \<in> set xs \<Longrightarrow> nextInBin (m' x) = nextInBin (m x)) \<Longrightarrow> chain m' p xs \<longleftrightarrow> chain m p xs"
  by (induction xs arbitrary: p) auto

lemma bins_rep_cong:
  "(\<And>x. x \<in> set (concat bs) \<Longrightarrow> nextInBin (m' x) = nextInBin (m x)) \<Longrightarrow>
   (\<And>b. b \<in> set bs \<Longrightarrow> nextBin (m' (hd b)) = nextBin (m (hd b))) \<Longrightarrow>
   bins_rep m' p bs \<longleftrightarrow> bins_rep m p bs"
proof (induction bs arbitrary: p)
  case (Cons b bs)
  then have "chain m' p b \<longleftrightarrow> chain m p b" by (intro chain_cong) auto
  moreover have "bins_rep m' q bs \<longleftrightarrow> bins_rep m q bs" for q using Cons by auto
  ultimately show ?case using Cons.prems(2) by simp
qed simp

lemma bins_rep_nonempty: "bins_rep m p bs \<Longrightarrow> b \<in> set bs \<Longrightarrow> hd b \<in> set b"
  by (induction bs arbitrary: p) auto

lemma bins_rep_update:
  "bins_rep m p bs \<Longrightarrow> x \<notin> set (concat bs) \<Longrightarrow> bins_rep (m(x := v)) p bs"
  by (subst bins_rep_cong [of bs "m(x := v)" m]) (auto dest: bins_rep_nonempty)

lemma bins_rep_top: "bins_rep m p (b # bs) \<Longrightarrow> p = Some (hd b)"
  by (cases b) auto

section \<open>The pointer operations implement the bins\<close>

text \<open>What an update of links leaves alone: times, priorities, flags and owners.\<close>

definition links_only :: "estore \<Rightarrow> estore \<Rightarrow> bool" where
  "links_only m m' \<longleftrightarrow>
     (\<forall>x. ev_when (m' x) = ev_when (m x) \<and> ev_priority (m' x) = ev_priority (m x) \<and>
          ev_flags (m' x) = ev_flags (m x) \<and> ev_queue (m' x) = ev_queue (m x))"

lemma links_onlyD:
  assumes "links_only m m'"
  shows "evkey m' = evkey m" "ev_flags (m' x) = ev_flags (m x)" "ev_queue (m' x) = ev_queue (m x)"
    "ev_when (m' x) = ev_when (m x)" "ev_priority (m' x) = ev_priority (m x)"
  using assms by (auto simp: links_only_def evkey_def)

lemma find_bin_spec:
  assumes "bins_rep m p bs"
  shows "\<exists>bs1 bs2 q. bs = bs1 @ bs2 \<and> find_bin m e p prev = Some (last (prev # map hd bs1), q) \<and>
           bins_rep m q bs2 \<and> (\<forall>b \<in> set bs1. evkey m (hd b) < evkey m e) \<and>
           (bs2 \<noteq> [] \<longrightarrow> \<not> evkey m (hd (hd bs2)) < evkey m e)"
  using assms
proof (induction bs arbitrary: p prev)
  case Nil
  then show ?case by (auto simp: find_bin.simps)
next
  case (Cons b bs)
  then have p: "p = Some (hd b)" by (simp only: bins_rep_top)
  show ?case
  proof (cases "evkey m (hd b) < evkey m e")
    case True
    from Cons.prems have "bins_rep m (nextBin (m (hd b))) bs" by simp
    from Cons.IH [OF this, of "hd b"] obtain bs1 bs2 q where IH:
      "bs = bs1 @ bs2" "find_bin m e (nextBin (m (hd b))) (hd b) = Some (last (hd b # map hd bs1), q)"
      "bins_rep m q bs2" "\<forall>b \<in> set bs1. evkey m (hd b) < evkey m e"
      "bs2 \<noteq> [] \<longrightarrow> \<not> evkey m (hd (hd bs2)) < evkey m e"
      by blast
    then have "find_bin m e p prev = Some (last (prev # map hd (b # bs1)), q)"
      using True p by (subst find_bin.simps) simp
    with IH True show ?thesis by (intro exI [of _ "b # bs1"] exI [of _ bs2] exI [of _ q]) auto
  next
    case False
    then have "find_bin m e p prev = Some (prev, p)"
      using p by (subst find_bin.simps) simp
    with False Cons.prems show ?thesis by (intro exI [of _ "[]"] exI [of _ "b # bs"] exI [of _ p]) auto
  qed
qed

text \<open>Hanging a new tail below the last of a run of bins.\<close>

lemma bins_rep_relink:
  assumes "bins_rep m p (bs1 @ bs2)" "bs1 \<noteq> []"
    and "\<And>x. x \<in> set (concat bs1) \<Longrightarrow> nextInBin (m' x) = nextInBin (m x)"
    and "\<And>b. b \<in> set (butlast bs1) \<Longrightarrow> nextBin (m' (hd b)) = nextBin (m (hd b))"
    and "bins_rep m' (nextBin (m' (hd (last bs1)))) bs2'"
  shows "bins_rep m' p (bs1 @ bs2')"
  using assms
proof (induction bs1 arbitrary: p)
  case (Cons b bs1)
  have "chain m' p b \<longleftrightarrow> chain m p b" using Cons.prems(3) by (intro chain_cong) auto
  moreover have "bins_rep m' (nextBin (m' (hd b))) (bs1 @ bs2')"
  proof (cases "bs1 = []")
    case False
    then have "nextBin (m' (hd b)) = nextBin (m (hd b))" using Cons.prems(4) [of b] by simp
    moreover have "bins_rep m' (nextBin (m (hd b))) (bs1 @ bs2')"
      using Cons.prems False by (intro Cons.IH) auto
    ultimately show ?thesis by simp
  qed (use Cons.prems(5) in simp)
  ultimately show ?case using Cons.prems(1) by simp
qed simp

lemma insertBefore_bins:
  assumes "bins_rep m p bs" "e \<notin> set (concat bs)"
    and "bs \<noteq> [] \<longrightarrow> \<not> evkey m (hd (hd bs)) < evkey m e"
  obtains m' where "insertBefore m e p = (m', Some e)" "bins_rep m' (Some e) (bins_insert (evkey m) e bs)"
    "links_only m m'" "\<And>x. x \<noteq> e \<Longrightarrow> m' x = m x"
proof (cases bs)
  case Nil
  then show ?thesis using assms(1)
    by (intro that [of "m(e := (m e)\<lparr>nextBin := None, nextInBin := None\<rparr>)"])
       (auto simp: insertBefore_def links_only_def)
next
  case (Cons b bs')
  let ?m1 = "m(e := (m e)\<lparr>nextBin := p, nextInBin := None\<rparr>)"
  let ?m2 = "m(e := (m e)\<lparr>nextBin := nextBin (m (hd b)), nextInBin := p\<rparr>)"
  have p: "p = Some (hd b)" using assms(1) Cons by (simp only: bins_rep_top)
  have b: "b \<noteq> []" "e \<noteq> hd b" using assms Cons by auto
  show ?thesis
  proof (cases "evkey m e < evkey m (hd b)")
    case True
    then show ?thesis using p b Cons bins_rep_update [OF assms(1,2)]
      by (intro that [of ?m1]) (auto simp: insertBefore_def links_only_def)
  next
    case False
    then have eq: "evkey m e = evkey m (hd b)" using assms(3) Cons by auto
    have "bins_rep (m(e := v)) p (b # bs')" for v using bins_rep_update [OF assms(1,2)] Cons by simp
    then show ?thesis using p b Cons eq
      by (intro that [of ?m2]) (auto simp: insertBefore_def links_only_def)
  qed
qed

definition eq_bins :: "EventQ \<Rightarrow> eptr list list \<Rightarrow> bool" where
  "eq_bins st bs \<longleftrightarrow>
     bins_rep (eq_mem st) (eq_head st) bs \<and> bins_ok (evkey (eq_mem st)) bs \<and> distinct (concat bs)"

lemma eq_insert_head:
  assumes "bins_rep (eq_mem st) (eq_head st) bs" "e \<notin> set (concat bs)"
    and "bs \<noteq> [] \<longrightarrow> \<not> evkey (eq_mem st) (hd (hd bs)) < evkey (eq_mem st) e"
  obtains m' where "eq_insert e st = Inr (st\<lparr>eq_mem := m', eq_head := Some e\<rparr>)"
    "bins_rep m' (Some e) (bins_insert (evkey (eq_mem st)) e bs)" "links_only (eq_mem st) m'"
proof -
  obtain m' where m': "insertBefore (eq_mem st) e (eq_head st) = (m', Some e)"
    "bins_rep m' (Some e) (bins_insert (evkey (eq_mem st)) e bs)" "links_only (eq_mem st) m'"
    using insertBefore_bins [OF assms] by metis
  moreover have "eq_insert e st = Inr (st\<lparr>eq_mem := m', eq_head := Some e\<rparr>)"
  proof (cases bs)
    case Nil
    then show ?thesis using m'(1) assms(1) by (simp add: eq_insert_def)
  next
    case (Cons b bs')
    then have "eq_head st = Some (hd b)" using assms(1) by (simp only: bins_rep_top)
    then show ?thesis using m'(1) assms(3) Cons by (simp add: eq_insert_def Let_def not_less)
  qed
  ultimately show thesis using that by blast
qed

lemma hd_notin_other:
  "distinct (concat (bs1 @ bs2)) \<Longrightarrow> [] \<notin> set bs1 \<Longrightarrow> b \<in> set bs1 \<Longrightarrow> hd b \<notin> set (concat bs2)"
  by (metis IntI UN_I concat_append distinct_append empty_iff hd_in_set set_concat)

lemma hd_butlast_neq_last:
  assumes "distinct (concat bs)" "[] \<notin> set bs" "bs \<noteq> []" "b \<in> set (butlast bs)"
  shows "hd b \<noteq> hd (last bs)"
proof -
  have "distinct (concat (butlast bs @ [last bs]))" "[] \<notin> set (butlast bs)"
    using assms by (auto dest: in_set_butlastD)
  from hd_notin_other [OF this assms(4)] have "hd b \<notin> set (last bs)" by simp
  moreover have "last bs \<noteq> []" using assms(2,3) last_in_set by metis
  ultimately show ?thesis using hd_in_set by metis
qed

text \<open>Changing the tail after a run \<open>B\<close> of bins and linking it to the top of the last bin of \<open>B\<close>.\<close>

lemma bins_rep_splice:
  assumes rep: "bins_rep m p (B @ bs2)" and B: "B \<noteq> []" "distinct (concat B)" "[] \<notin> set B"
    and m1: "\<And>x. x \<in> set (concat B) \<Longrightarrow> m1 x = m x" "bins_rep m1 q bs2'"
    and disj: "set (concat B) \<inter> set (concat bs2') = {}"
  shows "bins_rep (m1(hd (last B) := (m1 (hd (last B)))\<lparr>nextBin := q\<rparr>)) p (B @ bs2')"
proof (rule bins_rep_relink [OF rep B(1)])
  let ?pr = "hd (last B)"
  let ?m' = "m1(?pr := (m1 ?pr)\<lparr>nextBin := q\<rparr>)"
  have hdB: "hd c \<in> set (concat B)" if "c \<in> set B" for c
    using that B(3) by (metis UN_I hd_in_set set_concat)
  have "?pr \<notin> set (concat bs2')" using hdB [of "last B"] B(1) disj by auto
  then show "bins_rep ?m' (nextBin (?m' ?pr)) bs2'"
    using bins_rep_update [OF m1(2)] by simp
  show "nextBin (?m' (hd c)) = nextBin (m (hd c))" if c: "c \<in> set (butlast B)" for c
    using hd_butlast_neq_last [OF B(2,3,1) c] m1(1) [OF hdB [OF in_set_butlastD [OF c]]] by simp
qed (use m1(1) in \<open>auto simp del: set_concat\<close>)

lemma find_bin_split:
  assumes st: "eq_bins st (b # bs)" and less: "evkey (eq_mem st) (hd b) < evkey (eq_mem st) e"
  obtains B bs2 q where "b # bs = B @ bs2" "B \<noteq> []"
    "find_bin (eq_mem st) e (nextBin (eq_mem st (hd b))) (hd b) = Some (hd (last B), q)"
    "bins_rep (eq_mem st) q bs2" "\<forall>c \<in> set B. evkey (eq_mem st) (hd c) < evkey (eq_mem st) e"
    "bs2 \<noteq> [] \<longrightarrow> \<not> evkey (eq_mem st) (hd (hd bs2)) < evkey (eq_mem st) e"
proof -
  have "bins_rep (eq_mem st) (nextBin (eq_mem st (hd b))) bs" using st by (simp add: eq_bins_def)
  from find_bin_spec [OF this, of e "hd b"] obtain bs1 bs2 q where
    "bs = bs1 @ bs2" "find_bin (eq_mem st) e (nextBin (eq_mem st (hd b))) (hd b) =
       Some (last (hd b # map hd bs1), q)"
    "bins_rep (eq_mem st) q bs2" "\<forall>b \<in> set bs1. evkey (eq_mem st) (hd b) < evkey (eq_mem st) e"
    "bs2 \<noteq> [] \<longrightarrow> \<not> evkey (eq_mem st) (hd (hd bs2)) < evkey (eq_mem st) e"
    by blast
  moreover have "last (hd b # map hd bs1) = hd (last (b # bs1))" by (simp add: last_map)
  ultimately show thesis using less by (intro that [of "b # bs1" bs2 q]) auto
qed

lemma eq_binsD:
  assumes "eq_bins st (B @ bs2)"
  shows "bins_rep (eq_mem st) (eq_head st) (B @ bs2)" "distinct (concat B)" "[] \<notin> set B"
    "set (concat B) \<inter> set (concat bs2) = {}"
  using assms bins_ok_nonempty [of _ "B @ bs2"] by (auto simp: eq_bins_def)

lemma eq_insert_tail:
  assumes st: "eq_bins st (b # bs)" and e: "e \<notin> set (concat (b # bs))"
    and less: "evkey (eq_mem st) (hd b) < evkey (eq_mem st) e"
  obtains m' where "eq_insert e st = Inr (st\<lparr>eq_mem := m'\<rparr>)"
    "bins_rep m' (eq_head st) (bins_insert (evkey (eq_mem st)) e (b # bs))" "links_only (eq_mem st) m'"
proof -
  let ?m = "eq_mem st" let ?k = "evkey ?m"
  obtain B bs2 q where B: "b # bs = B @ bs2" "B \<noteq> []"
    "find_bin ?m e (nextBin (?m (hd b))) (hd b) = Some (hd (last B), q)"
    "bins_rep ?m q bs2" "\<forall>c \<in> set B. ?k (hd c) < ?k e"
    "bs2 \<noteq> [] \<longrightarrow> \<not> ?k (hd (hd bs2)) < ?k e"
    using find_bin_split [OF st less] by metis
  have head: "eq_head st = Some (hd b)" using st bins_rep_top by (auto simp: eq_bins_def)
  note D = eq_binsD [OF st [unfolded B(1)]]
  have eB: "e \<notin> set (concat B)" "e \<notin> set (concat bs2)" using e B(1) by auto
  obtain m1 where m1: "insertBefore ?m e q = (m1, Some e)" "bins_rep m1 (Some e) (bins_insert ?k e bs2)"
      "links_only ?m m1" "\<And>x. x \<noteq> e \<Longrightarrow> m1 x = ?m x"
    using insertBefore_bins [OF B(4) eB(2) B(6)] by metis
  let ?m' = "m1(hd (last B) := (m1 (hd (last B)))\<lparr>nextBin := Some e\<rparr>)"
  have "set (concat B) \<inter> set (concat (bins_insert ?k e bs2)) = {}"
    using D(4) eB(1) by (simp only: set_bins_insert) auto
  moreover have "x \<in> set (concat B) \<Longrightarrow> m1 x = ?m x" for x using eB(1) m1(4) [of x] by (cases "x = e") auto
  ultimately have "bins_rep ?m' (eq_head st) (B @ bins_insert ?k e bs2)"
    using m1(2) by (intro bins_rep_splice [OF D(1) B(2) D(2,3)])
  then have "bins_rep ?m' (eq_head st) (bins_insert ?k e (b # bs))"
    using bins_insert_append [OF B(5)] B(1) by simp
  moreover have "links_only ?m ?m'" using m1(3) by (auto simp: links_only_def)
  moreover have "eq_insert e st = Inr (st\<lparr>eq_mem := ?m'\<rparr>)"
    using B(3) m1(1) less head by (auto simp: eq_insert_def Let_def dest: leD)
  ultimately show thesis using that by blast
qed

lemma eq_insert_bins:
  assumes "eq_bins st bs" "e \<notin> set (concat bs)"
  obtains m' h where "eq_insert e st = Inr (st\<lparr>eq_mem := m', eq_head := h\<rparr>)"
    "eq_bins (st\<lparr>eq_mem := m', eq_head := h\<rparr>) (bins_insert (evkey (eq_mem st)) e bs)"
    "links_only (eq_mem st) m'"
proof -
  let ?k = "evkey (eq_mem st)"
  have rep: "bins_rep (eq_mem st) (eq_head st) bs" and ok: "bins_ok ?k (bins_insert ?k e bs)"
    and d: "distinct (concat (bins_insert ?k e bs))"
    using assms by (auto simp: eq_bins_def bins_ok_insert concat_bins_insert distinct_insort simp del: set_concat)
  have fin: "eq_bins (st\<lparr>eq_mem := m', eq_head := h\<rparr>) (bins_insert ?k e bs)"
    if "links_only (eq_mem st) m'" "bins_rep m' h (bins_insert ?k e bs)" for m' h
    using that ok d by (simp add: eq_bins_def links_onlyD(1))
  show thesis
  proof (cases "bs \<noteq> [] \<longrightarrow> \<not> ?k (hd (hd bs)) < ?k e")
    case True
    from eq_insert_head [OF rep assms(2) this] fin that show thesis by metis
  next
    case False
    then obtain b cs where bs: "bs = b # cs" "?k (hd b) < ?k e" by (cases bs) auto
    from eq_insert_tail [of st b cs e] assms bs obtain m' where
      "eq_insert e st = Inr (st\<lparr>eq_mem := m'\<rparr>)"
      "bins_rep m' (eq_head st) (bins_insert ?k e bs)" "links_only (eq_mem st) m'" by metis
    moreover have "st\<lparr>eq_mem := m'\<rparr> = st\<lparr>eq_mem := m', eq_head := eq_head st\<rparr>" by simp
    ultimately show thesis using fin that by metis
  qed
qed

lemma find_in_bin_spec:
  assumes "chain m p xs"
  shows "e \<notin> set xs \<Longrightarrow> find_in_bin m e p c = Some (Inl Panic)"
    and "xs = ys @ e # zs \<Longrightarrow> e \<notin> set ys \<Longrightarrow> find_in_bin m e p c = Some (Inr (last (c # ys)))"
proof -
  show "e \<notin> set xs \<Longrightarrow> find_in_bin m e p c = Some (Inl Panic)"
    using assms by (induction xs arbitrary: p c) (auto simp: find_in_bin.simps)
  show "xs = ys @ e # zs \<Longrightarrow> e \<notin> set ys \<Longrightarrow> find_in_bin m e p c = Some (Inr (last (c # ys)))"
    using assms
  proof (induction ys arbitrary: xs p c)
    case Nil
    then show ?case by (simp add: find_in_bin.simps)
  next
    case (Cons y ys)
    then have "p = Some y" "chain m (nextInBin (m y)) (ys @ e # zs)" by auto
    with Cons.IH [of "ys @ e # zs" "nextInBin (m y)" y] Cons.prems show ?case
      by (subst find_in_bin.simps) auto
  qed
qed

lemma chain_unlink:
  assumes "chain m p (c # ys @ e # zs)" "distinct (c # ys @ e # zs)"
  shows "chain (m(last (c # ys) := (m (last (c # ys)))\<lparr>nextInBin := nextInBin (m e)\<rparr>)) p (c # ys @ zs)"
  using assms
proof (induction ys arbitrary: p c)
  case Nil
  then have "chain m (nextInBin (m e)) zs" "c \<notin> set zs" by auto
  then have "chain (m(c := (m c)\<lparr>nextInBin := nextInBin (m e)\<rparr>)) (nextInBin (m e)) zs"
    by (subst chain_cong [of zs _ m]) auto
  with Nil show ?case by (simp add: fun_upd_same del: fun_upd_apply)
next
  case (Cons y ys)
  have "c \<noteq> last (y # ys)" using Cons.prems(2) last_in_set [of "y # ys"] by (auto split: if_splits)
  with Cons.IH [of "nextInBin (m c)" y] Cons.prems show ?case by simp
qed

lemma removeItem_bins:
  assumes rep: "bins_rep m (Some t) (b # bs)" and d: "distinct (concat (b # bs))" and e: "e \<in> set b"
  obtains m' p' where "removeItem m e t = Inr (m', p')"
    "bins_rep m' p' (if remove1 e b = [] then bs else remove1 e b # bs)" "links_only m m'"
    "\<And>x. x \<notin> set b \<Longrightarrow> m' x = m x"
proof -
  obtain xs where b: "b = t # xs" "chain m (nextInBin (m t)) xs" "bins_rep m (nextBin (m t)) bs"
    using rep by (cases b) auto
  show thesis
  proof (cases "e = t")
    case top: True
    show ?thesis
    proof (cases xs)
      case Nil
      then show ?thesis using top b by (intro that [of m "nextBin (m t)"]) (auto simp: removeItem_def links_only_def)
    next
      case (Cons n ns)
      let ?m = "m(n := (m n)\<lparr>nextBin := nextBin (m t)\<rparr>)"
      have "chain ?m (nextInBin (m t)) xs" using b(2) by (subst chain_cong [of xs _ m]) auto
      moreover have "bins_rep ?m (nextBin (m t)) bs"
        using b d Cons by (intro bins_rep_update) auto
      ultimately show ?thesis using top b Cons
        by (intro that [of ?m "Some n"]) (auto simp: removeItem_def links_only_def)
    qed
  next
    case False
    then have "e \<in> set xs" using e b(1) by simp
    then obtain ys zs where xs: "xs = ys @ e # zs" "e \<notin> set ys" by (metis split_list_first)
    let ?c = "last (t # ys)"
    let ?m = "m(?c := (m ?c)\<lparr>nextInBin := nextInBin (m e)\<rparr>)"
    have c: "?c \<in> set b" using b(1) xs last_in_set [of "t # ys"] by auto
    have "removeItem m e t = Inr (?m, Some t)"
      using find_in_bin_spec(2) [OF b(2) xs] False by (simp add: removeItem_def)
    moreover have "remove1 e b = t # ys @ zs" using False b(1) xs by (simp add: remove1_append)
    moreover have "chain m (Some t) (t # ys @ e # zs)" "distinct (t # ys @ e # zs)"
      using rep d b(1) xs by auto
    then have "chain ?m (Some t) (t # ys @ zs)" by (rule chain_unlink)
    moreover have "bins_rep ?m (nextBin (m t)) bs"
      using b d c by (intro bins_rep_update) auto
    moreover have "nextBin (?m t) = nextBin (m t)" by simp
    ultimately show ?thesis using c
      by (intro that [of ?m "Some t"]) (auto simp: links_only_def simp del: last.simps)
  qed
qed

lemma removeItem_missing:
  "bins_rep m (Some t) (b # bs) \<Longrightarrow> e \<notin> set b \<Longrightarrow> removeItem m e t = Inl Panic"
  by (cases b) (auto simp: removeItem_def find_in_bin_spec(1))

lemma removeItem_links:
  assumes "bins_rep m p (b # bs)" "distinct (concat (b # bs))" "evkey m e = evkey m (hd b)" "e \<in> set b"
  obtains m' p' where "removeItem m e (hd b) = Inr (m', p')"
    "bins_rep m' p' (bins_remove (evkey m) e (b # bs))" "links_only m m'"
    "\<And>x. x \<notin> set b \<Longrightarrow> m' x = m x"
proof -
  have "bins_rep m (Some (hd b)) (b # bs)" using assms(1) bins_rep_top by metis
  from removeItem_bins [OF this assms(2,4)] obtain m' p' where
    "removeItem m e (hd b) = Inr (m', p')"
    "bins_rep m' p' (if remove1 e b = [] then bs else remove1 e b # bs)" "links_only m m'"
    "\<And>x. x \<notin> set b \<Longrightarrow> m' x = m x" by metis
  then show thesis using assms(3) by (intro that [of m' p']) auto
qed

lemma bins_ok_same: "bins_ok k (b # bs) \<Longrightarrow> e \<in> set (concat (b # bs)) \<Longrightarrow> k e = k (hd b) \<longleftrightarrow> e \<in> set b"
  by (cases b) (auto, metis order.irrefl)

lemma bins_ok_member: "bins_ok k bs \<Longrightarrow> c \<in> set bs \<Longrightarrow> x \<in> set c \<Longrightarrow> k x = k (hd c)"
  by (induction k bs rule: bins_ok.induct) auto

lemma bins_ok_ge: "bins_ok k (b # bs) \<Longrightarrow> e \<in> set (concat (b # bs)) \<Longrightarrow> k (hd b) \<le> k e"
  by (cases b) (auto simp: less_imp_le)

lemma eq_remove_bins:
  assumes st: "eq_bins st bs" and e: "e \<in> set (concat bs)" and own: "ev_queue (eq_mem st e) = Some (eq_self st)"
  obtains m' h where "eq_remove e st = Inr (st\<lparr>eq_mem := m', eq_head := h\<rparr>)"
    "eq_bins (st\<lparr>eq_mem := m', eq_head := h\<rparr>) (bins_remove (evkey (eq_mem st)) e bs)"
    "links_only (eq_mem st) m'"
proof -
  let ?m = "eq_mem st" let ?k = "evkey ?m"
  have fin: "eq_bins (st\<lparr>eq_mem := m', eq_head := h\<rparr>) (bins_remove ?k e bs)"
    if "links_only ?m m'" "bins_rep m' h (bins_remove ?k e bs)" for m' h
    using that st e by (simp add: eq_bins_def links_onlyD(1) bins_ok_remove concat_bins_remove del: set_concat)
  obtain b cs where bs: "bs = b # cs" using e by (cases bs) auto
  have rep: "bins_rep ?m (eq_head st) (b # cs)" "bins_ok ?k (b # cs)" "distinct (concat (b # cs))"
    using st bs unfolding eq_bins_def by blast+
  have head: "eq_head st = Some (hd b)" using rep(1) by (rule bins_rep_top)
  show thesis
  proof (cases "?k e = ?k (hd b)")
    case True
    then have "e \<in> set b" using bins_ok_same [OF rep(2)] e bs by simp
    from removeItem_links [OF rep(1,3) True this] obtain m' p' where
      "removeItem ?m e (hd b) = Inr (m', p')" "bins_rep m' p' (bins_remove ?k e bs)" "links_only ?m m'"
      using bs by metis
    moreover from this have "eq_remove e st = Inr (st\<lparr>eq_mem := m', eq_head := p'\<rparr>)"
      using True head own by (simp add: eq_remove_def Let_def)
    ultimately show thesis using fin that by blast
  next
    case False
    then have less: "?k (hd b) < ?k e" using bins_ok_ge [OF rep(2)] e bs by force
    obtain B bs2 q where B: "b # cs = B @ bs2" "B \<noteq> []"
      "find_bin ?m e (nextBin (?m (hd b))) (hd b) = Some (hd (last B), q)"
      "bins_rep ?m q bs2" "\<forall>c \<in> set B. ?k (hd c) < ?k e" "bs2 \<noteq> [] \<longrightarrow> \<not> ?k (hd (hd bs2)) < ?k e"
      using find_bin_split [OF st [unfolded bs] less] by metis
    note D = eq_binsD [OF st [unfolded bs B(1)]]
    have okB: "bins_ok ?k B" "bins_ok ?k bs2" using rep(2) B(1) by (auto simp: bins_ok_append)
    have eB: "e \<notin> set c" if "c \<in> set B" for c
      using B(5) that bins_ok_member [OF okB(1) that, of e] by fastforce
    then have e2: "e \<in> set (concat bs2)" using e bs B(1) by auto
    then obtain c ds where c: "bs2 = c # ds" by (cases bs2) auto
    have ke: "?k e = ?k (hd c)" using bins_ok_ge [OF okB(2) [unfolded c] e2 [unfolded c]] B(6) c by force
    then have ec: "e \<in> set c" using bins_ok_same [OF okB(2) [unfolded c] e2 [unfolded c]] by simp
    have dc: "distinct (concat (c # ds))" using rep(3) unfolding B(1) c by simp
    from removeItem_links [OF B(4) [unfolded c] dc ke ec] obtain m1 p' where
      m1: "removeItem ?m e (hd c) = Inr (m1, p')" "bins_rep m1 p' (bins_remove ?k e bs2)" "links_only ?m m1"
        "\<And>x. x \<notin> set c \<Longrightarrow> m1 x = ?m x"
      unfolding c by metis
    let ?m' = "m1(hd (last B) := (m1 (hd (last B)))\<lparr>nextBin := p'\<rparr>)"
    have "set (concat B) \<inter> set (concat (bins_remove ?k e bs2)) = {}"
      using D(4) set_bins_remove [of _ ?k e bs2] by (auto simp del: set_concat)
    moreover have "x \<in> set (concat B) \<Longrightarrow> m1 x = ?m x" for x using D(4) c by (intro m1(4)) auto
    ultimately have "bins_rep ?m' (eq_head st) (B @ bins_remove ?k e bs2)"
      using m1(2) by (intro bins_rep_splice [OF D(1) B(2) D(2,3)])
    then have "bins_rep ?m' (eq_head st) (bins_remove ?k e bs)"
      using bins_remove_append [OF B(5)] bs B(1) by simp
    moreover have "links_only ?m ?m'" using m1(3) by (auto simp: links_only_def)
    moreover have "eq_remove e st = Inr (st\<lparr>eq_mem := ?m', eq_head := eq_head st\<rparr>)"
      using B(3,4) m1(1) False ke head own bins_rep_top [OF B(4) [unfolded c]]
      by (auto simp: eq_remove_def Let_def)
    ultimately show thesis using fin that by blast
  qed
qed

lemma eq_remove_absent:
  assumes st: "eq_bins st bs" and e: "e \<notin> set (concat bs)" and own: "ev_queue (eq_mem st e) = Some (eq_self st)"
  shows "eq_remove e st = Inl Panic"
proof (cases bs)
  case Nil
  then show ?thesis using st by (simp add: eq_bins_def eq_remove_def Let_def)
next
  case (Cons b cs)
  let ?m = "eq_mem st"
  have rep: "bins_rep ?m (Some (hd b)) (b # cs)" and head: "eq_head st = Some (hd b)"
    using st Cons bins_rep_top unfolding eq_bins_def by metis+
  have "bins_rep ?m (nextBin (?m (hd b))) cs" using rep by simp
  from find_bin_spec [OF this, of e "hd b"] obtain bs1 bs2 q where
    B: "cs = bs1 @ bs2" "find_bin ?m e (nextBin (?m (hd b))) (hd b) = Some (last (hd b # map hd bs1), q)"
    "bins_rep ?m q bs2" by blast
  have miss: "removeItem ?m e (hd b) = Inl Panic"
    using removeItem_missing [OF rep] e Cons by simp
  show ?thesis
  proof (cases bs2)
    case Nil
    then show ?thesis using B miss head own by (simp add: eq_remove_def Let_def)
  next
    case c: (Cons c ds)
    then have q: "q = Some (hd c)" using B(3) bins_rep_top by simp
    then have "removeItem ?m e (hd c) = Inl Panic"
      using removeItem_missing [of ?m "hd c" c ds e] e B(1,3) Cons c by simp
    then show ?thesis using B(2) q miss head own by (simp add: eq_remove_def Let_def)
  qed
qed

section \<open>Flag words\<close>

lemma isSet_bits [simp]:
  "isSet f Scheduled \<longleftrightarrow> bit f 1" "isSet f Squashed \<longleftrightarrow> bit f 0"
  "isSet f Managed \<longleftrightarrow> bit f 2" "isSet f IsExitEvent \<longleftrightarrow> bit f 4" "isSet f IsMainQueue \<longleftrightarrow> bit f 5"
  using and_exp_eq_0_iff_not_bit [of f 1] and_exp_eq_0_iff_not_bit [of f 0]
    and_exp_eq_0_iff_not_bit [of f 2] and_exp_eq_0_iff_not_bit [of f 4] and_exp_eq_0_iff_not_bit [of f 5]
  by (simp_all add: isSet_def flag_defs)

lemma bit_flag_consts:
  "bit Scheduled n \<longleftrightarrow> n = 1" "bit Squashed n \<longleftrightarrow> n = 0"
proof -
  have exp: "bit (2 ^ k :: u16) n \<longleftrightarrow> n = k" if "k < 16" for k
    using that by (auto simp: bit_exp_iff)
  show "bit Scheduled n \<longleftrightarrow> n = 1" "bit Squashed n \<longleftrightarrow> n = 0"
    using exp [of 1] exp [of 0] by (simp_all add: flag_defs)
qed

lemma bit_flag_ops [simp]:
  "bit (set_flag f Scheduled) n \<longleftrightarrow> bit f n \<or> n = 1"
  "bit (set_flag f Squashed) n \<longleftrightarrow> bit f n \<or> n = 0"
  "bit (clear f Scheduled) n \<longleftrightarrow> bit f n \<and> n \<noteq> 1"
  "bit (clear f Squashed) n \<longleftrightarrow> bit f n \<and> n \<noteq> 0"
  by (auto simp: set_flag_def clear_def bit_or_iff bit_and_iff bit_not_iff bit_flag_consts
      simp flip: One_nat_def dest: bit_imp_le_length)

lemma init_flags [simp]:
  "set_flag f Scheduled AND InitMask = f AND InitMask"
  "set_flag f Squashed AND InitMask = f AND InitMask"
  "clear f Scheduled AND InitMask = f AND InitMask"
  "clear f Squashed AND InitMask = f AND InitMask"
  by (simp_all add: set_flag_def clear_def flag_defs bit.conj_disj_distrib2 and.assoc)

section \<open>The invariant of the queue\<close>

definition queue_of :: "EventQ \<Rightarrow> eptr list \<Rightarrow> bool" where
  "queue_of st q \<longleftrightarrow> (\<exists>bs. eq_bins st bs \<and> q = concat bs)"

definition eq_inv :: "EventQ \<Rightarrow> eptr list \<Rightarrow> bool" where
  "eq_inv st q \<longleftrightarrow>
     queue_of st q \<and> \<not> eq_parallel st \<and> eq_async st = [] \<and>
     (\<forall>e. scheduled (eq_mem st e) \<longleftrightarrow> e \<in> set q) \<and>
     (\<forall>e \<in> set q. initialized (eq_mem st e) \<and> ev_queue (eq_mem st e) = Some (eq_self st) \<and>
                  eq_curTick st \<le> ev_when (eq_mem st e))"

lemma upd_event_sel [simp]:
  "eq_mem (upd_event e f st) = (eq_mem st)(e := f (eq_mem st e))"
  "eq_head (upd_event e f st) = eq_head st" "eq_curTick (upd_event e f st) = eq_curTick st"
  "eq_async (upd_event e f st) = eq_async st" "eq_self (upd_event e f st) = eq_self st"
  "eq_parallel (upd_event e f st) = eq_parallel st" "eq_current (upd_event e f st) = eq_current st"
  by (simp_all add: upd_event_def)

lemma eq_bins_cong:
  assumes "eq_bins st bs" "eq_head st' = eq_head st"
    and "\<And>x. x \<in> set (concat bs) \<Longrightarrow> nextInBin (eq_mem st' x) = nextInBin (eq_mem st x) \<and>
           nextBin (eq_mem st' x) = nextBin (eq_mem st x) \<and> evkey (eq_mem st') x = evkey (eq_mem st) x"
  shows "eq_bins st' bs"
proof -
  have "[] \<notin> set bs" using assms(1) bins_ok_nonempty unfolding eq_bins_def by blast
  then have hd: "hd b \<in> set (concat bs)" if "b \<in> set bs" for b
    using that by (cases b) force+
  have "bins_rep (eq_mem st') (eq_head st) bs \<longleftrightarrow> bins_rep (eq_mem st) (eq_head st) bs"
    using assms(3) hd by (intro bins_rep_cong) blast+
  moreover have "bins_ok (evkey (eq_mem st')) bs"
  proof (rule bins_ok_cong [of bs "evkey (eq_mem st)"])
    show "bins_ok (evkey (eq_mem st)) bs" using assms(1) by (simp add: eq_bins_def)
  qed (use assms(3) in simp)
  ultimately show ?thesis using assms(1,2) by (simp add: eq_bins_def)
qed

lemma queue_of_cong:
  assumes "queue_of st q" "eq_head st' = eq_head st"
    and "\<And>x. x \<in> set q \<Longrightarrow> nextInBin (eq_mem st' x) = nextInBin (eq_mem st x) \<and>
           nextBin (eq_mem st' x) = nextBin (eq_mem st x) \<and> evkey (eq_mem st') x = evkey (eq_mem st) x"
  shows "queue_of st' q"
proof -
  obtain bs where "eq_bins st bs" "q = concat bs" using assms(1) unfolding queue_of_def by blast
  then have "eq_bins st' bs" using assms(2,3) by (intro eq_bins_cong [of st bs st']) blast+
  with \<open>q = concat bs\<close> show ?thesis unfolding queue_of_def by blast
qed

lemma queue_of_distinct: "queue_of st q \<Longrightarrow> distinct q"
  by (auto simp: queue_of_def eq_bins_def)

lemma queue_of_sorted: "queue_of st q \<Longrightarrow> sorted (map (evkey (eq_mem st)) q)"
  by (auto simp: queue_of_def eq_bins_def intro: bins_ok_sorted)

lemma queue_of_head: "queue_of st q \<Longrightarrow> eq_head st = (case q of [] \<Rightarrow> None | x # _ \<Rightarrow> Some x)"
proof (unfold queue_of_def, elim exE conjE)
  fix bs
  assume "eq_bins st bs" "q = concat bs"
  then show ?thesis
    by (cases bs; cases "hd bs") (auto simp: eq_bins_def)
qed

lemma eq_insert_queue:
  assumes "queue_of st q" "e \<notin> set q"
  obtains m' h where "eq_insert e st = Inr (st\<lparr>eq_mem := m', eq_head := h\<rparr>)"
    "queue_of (st\<lparr>eq_mem := m', eq_head := h\<rparr>) (insort_key (evkey (eq_mem st)) e q)"
    "links_only (eq_mem st) m'"
proof -
  obtain bs where bs: "eq_bins st bs" "q = concat bs" using assms by (auto simp: queue_of_def)
  obtain m' h where R: "eq_insert e st = Inr (st\<lparr>eq_mem := m', eq_head := h\<rparr>)"
    "eq_bins (st\<lparr>eq_mem := m', eq_head := h\<rparr>) (bins_insert (evkey (eq_mem st)) e bs)"
    "links_only (eq_mem st) m'"
    using eq_insert_bins [OF bs(1)] assms(2) bs(2) by metis
  moreover have "concat (bins_insert (evkey (eq_mem st)) e bs) = insort_key (evkey (eq_mem st)) e q"
    using bs by (simp add: concat_bins_insert eq_bins_def)
  ultimately show thesis using that queue_of_def by metis
qed

lemma eq_remove_queue:
  assumes "queue_of st q" "e \<in> set q" "ev_queue (eq_mem st e) = Some (eq_self st)"
  obtains m' h where "eq_remove e st = Inr (st\<lparr>eq_mem := m', eq_head := h\<rparr>)"
    "queue_of (st\<lparr>eq_mem := m', eq_head := h\<rparr>) (remove1 e q)" "links_only (eq_mem st) m'"
proof -
  obtain bs where bs: "eq_bins st bs" "q = concat bs" using assms by (auto simp: queue_of_def)
  obtain m' h where R: "eq_remove e st = Inr (st\<lparr>eq_mem := m', eq_head := h\<rparr>)"
    "eq_bins (st\<lparr>eq_mem := m', eq_head := h\<rparr>) (bins_remove (evkey (eq_mem st)) e bs)"
    "links_only (eq_mem st) m'"
    using eq_remove_bins [OF bs(1)] assms(2,3) bs(2) by metis
  moreover have "concat (bins_remove (evkey (eq_mem st)) e bs) = remove1 e q"
    using bs assms(2) by (simp add: concat_bins_remove eq_bins_def del: set_concat)
  ultimately show thesis using that queue_of_def by metis
qed

lemma eq_remove_queue_absent:
  "queue_of st q \<Longrightarrow> e \<notin> set q \<Longrightarrow> ev_queue (eq_mem st e) = Some (eq_self st) \<Longrightarrow> eq_remove e st = Inl Panic"
  using eq_remove_absent unfolding queue_of_def by blast

text \<open>The head leaves the queue.\<close>

lemma pop_head_bins:
  assumes st: "eq_bins st ((x # xs) # cs)"
  shows "eq_bins (pop_head x st) (if xs = [] then cs else xs # cs)"
proof -
  let ?m = "eq_mem st"
  let ?m1 = "?m(x := (?m x)\<lparr>ev_flags := clear (ev_flags (?m x)) Scheduled\<rparr>)"
  have rep: "chain ?m (nextInBin (?m x)) xs" "bins_rep ?m (nextBin (?m x)) cs"
    and ok: "bins_ok (evkey ?m) cs" "\<forall>z \<in> set xs. evkey ?m z = evkey ?m x"
      "\<forall>z \<in> set (concat cs). evkey ?m x < evkey ?m z"
    and x: "x \<notin> set xs" "x \<notin> set (concat cs)" "distinct (concat (xs # cs))"
    using st by (auto simp: eq_bins_def)
  have rep1: "bins_rep ?m1 (nextBin (?m x)) cs" using rep(2) x(2) by (rule bins_rep_update)
  show ?thesis
  proof (cases xs)
    case Nil
    then have "eq_mem (pop_head x st) = ?m1" "eq_head (pop_head x st) = nextBin (?m x)"
      using rep(1) by (simp_all add: pop_head_def upd_event_def)
    moreover have "evkey ?m1 = evkey ?m" by (auto simp: evkey_def)
    ultimately show ?thesis using Nil rep1 ok x by (simp add: eq_bins_def)
  next
    case (Cons n ns)
    let ?m2 = "?m1(n := (?m1 n)\<lparr>nextBin := nextBin (?m x)\<rparr>)"
    have "nextInBin (?m x) = Some n" "n \<noteq> x" "n \<notin> set (concat cs)" using rep(1) Cons x by auto
    then have "eq_mem (pop_head x st) = ?m2" "eq_head (pop_head x st) = nextInBin (?m x)"
      and rep2: "bins_rep ?m2 (nextBin (?m x)) cs" and nb: "nextBin (?m2 n) = nextBin (?m x)"
      using bins_rep_update [OF rep1] by (simp_all add: pop_head_def upd_event_def)
    moreover have "chain ?m2 (nextInBin (?m x)) xs" using rep(1) by (subst chain_cong [of xs _ ?m]) auto
    moreover have "evkey ?m2 = evkey ?m" by (auto simp: evkey_def)
    moreover have "bins_ok (evkey ?m) (xs # cs)"
      using ok Cons by (simp del: set_concat)
    ultimately show ?thesis using Cons x by (simp add: eq_bins_def)
  qed
qed

lemma pop_head_queue:
  assumes "queue_of st (x # q)"
  shows "queue_of (pop_head x st) q"
    and "\<And>y. ev_when (eq_mem (pop_head x st) y) = ev_when (eq_mem st y)"
    and "\<And>y. ev_priority (eq_mem (pop_head x st) y) = ev_priority (eq_mem st y)"
    and "\<And>y. ev_queue (eq_mem (pop_head x st) y) = ev_queue (eq_mem st y)"
    and "\<And>y. ev_flags (eq_mem (pop_head x st) y) =
           (if y = x then clear (ev_flags (eq_mem st x)) Scheduled else ev_flags (eq_mem st y))"
    and "eq_curTick (pop_head x st) = eq_curTick st" "eq_self (pop_head x st) = eq_self st"
      "eq_async (pop_head x st) = eq_async st" "eq_parallel (pop_head x st) = eq_parallel st"
proof -
  obtain bs where bs: "eq_bins st bs" "concat bs = x # q"
    using assms unfolding queue_of_def by metis
  then obtain xs cs where c: "bs = (x # xs) # cs" "q = xs @ concat cs"
    by (cases bs; cases "hd bs") (auto simp: eq_bins_def)
  then show "queue_of (pop_head x st) q"
    using pop_head_bins [of st x xs cs] bs unfolding queue_of_def by (intro exI) auto
qed (auto simp: pop_head_def Let_def upd_event_def split: option.splits)

section \<open>Every operation keeps the invariant\<close>

abbreviation key_at :: "EventQ \<Rightarrow> eptr \<Rightarrow> tick \<Rightarrow> eptr \<Rightarrow> tick \<times> int" where
  "key_at st e wh \<equiv> (evkey (eq_mem st))(e := (wh, ev_priority (eq_mem st e)))"

lemma queue_of_flags:
  "queue_of st q \<Longrightarrow> queue_of (upd_event e (\<lambda>x. x\<lparr>ev_flags := F x\<rparr>) st) q"
  by (erule queue_of_cong) (auto simp: evkey_def)

lemma queue_of_setWhen:
  "queue_of st q \<Longrightarrow> e \<notin> set q \<Longrightarrow> queue_of (upd_event e (setWhen wh n) st) q"
  by (erule queue_of_cong) (auto simp: evkey_def)

lemma evkey_setWhen: "evkey (eq_mem (upd_event e (setWhen wh n) st)) = key_at st e wh"
  by (auto simp: evkey_def setWhen_def)

text \<open>Setting the time of an event outside the queue and inserting it.\<close>

lemma insert_at:
  assumes "queue_of st q" "e \<notin> set q"
  obtains m' h where
    "eq_insert e (upd_event e (setWhen wh (eq_self st)) st) = Inr (st\<lparr>eq_mem := m', eq_head := h\<rparr>)"
    "queue_of (st\<lparr>eq_mem := m', eq_head := h\<rparr>) (insort_key (key_at st e wh) e q)"
    "\<And>x. ev_flags (m' x) = ev_flags (eq_mem st x)"
    "\<And>x. ev_when (m' x) = (if x = e then wh else ev_when (eq_mem st x))"
    "\<And>x. ev_queue (m' x) = (if x = e then Some (eq_self st) else ev_queue (eq_mem st x))"
proof -
  let ?st1 = "upd_event e (setWhen wh (eq_self st)) st"
  obtain m' h where R: "eq_insert e ?st1 = Inr (?st1\<lparr>eq_mem := m', eq_head := h\<rparr>)"
    "queue_of (?st1\<lparr>eq_mem := m', eq_head := h\<rparr>) (insort_key (key_at st e wh) e q)"
    "links_only (eq_mem ?st1) m'"
    using eq_insert_queue [OF queue_of_setWhen [OF assms] assms(2)] unfolding evkey_setWhen by metis
  moreover have "?st1\<lparr>eq_mem := m', eq_head := h\<rparr> = st\<lparr>eq_mem := m', eq_head := h\<rparr>"
    by (simp add: upd_event_def)
  ultimately show thesis
    by (intro that [of h m']) (auto simp: links_only_def setWhen_def)
qed

lemma schedule_inv:
  assumes inv: "eq_inv st q" and e: "\<not> scheduled (eq_mem st e)" "initialized (eq_mem st e)"
    and wh: "eq_curTick st \<le> wh"
  obtains st' where "schedule e wh g st = Inr st'" "eq_inv st' (insort_key (key_at st e wh) e q)"
    "eq_curTick st' = eq_curTick st" "ev_when (eq_mem st' e) = wh"
proof -
  have q: "queue_of st q" "e \<notin> set q" using inv e(1) by (auto simp: eq_inv_def)
  obtain m' h where R:
    "eq_insert e (upd_event e (setWhen wh (eq_self st)) st) = Inr (st\<lparr>eq_mem := m', eq_head := h\<rparr>)"
    "queue_of (st\<lparr>eq_mem := m', eq_head := h\<rparr>) (insort_key (key_at st e wh) e q)"
    "\<And>x. ev_flags (m' x) = ev_flags (eq_mem st x)"
    "\<And>x. ev_when (m' x) = (if x = e then wh else ev_when (eq_mem st x))"
    "\<And>x. ev_queue (m' x) = (if x = e then Some (eq_self st) else ev_queue (eq_mem st x))"
    using insert_at [OF q] by metis
  let ?st' = "upd_event e (\<lambda>x. x\<lparr>ev_flags := set_flag (ev_flags x) Scheduled\<rparr>)
                (st\<lparr>eq_mem := m', eq_head := h\<rparr>)"
  have "schedule e wh g st = Inr ?st'"
    using R(1) e wh inv by (simp add: schedule_def Let_def acquire_def eq_inv_def)
  moreover have "eq_inv ?st' (insort_key (key_at st e wh) e q)"
    using queue_of_flags [OF R(2)] inv e(2) wh
    by (auto simp: eq_inv_def R scheduled_def initialized_def set_insort_key)
  ultimately show thesis using R(4) by (intro that [of ?st']) simp_all
qed

lemma deschedule_inv:
  assumes inv: "eq_inv st q" and e: "scheduled (eq_mem st e)"
  obtains st' where "deschedule e st = Inr st'" "eq_inv st' (remove1 e q)"
    "eq_curTick st' = eq_curTick st"
proof -
  have q: "queue_of st q" "e \<in> set q" "ev_queue (eq_mem st e) = Some (eq_self st)"
    "initialized (eq_mem st e)" "distinct q"
    using inv e queue_of_distinct by (auto simp: eq_inv_def)
  obtain m' h where R: "eq_remove e st = Inr (st\<lparr>eq_mem := m', eq_head := h\<rparr>)"
    "queue_of (st\<lparr>eq_mem := m', eq_head := h\<rparr>) (remove1 e q)" "links_only (eq_mem st) m'"
    using eq_remove_queue [OF q(1-3)] by metis
  let ?st' = "upd_event e (\<lambda>x. x\<lparr>ev_flags := clear (clear (ev_flags x) Squashed) Scheduled\<rparr>)
                (st\<lparr>eq_mem := m', eq_head := h\<rparr>)"
  have inv': "eq_inv ?st' (remove1 e q)"
    using queue_of_flags [OF R(2)] inv q(5)
    by (auto simp: eq_inv_def scheduled_def initialized_def links_onlyD [OF R(3)])
  moreover have "eq_inv (?st'\<lparr>eq_freed := f\<rparr>) (remove1 e q)" for f
    using inv' by (simp add: eq_inv_def queue_of_def eq_bins_def)
  moreover have "deschedule e st = Inr (release e ?st')"
    using R(1) e q(4) inv by (simp add: deschedule_def eq_inv_def)
  ultimately show thesis by (intro that [of "release e ?st'"]) (auto simp: release_def)
qed

lemma reschedule_inv:
  assumes inv: "eq_inv st q" and e: "always \<or> scheduled (eq_mem st e)" "initialized (eq_mem st e)"
    and wh: "eq_curTick st \<le> wh"
  obtains st' where "reschedule e wh always st = Inr st'"
    "eq_inv st' (insort_key (key_at st e wh) e (remove1 e q))" "eq_curTick st' = eq_curTick st"
proof -
  have q: "queue_of st q" "scheduled (eq_mem st e) \<longleftrightarrow> e \<in> set q" "distinct q"
    "scheduled (eq_mem st e) \<Longrightarrow> ev_queue (eq_mem st e) = Some (eq_self st)"
    using inv queue_of_distinct by (auto simp: eq_inv_def)
  obtain m1 h1 where R1: "(if scheduled (eq_mem st e) then eq_remove e st else Inr (acquire e st))
        = Inr (st\<lparr>eq_mem := m1, eq_head := h1\<rparr>)"
    "queue_of (st\<lparr>eq_mem := m1, eq_head := h1\<rparr>) (remove1 e q)" "links_only (eq_mem st) m1"
  proof (cases "scheduled (eq_mem st e)")
    case True
    then show thesis using eq_remove_queue [OF q(1)] q(2,4) that by auto
  next
    case False
    then show thesis using q(1,2)
      by (intro that [of "eq_head st" "eq_mem st"])
         (auto simp: acquire_def links_only_def remove1_idem)
  qed
  let ?st1 = "st\<lparr>eq_mem := m1, eq_head := h1\<rparr>"
  have e1: "e \<notin> set (remove1 e q)" using q(3) by simp
  have sel: "eq_self ?st1 = eq_self st" "eq_mem ?st1 = m1" by simp_all
  have key: "key_at ?st1 e wh = key_at st e wh" using links_onlyD [OF R1(3)] by simp
  obtain m' h where R:
    "eq_insert e (upd_event e (setWhen wh (eq_self st)) ?st1) = Inr (?st1\<lparr>eq_mem := m', eq_head := h\<rparr>)"
    "queue_of (?st1\<lparr>eq_mem := m', eq_head := h\<rparr>) (insort_key (key_at st e wh) e (remove1 e q))"
    "\<And>x. ev_flags (m' x) = ev_flags (m1 x)"
    "\<And>x. ev_when (m' x) = (if x = e then wh else ev_when (m1 x))"
    "\<And>x. ev_queue (m' x) = (if x = e then Some (eq_self st) else ev_queue (m1 x))"
    by (rule insert_at [OF R1(2) e1, where wh = wh, unfolded key, unfolded sel]) (rule that)
  let ?st' = "upd_event e (\<lambda>x. x\<lparr>ev_flags := set_flag (clear (ev_flags x) Squashed) Scheduled\<rparr>)
                (?st1\<lparr>eq_mem := m', eq_head := h\<rparr>)"
  have "reschedule e wh always st = Inr ?st'"
    using R1(1) R(1) e wh inv by (simp add: reschedule_def eq_inv_def)
  moreover have "eq_inv ?st' (insort_key (key_at st e wh) e (remove1 e q))"
    using queue_of_flags [OF R(2)] inv e(2) wh q(3)
    by (auto simp: eq_inv_def R links_onlyD [OF R1(3)] scheduled_def initialized_def set_insort_key)
  ultimately show thesis by (intro that [of ?st']) simp_all
qed

lemma squash_inv: "eq_inv st q \<Longrightarrow> eq_inv (upd_event e squash st) q"
proof -
  assume inv: "eq_inv st q"
  then have "queue_of (upd_event e squash st) q"
    using queue_of_flags [of st q e "\<lambda>x. set_flag (ev_flags x) Squashed"]
    by (simp add: eq_inv_def squash_def upd_event_def)
  then show ?thesis using inv by (auto simp: eq_inv_def squash_def scheduled_def initialized_def)
qed

lemma unsquash_inv:
  "eq_inv st q \<Longrightarrow> eq_inv (upd_event e (\<lambda>x. x\<lparr>ev_flags := clear (ev_flags x) Squashed\<rparr>) st) q"
  by (auto simp: eq_inv_def queue_of_flags scheduled_def initialized_def)

lemma release_inv: "eq_inv st q \<Longrightarrow> eq_inv (release e st) q" "eq_curTick (release e st) = eq_curTick st"
  by (auto simp: release_def eq_inv_def queue_of_def eq_bins_def)

lemma pop_head_inv:
  assumes "eq_inv st (x # q)"
  shows "eq_inv (pop_head x st) q" "eq_inv (setCurTick (ev_when (eq_mem st x)) (pop_head x st)) q"
proof -
  have Q: "queue_of st (x # q)" using assms by (simp add: eq_inv_def)
  note P = pop_head_queue [OF Q]
  have d: "x \<notin> set q" using queue_of_distinct [OF Q] by simp
  have sch: "scheduled (eq_mem (pop_head x st) y) \<longleftrightarrow> y \<in> set q" for y
    using assms d by (auto simp: scheduled_def P(5) eq_inv_def)
  have ini: "initialized (eq_mem (pop_head x st) y)" if "y \<in> set q" for y
    using assms that by (auto simp: initialized_def P(5) eq_inv_def)
  have first: "ev_when (eq_mem st x) \<le> ev_when (eq_mem st y)" if "y \<in> set q" for y
    using queue_of_sorted [OF Q] that by (auto simp: evkey_def less_eq_prod_def)
  show "eq_inv (pop_head x st) q"
    using assms sch ini by (auto simp: eq_inv_def P)
  show "eq_inv (setCurTick (ev_when (eq_mem st x)) (pop_head x st)) q"
    using assms sch ini first queue_of_cong [OF P(1)]
    by (auto simp: eq_inv_def setCurTick_def P)
qed

section \<open>Runs of the queue\<close>

text \<open>The steps of a single-threaded simulation: the calls a simulation object can make, and the
  service of the first event, after which the event's own handler makes further calls.\<close>

inductive eq_step :: "EventQ \<Rightarrow> EventQ \<Rightarrow> bool" where
  sched: "schedule e wh g st = Inr st' \<Longrightarrow> eq_step st st'"
| desched: "deschedule e st = Inr st' \<Longrightarrow> eq_step st st'"
| resched: "reschedule e wh always st = Inr st' \<Longrightarrow> eq_step st st'"
| squash: "eq_step st (upd_event e squash st)"
| serve: "eq_head st = Some e \<Longrightarrow> \<not> squashed (eq_mem st e) \<Longrightarrow>
    eq_step st (setCurTick (ev_when (eq_mem st e)) (pop_head e st))"
| skip: "eq_head st = Some e \<Longrightarrow> squashed (eq_mem st e) \<Longrightarrow>
    eq_step st (upd_event e (\<lambda>x. x\<lparr>ev_flags := clear (ev_flags x) Squashed\<rparr>) (pop_head e st))"
| free: "eq_step st (release e st)"

inductive_cases eq_stepE: "eq_step st st'"

lemma eq_inv_head: "eq_inv st q \<Longrightarrow> eq_head st = Some e \<Longrightarrow> q = e # tl q"
  using queue_of_head [of st q] by (auto simp: eq_inv_def split: list.splits)

lemma eq_step_inv:
  assumes "eq_step st st'" "eq_inv st q"
  shows "(\<exists>q'. eq_inv st' q') \<and> eq_curTick st \<le> eq_curTick st'"
  using assms
proof (cases rule: eq_step.cases)
  case (sched e wh g)
  then have "\<not> scheduled (eq_mem st e)" "initialized (eq_mem st e)" "eq_curTick st \<le> wh"
    by (auto simp: schedule_def bindR_Inr_iff)
  with schedule_inv [OF assms(2) this] obtain s q' where
    "schedule e wh g st = Inr s" "eq_inv s q'" "eq_curTick s = eq_curTick st" by metis
  with sched show ?thesis by auto
next
  case (desched e)
  then have "scheduled (eq_mem st e)" by (auto simp: deschedule_def bindR_Inr_iff)
  with deschedule_inv [OF assms(2) this] obtain s q' where
    "deschedule e st = Inr s" "eq_inv s q'" "eq_curTick s = eq_curTick st" by metis
  with desched show ?thesis by auto
next
  case (resched e wh always)
  then have "always \<or> scheduled (eq_mem st e)" "initialized (eq_mem st e)" "eq_curTick st \<le> wh"
    by (auto simp: reschedule_def bindR_Inr_iff)
  with reschedule_inv [OF assms(2) this] obtain s q' where
    "reschedule e wh always st = Inr s" "eq_inv s q'" "eq_curTick s = eq_curTick st" by metis
  with resched show ?thesis by auto
next
  case (squash e)
  then show ?thesis using squash_inv [OF assms(2)] by auto
next
  case (serve e)
  then have q: "eq_inv st (e # tl q)" using eq_inv_head [OF assms(2)] assms(2) by simp
  then have "eq_curTick st \<le> ev_when (eq_mem st e)" by (simp add: eq_inv_def)
  then show ?thesis using serve pop_head_inv(2) [OF q] by (auto simp: setCurTick_def)
next
  case (skip e)
  then have q: "eq_inv st (e # tl q)" using eq_inv_head [OF assms(2)] assms(2) by simp
  then have "queue_of st (e # tl q)" by (simp add: eq_inv_def)
  then have "eq_curTick (pop_head e st) = eq_curTick st" by (rule pop_head_queue(6))
  then show ?thesis using skip unsquash_inv [OF pop_head_inv(1) [OF q]] by auto
next
  case (free e)
  then show ?thesis using release_inv assms(2) by auto
qed

lemma eq_steps_inv:
  assumes "eq_step\<^sup>*\<^sup>* st st'" "eq_inv st q"
  shows "(\<exists>q'. eq_inv st' q') \<and> eq_curTick st \<le> eq_curTick st'"
  using assms
proof (induction rule: rtranclp_induct)
  case (step y z)
  then obtain q' where "eq_inv y q'" "eq_curTick st \<le> eq_curTick y" by blast
  with eq_step_inv [OF step(2)] show ?case by (meson order_trans)
qed auto

section \<open>The queue as a sorted list\<close>

text \<open>What a client may rely on: the contents are a sorted list without repetition, insertion puts an
  event before those of its own time and priority, removal takes out one event.\<close>

locale sorted_event_queue =
  fixes contents :: "'s \<Rightarrow> 'e list \<Rightarrow> bool"
    and key :: "'s \<Rightarrow> 'e \<Rightarrow> 'k::linorder"
    and owned :: "'s \<Rightarrow> 'e \<Rightarrow> bool"
    and ins :: "'e \<Rightarrow> 's \<Rightarrow> 's result"
    and del :: "'e \<Rightarrow> 's \<Rightarrow> 's result"
  assumes contents_sorted: "contents s q \<Longrightarrow> sorted (map (key s) q)"
    and contents_distinct: "contents s q \<Longrightarrow> distinct q"
    and ins_law: "contents s q \<Longrightarrow> e \<notin> set q \<Longrightarrow>
      \<exists>s'. ins e s = Inr s' \<and> contents s' (insort_key (key s) e q) \<and> key s' = key s \<and> owned s' = owned s"
    and del_law: "contents s q \<Longrightarrow> e \<in> set q \<Longrightarrow> owned s e \<Longrightarrow>
      \<exists>s'. del e s = Inr s' \<and> contents s' (remove1 e q) \<and> key s' = key s \<and> owned s' = owned s"
begin

lemma ins_then_del:
  assumes "contents s q" "e \<notin> set q" "owned s e"
  shows "\<exists>s' s''. ins e s = Inr s' \<and> del e s' = Inr s'' \<and> contents s'' q"
proof -
  obtain s' where s': "ins e s = Inr s'" "contents s' (insort_key (key s) e q)" "owned s' e"
    using ins_law [OF assms(1,2)] assms(3) by auto
  then obtain s'' where "del e s' = Inr s''" "contents s'' (remove1 e (insort_key (key s) e q))"
    using del_law [OF s'(2) _ s'(3)] by (auto simp: set_insort_key)
  with s' show ?thesis by (auto simp: remove1_insort_key)
qed

lemma ins_all:
  assumes "contents s q" "distinct es" "set es \<inter> set q = {}"
  shows "\<exists>s'. foldR ins es s = Inr s' \<and> contents s' (fold (insort_key (key s)) es q) \<and> key s' = key s"
  using assms
proof (induction es arbitrary: s q)
  case (Cons e es)
  then obtain s1 where s1: "ins e s = Inr s1" "contents s1 (insort_key (key s) e q)" "key s1 = key s"
    using ins_law [of s q e] by auto
  have "set es \<inter> set (insort_key (key s) e q) = {}"
    using Cons.prems by (auto simp: set_insort_key)
  with Cons.IH [OF s1(2)] Cons.prems(2) s1 show ?case by auto
qed auto

lemma first_is_least: "contents s (x # q) \<Longrightarrow> y \<in> set q \<Longrightarrow> key s x \<le> key s y"
  using contents_sorted by fastforce

end

interpretation evq: sorted_event_queue queue_of "\<lambda>st. evkey (eq_mem st)"
  "\<lambda>st e. ev_queue (eq_mem st e) = Some (eq_self st)" eq_insert eq_remove
proof
  fix st q e
  assume q: "queue_of st q"
  show "sorted (map (evkey (eq_mem st)) q)" "distinct q"
    using q by (rule queue_of_sorted, rule queue_of_distinct)
  show "\<exists>s'. eq_insert e st = Inr s' \<and> queue_of s' (insort_key (evkey (eq_mem st)) e q) \<and>
      evkey (eq_mem s') = evkey (eq_mem st) \<and>
      (\<lambda>x. ev_queue (eq_mem s' x) = Some (eq_self s')) = (\<lambda>x. ev_queue (eq_mem st x) = Some (eq_self st))"
    if e: "e \<notin> set q"
  proof (rule eq_insert_queue [OF q e])
    fix m' h
    assume "eq_insert e st = Inr (st\<lparr>eq_mem := m', eq_head := h\<rparr>)"
      "queue_of (st\<lparr>eq_mem := m', eq_head := h\<rparr>) (insort_key (evkey (eq_mem st)) e q)"
      "links_only (eq_mem st) m'"
    then show ?thesis
      by (intro exI [of _ "st\<lparr>eq_mem := m', eq_head := h\<rparr>"]) (simp add: links_onlyD)
  qed
  show "\<exists>s'. eq_remove e st = Inr s' \<and> queue_of s' (remove1 e q) \<and>
      evkey (eq_mem s') = evkey (eq_mem st) \<and>
      (\<lambda>x. ev_queue (eq_mem s' x) = Some (eq_self s')) = (\<lambda>x. ev_queue (eq_mem st x) = Some (eq_self st))"
    if e: "e \<in> set q" "ev_queue (eq_mem st e) = Some (eq_self st)"
  proof (rule eq_remove_queue [OF q e])
    fix m' h
    assume "eq_remove e st = Inr (st\<lparr>eq_mem := m', eq_head := h\<rparr>)"
      "queue_of (st\<lparr>eq_mem := m', eq_head := h\<rparr>) (remove1 e q)" "links_only (eq_mem st) m'"
    then show ?thesis
      by (intro exI [of _ "st\<lparr>eq_mem := m', eq_head := h\<rparr>"]) (simp add: links_onlyD)
  qed
qed

lemma eq_insert_async:
  "eq_insert e (st\<lparr>eq_async := a\<rparr>) = bindR (eq_insert e st) (\<lambda>s. Inr (s\<lparr>eq_async := a\<rparr>))"
  by (auto simp: eq_insert_def Let_def bindR_def split: option.splits sum.splits prod.splits)

lemma foldR_insert_async:
  "foldR eq_insert es (st\<lparr>eq_async := a\<rparr>) = bindR (foldR eq_insert es st) (\<lambda>s. Inr (s\<lparr>eq_async := a\<rparr>))"
  by (induction es arbitrary: st) (auto simp: eq_insert_async bindR_def split: sum.splits)

lemma async_loop_foldR:
  "async_loop es st = bindR (foldR eq_insert es st) (\<lambda>s. Inr (if es = [] then s else s\<lparr>eq_async := []\<rparr>))"
  by (induction es arbitrary: st) (auto simp: foldR_insert_async bindR_def split: sum.splits)

section \<open>Serving\<close>

definition uses_api :: "handler \<Rightarrow> bool" where
  "uses_api process \<longleftrightarrow> (\<forall>e st st'. process e st = Inr st' \<longrightarrow> eq_step\<^sup>*\<^sup>* st st')"

lemma serviceOne_steps:
  assumes "uses_api process" "serviceOne process st = Inr (st', r)"
    and "eq_head st = Some e" "squashed (eq_mem (pop_head e st) e) = squashed (eq_mem st e)"
    and "ev_when (eq_mem (pop_head e st) e) = ev_when (eq_mem st e)"
  shows "eq_step\<^sup>*\<^sup>* st st'"
proof (cases "squashed (eq_mem st e)")
  case True
  then have "eq_step st (upd_event e (\<lambda>x. x\<lparr>ev_flags := clear (ev_flags x) Squashed\<rparr>) (pop_head e st))"
    using assms(3) by (intro eq_step.skip)
  moreover have "st' = release e (upd_event e (\<lambda>x. x\<lparr>ev_flags := clear (ev_flags x) Squashed\<rparr>) (pop_head e st))"
    using assms(2-4) True by (simp add: serviceOne_def Let_def)
  ultimately show ?thesis
    by (auto intro: converse_rtranclp_into_rtranclp r_into_rtranclp eq_step.free)
next
  case False
  then have first: "eq_step st (setCurTick (ev_when (eq_mem st e)) (pop_head e st))"
    using assms(3) by (intro eq_step.serve)
  obtain st2 where st2: "process e (setCurTick (ev_when (eq_mem st e)) (pop_head e st)) = Inr st2"
      "st' = st2 \<or> st' = release e st2"
    using assms(2-5) False by (auto simp: serviceOne_def Let_def bindR_Inr_iff split: if_splits)
  have "eq_step\<^sup>*\<^sup>* (setCurTick (ev_when (eq_mem st e)) (pop_head e st)) st2"
    using assms(1) st2(1) by (auto simp: uses_api_def)
  moreover have "eq_step\<^sup>*\<^sup>* st2 st'" using st2(2)
  proof
    assume "st' = release e st2"
    then show ?thesis using eq_step.free [of st2 e] by simp
  qed simp
  ultimately have "eq_step\<^sup>*\<^sup>* (setCurTick (ev_when (eq_mem st e)) (pop_head e st)) st'"
    by (rule rtranclp_trans)
  with first show ?thesis by (rule converse_rtranclp_into_rtranclp)
qed

lemma pop_head_same:
  assumes "eq_inv st q" "eq_head st = Some e"
  shows "squashed (eq_mem (pop_head e st) e) = squashed (eq_mem st e)"
    "ev_when (eq_mem (pop_head e st) e) = ev_when (eq_mem st e)"
proof -
  have "queue_of st (e # tl q)" using eq_inv_head [OF assms] assms(1) by (simp add: eq_inv_def)
  note P = pop_head_queue [OF this]
  show "squashed (eq_mem (pop_head e st) e) = squashed (eq_mem st e)"
    "ev_when (eq_mem (pop_head e st) e) = ev_when (eq_mem st e)"
    by (simp_all add: squashed_def P)
qed

lemma serviceOne_inv:
  assumes "uses_api process" "serviceOne process st = Inr (st', r)" "eq_inv st q"
  shows "(\<exists>q'. eq_inv st' q') \<and> eq_curTick st \<le> eq_curTick st'"
proof -
  obtain e where "eq_head st = Some e"
    using assms(2) by (cases "eq_head st") (auto simp: serviceOne_def)
  then have "eq_step\<^sup>*\<^sup>* st st'"
    using serviceOne_steps [OF assms(1,2)] pop_head_same [OF assms(3)] by simp
  then show ?thesis using eq_steps_inv assms(3) by blast
qed

text \<open>A handler that leaves the simulator's state alone, and one round of the loop under it.\<close>

definition idle :: handler where
  "idle e st = Inr st"

lemma serviceOne_idle:
  assumes inv: "eq_inv st (y # q)" and m: "isExitEvent (eq_mem st y) \<longrightarrow> \<not> isManaged (eq_mem st y)"
  obtains st' where
    "serviceOne idle st =
       Inr (st', if squashed (eq_mem st y) \<or> \<not> isExitEvent (eq_mem st y) then None else Some y)"
    "eq_inv st' q" "\<And>z. z \<noteq> y \<Longrightarrow> ev_flags (eq_mem st' z) = ev_flags (eq_mem st z)"
    "\<And>z. ev_when (eq_mem st' z) = ev_when (eq_mem st z)"
    "\<not> squashed (eq_mem st y) \<Longrightarrow> eq_curTick st' = ev_when (eq_mem st y)"
proof -
  have Q: "queue_of st (y # q)" and head: "eq_head st = Some y"
    using inv queue_of_head [of st "y # q"] by (auto simp: eq_inv_def)
  note P = pop_head_queue [OF Q] and I = pop_head_inv [OF inv]
  have flags: "squashed (eq_mem (pop_head y st) y) = squashed (eq_mem st y)"
    "isExitEvent (eq_mem (pop_head y st) y) = isExitEvent (eq_mem st y)"
    "isManaged (eq_mem (pop_head y st) y) = isManaged (eq_mem st y)"
    by (simp_all add: squashed_def isExitEvent_def isManaged_def P)
  let ?sk = "upd_event y (\<lambda>e. e\<lparr>ev_flags := clear (ev_flags e) Squashed\<rparr>) (pop_head y st)"
  let ?sv = "setCurTick (ev_when (eq_mem st y)) (pop_head y st)"
  have rel: "eq_mem (release y s) = eq_mem s" for s by (simp add: release_def)
  consider "squashed (eq_mem st y)" | "\<not> squashed (eq_mem st y)" "\<not> isExitEvent (eq_mem st y)"
    | "\<not> squashed (eq_mem st y)" "isExitEvent (eq_mem st y)" by blast
  then show thesis
  proof cases
    case 1
    then have "serviceOne idle st = Inr (release y ?sk, None)"
      using head flags by (simp add: serviceOne_def)
    then show thesis using 1 release_inv(1) [OF unsquash_inv [OF I(1)]]
      by (intro that [of "release y ?sk"]) (auto simp: rel P)
  next
    case 2
    then have "serviceOne idle st = Inr (release y ?sv, None)"
      using head flags by (simp add: serviceOne_def idle_def P setCurTick_def)
    then show thesis using 2 release_inv(1) [OF I(2)] release_inv(2)
      by (intro that [of "release y ?sv"]) (auto simp: rel P setCurTick_def)
  next
    case 3
    then have "serviceOne idle st = Inr (?sv, Some y)"
      using head flags m by (simp add: serviceOne_def idle_def P setCurTick_def isManaged_def)
    then show thesis using 3 I(2) by (intro that [of ?sv]) (auto simp: P setCurTick_def)
  qed
qed

lemma sim_loop_idle:
  assumes "eq_inv st (xs @ x # ys)"
    and "\<forall>y \<in> set xs. squashed (eq_mem st y) \<or> \<not> isExitEvent (eq_mem st y)"
    and "\<forall>y \<in> set (x # xs). isExitEvent (eq_mem st y) \<longrightarrow> \<not> isManaged (eq_mem st y)"
    and "isExitEvent (eq_mem st x)" "\<not> squashed (eq_mem st x)"
  shows "\<exists>st'. sim_loop idle st = Some (Inr (st', x)) \<and> eq_inv st' ys \<and>
           eq_curTick st' = ev_when (eq_mem st x)"
  using assms
proof (induction xs arbitrary: st)
  case Nil
  then have head: "eq_head st = Some x" "eq_curTick st \<le> ev_when (eq_mem st x)"
    using queue_of_head [of st "x # ys"] by (auto simp: eq_inv_def)
  obtain st' where "serviceOne idle st = Inr (st', Some x)" "eq_inv st' ys"
    "eq_curTick st' = ev_when (eq_mem st x)"
  proof (rule serviceOne_idle [of st x ys])
    show "eq_inv st (x # ys)" "isExitEvent (eq_mem st x) \<longrightarrow> \<not> isManaged (eq_mem st x)"
      using Nil by auto
  qed (use Nil.prems(4,5) that in auto)
  with head show ?case by (subst sim_loop.simps) simp
next
  case (Cons y xs)
  then have inv: "eq_inv st (y # xs @ x # ys)" by simp
  then have head: "eq_head st = Some y" "eq_curTick st \<le> ev_when (eq_mem st y)"
    and d: "y \<noteq> x" "y \<notin> set xs"
    using queue_of_head [of st "y # xs @ x # ys"] queue_of_distinct [of st "y # xs @ x # ys"]
    by (auto simp: eq_inv_def)
  obtain st1 where s1: "serviceOne idle st = Inr (st1, None)" "eq_inv st1 (xs @ x # ys)"
    "\<And>z. z \<noteq> y \<Longrightarrow> ev_flags (eq_mem st1 z) = ev_flags (eq_mem st z)"
    "\<And>z. ev_when (eq_mem st1 z) = ev_when (eq_mem st z)"
  proof (rule serviceOne_idle [OF inv])
    show "isExitEvent (eq_mem st y) \<longrightarrow> \<not> isManaged (eq_mem st y)" using Cons.prems(3) by simp
  qed (use Cons.prems(2) that in auto)
  have "z \<in> set (x # xs) \<Longrightarrow> ev_flags (eq_mem st1 z) = ev_flags (eq_mem st z)" for z
    using s1(3) d by (cases "z = y") auto
  then have "\<exists>st'. sim_loop idle st1 = Some (Inr (st', x)) \<and> eq_inv st' ys \<and>
      eq_curTick st' = ev_when (eq_mem st1 x)"
    using Cons.prems by (intro Cons.IH [OF s1(2)]) (auto simp: squashed_def isExitEvent_def isManaged_def)
  with head s1(1,4) show ?case by (subst sim_loop.simps) simp
qed

section \<open>The self check\<close>

lemma verify_in_bin_ok:
  assumes "chain m p xs" "\<forall>x \<in> set xs. evkey m x = k" "(t, pr) \<le> k" "distinct xs" "set xs \<inter> set seen = {}"
  shows "verify_in_bin m p t pr seen =
           Some (Some (if xs = [] then (t, pr, seen) else (fst k, snd k, rev xs @ seen)))"
  using assms
proof (induction xs arbitrary: p t pr seen)
  case (Cons x xs)
  have k: "k = (ev_when (m x), ev_priority (m x))" using Cons.prems(2) by (simp add: evkey_def)
  have "verify_in_bin m (nextInBin (m x)) (fst k) (snd k) (x # seen) =
      Some (Some (if xs = [] then (fst k, snd k, x # seen) else (fst k, snd k, rev xs @ x # seen)))"
    using Cons.prems by (intro Cons.IH) auto
  then show ?case
    using Cons.prems k by (subst verify_in_bin.simps) (auto simp: less_eq_prod_def)
qed (simp add: verify_in_bin.simps)

lemma verify_bins_ok:
  assumes "bins_rep m p bs" "bins_ok (evkey m) bs" "distinct (concat bs)"
    "\<forall>x \<in> set (concat bs). (t, pr) \<le> evkey m x" "set (concat bs) \<inter> set seen = {}"
  shows "verify_bins m p t pr seen = Some True"
  using assms
proof (induction bs arbitrary: p t pr seen)
  case (Cons b bs)
  then obtain y ys where b: "b = y # ys" by (cases b) auto
  define k where "k = evkey m y"
  have p: "p = Some y" using Cons.prems(1) b by simp
  have ys: "\<forall>x \<in> set (y # ys). evkey m x = k" "\<forall>x \<in> set (concat bs). k < evkey m x"
    using Cons.prems(2) b by (auto simp: k_def simp del: set_concat)
  have "(t, pr) \<le> k" using Cons.prems(4) b by (simp add: k_def)
  then have "verify_in_bin m p t pr seen = Some (Some (fst k, snd k, rev (y # ys) @ seen))"
    using Cons.prems(1,3,5) b ys(1) by (subst verify_in_bin_ok [of m p "y # ys" k]) auto
  moreover have "verify_bins m (nextBin (m y)) (fst k) (snd k) (rev (y # ys) @ seen) = Some True"
  proof (rule Cons.IH)
    show "\<forall>x \<in> set (concat bs). (fst k, snd k) \<le> evkey m x" using ys(2) by (auto simp: less_imp_le)
  qed (use Cons.prems b in auto)
  ultimately show ?case using p by (subst verify_bins.simps) simp
qed (simp add: verify_bins.simps)

section \<open>Properties\<close>

lemma new_queue_inv: "\<forall>e. \<not> scheduled (m e) \<Longrightarrow> eq_inv (EventQueue_new n m) []"
  by (auto simp: eq_inv_def queue_of_def eq_bins_def EventQueue_new_def intro!: exI [of _ "[]"])

text \<open>C1: Safety of every run of a queue. From a new queue and whatever sequence of \<open>schedule\<close>,
  \<open>deschedule\<close>, \<open>reschedule\<close>, \<open>squash\<close> and service of events, the first event of the queue is never
  in the past and no scheduled event has an earlier time, or an equal time and a smaller priority.\<close>

theorem event_queue_safe:
  assumes "\<forall>e. \<not> scheduled (m e)" "eq_step\<^sup>*\<^sup>* (EventQueue_new n m) st" "eq_head st = Some h"
  shows "eq_curTick st \<le> ev_when (eq_mem st h) \<and>
         (\<forall>e. scheduled (eq_mem st e) \<longrightarrow> \<not> event_less (eq_mem st e) (eq_mem st h))"
proof -
  obtain q where inv: "eq_inv st q"
    using eq_steps_inv [OF assms(2) new_queue_inv [OF assms(1)]] by blast
  then obtain t where q: "q = h # t" using eq_inv_head [OF inv assms(3)] by blast
  then have "queue_of st (h # t)" using inv by (simp add: eq_inv_def)
  then have "evkey (eq_mem st) h \<le> evkey (eq_mem st) e" if "scheduled (eq_mem st e)" for e
    using that inv q evq.first_is_least [of st h t e] by (auto simp: eq_inv_def)
  moreover have "eq_curTick st \<le> ev_when (eq_mem st h)" using inv q by (simp add: eq_inv_def)
  ultimately show ?thesis by (auto simp: not_less)
qed

text \<open>C22: Simulated time never runs backwards: serving an event through \<open>serviceOne\<close>, whose handler may
  itself make any calls on the queue, keeps the queue's invariant and does not lower the current tick.\<close>

theorem serviceOne_time_monotone:
  assumes "uses_api process" "eq_inv st q" "serviceOne process st = Inr (st', r)"
  shows "(\<exists>q'. eq_inv st' q') \<and> eq_curTick st \<le> eq_curTick st'"
  using serviceOne_inv assms by blast

text \<open>C2: \<open>schedule\<close> refines insertion into a sorted list: on a queue with contents \<open>q\<close> it succeeds for an
  unscheduled, initialised event and a time not in the past, and the new contents are \<open>q\<close> with the
  event inserted before all events of the same time and priority (last in, first out in a bin).\<close>

theorem schedule_refines_insort:
  assumes "eq_inv st q" "\<not> scheduled (eq_mem st e)" "initialized (eq_mem st e)" "eq_curTick st \<le> wh"
  shows "\<exists>st'. schedule e wh g st = Inr st' \<and> eq_curTick st' = eq_curTick st \<and>
           eq_inv st' (insort_key (\<lambda>x. if x = e then (wh, ev_priority (eq_mem st e))
                                        else (ev_when (eq_mem st x), ev_priority (eq_mem st x))) e q)"
proof -
  have "key_at st e wh = (\<lambda>x. if x = e then (wh, ev_priority (eq_mem st e))
          else (ev_when (eq_mem st x), ev_priority (eq_mem st x)))"
    by (auto simp: evkey_def)
  with schedule_inv [OF assms] show ?thesis by metis
qed


text \<open>C24: The asynchronous insertions another thread queued all reach the queue: the queue then holds the
  old contents with each of them inserted in turn, and the asynchronous list is empty.\<close>

theorem handleAsyncInsertions_merges:
  assumes "queue_of st q" "eq_current st" "distinct (eq_async st)" "set (eq_async st) \<inter> set q = {}"
  shows "\<exists>st'. handleAsyncInsertions st = Inr st' \<and> eq_async st' = [] \<and>
           queue_of st' (fold (insort_key (evkey (eq_mem st))) (eq_async st) q)"
proof -
  obtain s where s: "foldR eq_insert (eq_async st) st = Inr s"
    "queue_of s (fold (insort_key (evkey (eq_mem st))) (eq_async st) q)"
    using evq.ins_all [OF assms(1,3,4)] by blast
  then have "queue_of (s\<lparr>eq_async := []\<rparr>) (fold (insort_key (evkey (eq_mem st))) (eq_async st) q)"
    by (simp add: queue_of_def eq_bins_def)
  with s assms(2) show ?thesis by (auto simp: handleAsyncInsertions_def async_loop_foldR)
qed


text \<open>The self check \<open>debugVerify\<close> accepts every well-formed queue without events of negative
  priority at tick 0, and it returns.\<close>

theorem debugVerify_accepts:
  assumes "queue_of st q" "\<forall>e \<in> set q. ev_when (eq_mem st e) > 0 \<or> ev_priority (eq_mem st e) \<ge> 0"
  shows "debugVerify st = Some True"
proof -
  obtain bs where bs: "eq_bins st bs" "q = concat bs" using assms(1) by (auto simp: queue_of_def)
  moreover have "\<forall>e \<in> set q. (0, 0) \<le> evkey (eq_mem st) e"
    using assms(2) by (auto simp: evkey_def less_eq_prod_def)
  ultimately show ?thesis
    unfolding debugVerify_def eq_bins_def by (intro verify_bins_ok [of _ _ bs]) auto
qed

text \<open>The exception is real: the check starts from time 0 and priority 0, so it reports an inverted
  priority on a queue with a single event of priority -1 at tick 0. And an event that was scheduled and
  not squashed when it was saved is not put back by \<open>checkpointReschedule\<close> after \<open>unserialize\<close>, which
  clears the flag the former looks at.\<close>

definition demo_events :: estore where
  "demo_events x = \<lparr>nextBin = None, nextInBin = None, ev_when = 0,
     ev_priority = (if x = 2 then - 1 else 0),
     ev_flags = (if x = 1 then Initialized OR IsExitEvent else Initialized), ev_queue = None\<rparr>"

lemma debugVerify_rejects_tick0:
  "debugVerify (projr (schedule 2 0 False (EventQueue_new 7 demo_events))) = Some False"
  by code_simp

lemma checkpoint_drops_event:
  assumes "isSet fl Scheduled" "\<not> isSet fl Squashed" "event_unserialize (wh, pri, fl) e = Inr e'"
    "eq_mem st p = e'"
  shows "checkpointReschedule p st = Inr st"
proof -
  have "\<not> bit Initialized 0" "\<not> bit Initialized 1" by (code_simp)+
  then have f: "bit (set_flag fl Initialized) 1" "\<not> bit (set_flag fl Initialized) 0"
    using assms(1,2) by (auto simp: set_flag_def bit_or_iff simp flip: One_nat_def)
  have "ev_flags e' = clear (set_flag fl Initialized) (Squashed OR Scheduled)"
    using assms(3) f by (auto simp: event_unserialize_def bindR_Inr_iff Let_def)
  then have "\<not> isSet (ev_flags e') Scheduled"
    by (simp add: clear_def bit_and_iff bit_not_iff bit_or_iff bit_flag_consts)
  then show ?thesis using assms(4) by (simp add: checkpointReschedule_def)
qed

section \<open>Witnesses\<close>

definition demo1 :: EventQ where
  "demo1 = projr (schedule 0 10 False (EventQueue_new 7 demo_events))"

definition demo_queue :: EventQ where
  "demo_queue = projr (schedule 1 20 False demo1)"

definition again :: handler where
  "again e st = reschedule e 30 True st"

lemma again_api: "uses_api again"
  by (auto simp: uses_api_def again_def intro: r_into_rtranclp eq_step.resched)

lemma demo_unscheduled: "\<not> scheduled (demo_events e)"
proof -
  have "\<not> bit Initialized 1" "\<not> bit (Initialized OR IsExitEvent) 1" by code_simp+
  then show ?thesis by (simp add: scheduled_def demo_events_def)
qed

lemma demo1_inv:
  "schedule 0 10 False (EventQueue_new 7 demo_events) = Inr demo1" "eq_inv demo1 [0]"
proof -
  have "initialized (eq_mem (EventQueue_new 7 demo_events) 0)"
    "eq_curTick (EventQueue_new 7 demo_events) \<le> 10" by code_simp+
  moreover have "\<not> scheduled (eq_mem (EventQueue_new 7 demo_events) 0)"
    using demo_unscheduled by (simp add: EventQueue_new_def)
  ultimately obtain st' where "schedule 0 10 False (EventQueue_new 7 demo_events) = Inr st'" "eq_inv st' [0]"
    using schedule_inv [OF new_queue_inv, of demo_events 7 0 10] demo_unscheduled by simp metis
  then show "schedule 0 10 False (EventQueue_new 7 demo_events) = Inr demo1" "eq_inv demo1 [0]"
    by (simp_all add: demo1_def)
qed

lemma demo_inv: "schedule 1 20 False demo1 = Inr demo_queue" "eq_inv demo_queue [0, 1]"
proof -
  have "\<not> scheduled (eq_mem demo1 1)" "initialized (eq_mem demo1 1)" "eq_curTick demo1 \<le> 20"
    and less: "\<not> (20, ev_priority (eq_mem demo1 1)) \<le> evkey (eq_mem demo1) 0"
    by code_simp+
  then obtain st' where "schedule 1 20 False demo1 = Inr st'"
    "eq_inv st' (insort_key (key_at demo1 1 20) 1 [0])"
    using schedule_inv [OF demo1_inv(2), of 1 20] by metis
  with less show "schedule 1 20 False demo1 = Inr demo_queue" "eq_inv demo_queue [0, 1]"
    by (simp_all add: demo_queue_def)
qed

lemma demo_run: "eq_step\<^sup>*\<^sup>* (EventQueue_new 7 demo_events) demo_queue"
  using eq_step.sched [OF demo1_inv(1)] eq_step.sched [OF demo_inv(1)] by (meson rtranclp.simps)

lemma demo_contents: "queue_of demo_queue [0, 1]"
  using demo_inv(2) by (simp add: eq_inv_def)

theorem event_queue_safe_witness:
  "eq_curTick demo_queue \<le> ev_when (eq_mem demo_queue 0) \<and> scheduled (eq_mem demo_queue 1) \<and>
   \<not> event_less (eq_mem demo_queue 1) (eq_mem demo_queue 0)"
proof -
  have "eq_head demo_queue = Some 0" "scheduled (eq_mem demo_queue 1)" by code_simp+
  then show ?thesis using event_queue_safe [OF _ demo_run, of 0] demo_unscheduled by blast
qed

theorem serviceOne_time_monotone_witness:
  "\<exists>st' r. serviceOne again demo_queue = Inr (st', r) \<and> (\<exists>q'. eq_inv st' q') \<and>
     eq_curTick demo_queue \<le> eq_curTick st'"
proof -
  have "\<not> isl (serviceOne again demo_queue)" by code_simp
  then obtain st' r where "serviceOne again demo_queue = Inr (st', r)"
    by (cases "serviceOne again demo_queue") auto
  with serviceOne_time_monotone [OF again_api demo_inv(2) this] show ?thesis by blast
qed

theorem schedule_refines_insort_witness:
  "\<exists>st'. schedule 2 15 False demo_queue = Inr st' \<and> eq_curTick st' = eq_curTick demo_queue \<and>
     eq_inv st' (insort_key (\<lambda>x. if x = 2 then (15, ev_priority (eq_mem demo_queue 2))
        else (ev_when (eq_mem demo_queue x), ev_priority (eq_mem demo_queue x))) 2 [0, 1])"
proof (rule schedule_refines_insort [OF demo_inv(2)])
  show "\<not> scheduled (eq_mem demo_queue 2)" "initialized (eq_mem demo_queue 2)" by code_simp+
  show "eq_curTick demo_queue \<le> 15" by code_simp
qed


theorem handleAsyncInsertions_merges_witness:
  "\<exists>st'. handleAsyncInsertions (demo_queue\<lparr>eq_async := [5, 6]\<rparr>) = Inr st' \<and> eq_async st' = [] \<and>
     queue_of st' (fold (insort_key (evkey (eq_mem (demo_queue\<lparr>eq_async := [5, 6]\<rparr>))))
                     (eq_async (demo_queue\<lparr>eq_async := [5, 6]\<rparr>)) [0, 1])"
proof (rule handleAsyncInsertions_merges)
  show "queue_of (demo_queue\<lparr>eq_async := [5, 6]\<rparr>) [0, 1]"
    by (rule queue_of_cong [OF demo_contents]) simp_all
  show "eq_current (demo_queue\<lparr>eq_async := [5, 6]\<rparr>)" by code_simp
qed simp_all


theorem debugVerify_accepts_witness: "debugVerify demo_queue = Some True"
proof (rule debugVerify_accepts [OF demo_contents])
  show "\<forall>e \<in> set [0, 1]. ev_when (eq_mem demo_queue e) > 0 \<or> ev_priority (eq_mem demo_queue e) \<ge> 0"
    by code_simp
qed

end
