(* ===== verification/Bitfield.thy ===== *)
theory Bitfield
  imports Prelude
begin

text \<open>
  \<open>base/bitfield.hh\<close> and \<open>base/intmath.hh\<close>: bit-field extraction and insertion, bit searches,
  alignment and integer logarithms on 64-bit values. The high end of a field is an integer, because
  callers pass -1 for an empty field; a shift amount is a natural number: C++ leaves a shift by a
  negative amount or by 64 and more undefined, and the callers modelled in this development pass
  amounts below 64 only. The operations get their characteristic bits in the
  collection \<open>bit_chars\<close>, on which every later proof about addresses rests.
\<close>

section \<open>Masks, extraction and insertion\<close>

definition mask64 :: "int \<Rightarrow> u64" where
  "mask64 nbits = (if nbits \<ge> 64 then - 1 else push_bit (nat nbits) 1 - 1)"

definition bits :: "u64 \<Rightarrow> int \<Rightarrow> nat \<Rightarrow> u64" where
  "bits val first lst =
     (let nbits = first - int lst + 1
      in drop_bit lst val AND mask64 nbits)"

definition bits_at :: "u64 \<Rightarrow> nat \<Rightarrow> u64" where
  "bits_at val b = bits val (int b) b"

definition mbits :: "u64 \<Rightarrow> int \<Rightarrow> int \<Rightarrow> u64" where
  "mbits val first lst = val AND (mask64 (first + 1) AND NOT (mask64 lst))"

definition mask_range :: "int \<Rightarrow> int \<Rightarrow> u64" where
  "mask_range first lst = mbits (- 1) first lst"

definition sext :: "nat \<Rightarrow> u64 \<Rightarrow> u64" where
  "sext N val =
     (let sign_bit = bits val (int N - 1) (N - 1)
      in if sign_bit \<noteq> 0 then val OR NOT (mask64 (int N)) else val)"

definition insertBits :: "u64 \<Rightarrow> int \<Rightarrow> nat \<Rightarrow> u64 \<Rightarrow> u64" where
  "insertBits val first lst bit_val =
     (let bmask = push_bit lst (mask64 (first - int lst + 1))
      in (push_bit lst bit_val AND bmask) OR (val AND NOT bmask))"

definition insertBits_at :: "u64 \<Rightarrow> nat \<Rightarrow> u64 \<Rightarrow> u64" where
  "insertBits_at val b bit_val = insertBits val (int b) b bit_val"

text \<open>\<open>replaceBits\<close> assigns to its reference argument: the model returns the new value.\<close>

definition replaceBits :: "u64 \<Rightarrow> int \<Rightarrow> nat \<Rightarrow> u64 \<Rightarrow> u64" where
  "replaceBits val first lst bit_val = insertBits val first lst bit_val"

definition replaceBits_at :: "u64 \<Rightarrow> nat \<Rightarrow> u64 \<Rightarrow> u64" where
  "replaceBits_at val b bit_val = insertBits val (int b) b bit_val"

section \<open>Bit searches and counts\<close>

text \<open>One line of \<open>findMsbSet\<close>, \<open>findLsbSet\<close> and \<open>floorLog2\<close>: a test guards
  \<open>pos += k; val >>= k\<close>.\<close>

definition shift_step :: "(u64 \<Rightarrow> bool) \<Rightarrow> nat \<Rightarrow> nat \<times> u64 \<Rightarrow> nat \<times> u64" where
  "shift_step test k st =
     (let (pos, val) = st in if test val then (pos + k, drop_bit k val) else (pos, val))"

definition findMsbSet :: "u64 \<Rightarrow> nat" where
  "findMsbSet val =
     (if val = 0 then 0
      else
        let st = (0, val);
            st = shift_step (\<lambda>v. bits v 63 32 \<noteq> 0) 32 st;
            st = shift_step (\<lambda>v. bits v 31 16 \<noteq> 0) 16 st;
            st = shift_step (\<lambda>v. bits v 15 8 \<noteq> 0) 8 st;
            st = shift_step (\<lambda>v. bits v 7 4 \<noteq> 0) 4 st;
            st = shift_step (\<lambda>v. bits v 3 2 \<noteq> 0) 2 st;
            (msb, val) = st
        in if bits val 1 1 \<noteq> 0 then msb + 1 else msb)"

definition findLsbSet :: "u64 \<Rightarrow> nat" where
  "findLsbSet val =
     (if val = 0 then 64
      else
        let st = (0, val);
            st = shift_step (\<lambda>v. bits v 31 0 = 0) 32 st;
            st = shift_step (\<lambda>v. bits v 15 0 = 0) 16 st;
            st = shift_step (\<lambda>v. bits v 7 0 = 0) 8 st;
            st = shift_step (\<lambda>v. bits v 3 0 = 0) 4 st;
            st = shift_step (\<lambda>v. bits v 1 0 = 0) 2 st;
            (lsb, val) = st
        in if bits val 0 0 = 0 then lsb + 1 else lsb)"

definition isPow2 :: "u64 \<Rightarrow> bool" where
  "isPow2 v \<longleftrightarrow> v AND (v - 1) = 0"

text \<open>The compiler's population count and trailing-zero count, which the source calls.\<close>

definition popCount :: "u64 \<Rightarrow> nat" where
  "popCount val = length (filter (bit val) [0..<64])"

definition ctz64 :: "u64 \<Rightarrow> nat" where
  "ctz64 value = (if value \<noteq> 0 then length (takeWhile (\<lambda>n. \<not> bit value n) [0..<64]) else 64)"

definition ctz32 :: "u32 \<Rightarrow> nat" where
  "ctz32 value = (if value \<noteq> 0 then length (takeWhile (\<lambda>n. \<not> bit value n) [0..<32]) else 32)"

definition alignToPowerOfTwo :: "u64 \<Rightarrow> u64" where
  "alignToPowerOfTwo val =
     (let val = val - 1;
          val = val OR drop_bit 1 val;
          val = val OR drop_bit 2 val;
          val = val OR drop_bit 4 val;
          val = val OR drop_bit 8 val;
          val = val OR drop_bit 16 val;
          val = val OR drop_bit 32 val
      in val + 1)"

section \<open>Integer arithmetic (intmath.hh)\<close>

text \<open>The loop of \<open>power\<close>: \<open>e\<close> loses its lowest bit, the products wrap at 64 bits. The
  overflow warning has no effect on the value.\<close>

function power_loop :: "u64 \<Rightarrow> u64 \<Rightarrow> nat \<Rightarrow> u64" where
  "power_loop result component e =
     (if e = 0 then result
      else power_loop (if odd e then result * component else result)
             (component * component) (e div 2))"
  by pat_completeness auto
termination
  by (relation "measure (\<lambda>(_, _, e). e)") auto

declare power_loop.simps [simp del]

definition power_u32 :: "u32 \<Rightarrow> u32 \<Rightarrow> u64" where
  "power_u32 n e = power_loop 1 (ucast n) (unat e)"

text \<open>\<open>ts\<close> is \<open>sizeof(T)\<close> of the instance; the argument is the unsigned value of \<open>x\<close>.\<close>

definition floorLog2 :: "nat \<Rightarrow> u64 \<Rightarrow> nat result" where
  "floorLog2 ts x =
     bindR (assertR (x > 0)) (\<lambda>_.
       let st = (0, x);
           st = shift_step (\<lambda>ux. ts \<ge> 8 \<and> ux AND 0xffffffff00000000 \<noteq> 0) 32 st;
           st = shift_step (\<lambda>ux. ts \<ge> 4 \<and> ux AND 0x00000000ffff0000 \<noteq> 0) 16 st;
           st = shift_step (\<lambda>ux. ts \<ge> 2 \<and> ux AND 0x000000000000ff00 \<noteq> 0) 8 st;
           st = shift_step (\<lambda>ux. ux AND 0x00000000000000f0 \<noteq> 0) 4 st;
           st = shift_step (\<lambda>ux. ux AND 0x000000000000000c \<noteq> 0) 2 st;
           (y, ux) = st
       in Inr (if ux AND 0x0000000000000002 \<noteq> 0 then y + 1 else y))"

definition ceilLog2 :: "nat \<Rightarrow> u64 \<Rightarrow> nat result" where
  "ceilLog2 ts n =
     bindR (assertR (n > 0)) (\<lambda>_.
       if n = 1 then Inr 0
       else bindR (floorLog2 ts (n - 1)) (\<lambda>y. Inr (y + 1)))"

definition isPowerOf2 :: "u64 \<Rightarrow> bool" where
  "isPowerOf2 n \<longleftrightarrow> n \<noteq> 0 \<and> n AND (n - 1) = 0"

definition divCeil :: "u64 \<Rightarrow> u64 \<Rightarrow> u64 result" where
  "divCeil a b = (if b = 0 then Inl Undefined else Inr ((a + b - 1) div b))"

definition roundUp :: "u64 \<Rightarrow> u64 \<Rightarrow> u64 result" where
  "roundUp val align =
     bindR (assertR (isPowerOf2 align)) (\<lambda>_.
       let m = align - 1 in Inr ((val + m) AND NOT m))"

definition roundDown :: "u64 \<Rightarrow> u64 \<Rightarrow> u64 result" where
  "roundDown val align =
     bindR (assertR (isPowerOf2 align)) (\<lambda>_.
       let m = align - 1 in Inr (val AND NOT m))"

section \<open>Characteristic bits\<close>

lemma mask64_eq_mask: "mask64 k = mask (nat k)"
proof (cases "k \<ge> 64")
  case True
  then show ?thesis
    by (auto simp: mask64_def bit_simps intro!: word64_eqI)
next
  case False
  then show ?thesis
    by (simp add: mask64_def mask_eq_exp_minus_1 push_bit_eq_mult)
qed

lemma bit_mask64 [bit_chars]: "bit (mask64 k) n \<longleftrightarrow> int n < k \<and> n < 64"
  by (auto simp: mask64_eq_mask bit_simps)

lemma bit_bits [bit_chars]: "bit (bits v f l) n \<longleftrightarrow> int (n + l) \<le> f \<and> bit v (n + l)"
  by (auto simp: bits_def Let_def bit_simps bit_chars add.commute dest: bit_word64_imp_less)

lemma bit_bits_at [bit_chars]: "bit (bits_at v b) n \<longleftrightarrow> n = 0 \<and> bit v b"
  by (auto simp: bits_at_def bit_chars)

lemma bit_mbits [bit_chars]: "bit (mbits v f l) n \<longleftrightarrow> l \<le> int n \<and> int n \<le> f \<and> bit v n"
  by (auto simp: mbits_def bit_simps bit_chars dest: bit_word64_imp_less)

lemma bit_mask_range [bit_chars]: "bit (mask_range f l) n \<longleftrightarrow> l \<le> int n \<and> int n \<le> f \<and> n < 64"
  by (auto simp: mask_range_def bit_chars bit_simps)

lemma bit_insertBits [bit_chars]:
  "bit (insertBits v f l b) n \<longleftrightarrow>
     n < 64 \<and> (if l \<le> n \<and> int n \<le> f then bit b (n - l) else bit v n)"
  by (auto simp: insertBits_def Let_def bit_simps bit_chars dest: bit_word64_imp_less)

lemma bit_insertBits_at [bit_chars]:
  "bit (insertBits_at v k b) n \<longleftrightarrow> n < 64 \<and> (if n = k then bit b 0 else bit v n)"
  by (auto simp: insertBits_at_def bit_chars)

lemma bits_zero_iff: "bits v f l = 0 \<longleftrightarrow> (\<forall>n. l \<le> n \<and> int n \<le> f \<longrightarrow> \<not> bit v n)"
proof
  assume "bits v f l = 0"
  then have "\<not> bit (bits v f l) (n - l)" for n by simp
  then show "\<forall>n. l \<le> n \<and> int n \<le> f \<longrightarrow> \<not> bit v n"
    by (auto simp: bit_bits) (metis add.commute le_add_diff_inverse of_nat_add)
next
  assume "\<forall>n. l \<le> n \<and> int n \<le> f \<longrightarrow> \<not> bit v n"
  then show "bits v f l = 0" by (auto simp: bit_bits intro!: word64_eqI)
qed

lemma bits_at_nonzero [simp]: "bits_at v b \<noteq> 0 \<longleftrightarrow> bit v b"
  by (auto simp: bits_at_def bits_zero_iff)


section \<open>Bit searches\<close>

text \<open>Invariant of the halving searches for the highest set bit: \<open>val\<close> is \<open>x\<close> shifted by the
  position found so far, it is not zero, and it has no bit at or above \<open>k\<close>.\<close>

definition msb_inv :: "u64 \<Rightarrow> nat \<Rightarrow> nat \<times> u64 \<Rightarrow> bool" where
  "msb_inv x k st \<longleftrightarrow>
     (let (pos, val) = st in val = drop_bit pos x \<and> val \<noteq> 0 \<and> (\<forall>n \<ge> k. \<not> bit val n))"

lemma msb_inv_step:
  assumes "msb_inv x (k + k) st"
    and "\<And>v. (\<forall>n \<ge> k + k. \<not> bit v n) \<Longrightarrow> test v \<longleftrightarrow> (\<exists>n. k \<le> n \<and> n < k + k \<and> bit v n)"
  shows "msb_inv x k (shift_step test k st)"
proof -
  obtain pos val where st: "st = (pos, val)" by (cases st)
  from assms(1) have inv: "val = drop_bit pos x" "val \<noteq> 0" "\<forall>n \<ge> k + k. \<not> bit val n"
    by (auto simp: msb_inv_def st)
  show ?thesis
  proof (cases "test val")
    case True
    with assms(2) [OF inv(3)] obtain n where n: "k \<le> n" "n < k + k" "bit val n" by auto
    have "bit (drop_bit k val) (n - k)" using n by (simp add: bit_simps)
    then have "drop_bit k val \<noteq> 0" by auto
    moreover have "\<forall>n \<ge> k. \<not> bit (drop_bit k val) n" using inv(3) by (simp add: bit_simps)
    ultimately show ?thesis using True inv(1)
      by (simp add: msb_inv_def shift_step_def st drop_bit_drop_bit add.commute)
  next
    case False
    with assms(2) [OF inv(3)] inv show ?thesis
      by (auto simp: msb_inv_def shift_step_def st) (meson leI)
  qed
qed

lemma msb_inv_final:
  assumes "msb_inv x 2 st"
  shows "drop_bit (if bit (snd st) 1 then fst st + 1 else fst st) x = 1"
proof -
  obtain pos val where st: "st = (pos, val)" by (cases st)
  from assms have inv: "val = drop_bit pos x" "val \<noteq> 0" "\<forall>n \<ge> 2. \<not> bit val n"
    by (auto simp: msb_inv_def st)
  have z: "n \<ge> 2 \<or> n = 0 \<or> n = 1" for n :: nat by arith
  show ?thesis
  proof (cases "bit val 1")
    case True
    have "drop_bit 1 val = 1"
      using inv(3) True
      by (intro word64_eqI) (auto simp: bit_simps bit_1_iff, metis Suc_le_mono not_less_eq_eq numeral_2_eq_2 le_zero_eq)
    then show ?thesis using True inv(1) by (simp add: st drop_bit_drop_bit add.commute)
  next
    case False
    obtain n where "bit val n" using inv(2) word_nonzero_bit by blast
    with inv(3) False z [of n] have "bit val 0" by auto
    then have "val = 1" using inv(3) False
      by (intro word64_eqI) (metis bit_1_iff z)
    then show ?thesis using False inv(1) by (simp add: st)
  qed
qed

lemma search_masks:
  "0xffffffff00000000 = mbits (- 1) 63 32"
  "0x00000000ffff0000 = mbits (- 1) 31 16"
  "0x000000000000ff00 = mbits (- 1) 15 8"
  "0x00000000000000f0 = mbits (- 1) 7 4"
  "0x000000000000000c = mbits (- 1) 3 2"
  "0x0000000000000002 = mbits (- 1) 1 1"
  by (simp_all add: mbits_def mask64_def)

lemma and_mbits_nonzero:
  "(v :: u64) AND mbits (- 1) f l \<noteq> 0 \<longleftrightarrow> (\<exists>n. l \<le> int n \<and> int n \<le> f \<and> bit v n)"
  by (auto simp: word_nonzero_bit bit_chars bit_simps dest: bit_word64_imp_less)

lemma bits_nonzero: "bits v f l \<noteq> 0 \<longleftrightarrow> (\<exists>n. l \<le> n \<and> int n \<le> f \<and> bit v n)"
  by (auto simp: bits_zero_iff)

lemma drop_bit_one_bounds:
  assumes "drop_bit y (x :: u64) = 1"
  shows "2 ^ y \<le> unat x" "unat x < 2 ^ (y + 1)"
proof -
  have "unat (drop_bit y x) = 1" using assms by simp
  then have "drop_bit y (unat x) = 1" by (simp only: unat_drop_bit_eq)
  then have d: "unat x div 2 ^ y = 1" by (simp only: drop_bit_eq_div)
  have e: "unat x = 2 ^ y * (unat x div 2 ^ y) + unat x mod 2 ^ y" by simp
  have m: "unat x mod 2 ^ y < 2 ^ y" by simp
  from d e have s: "unat x = 2 ^ y + unat x mod 2 ^ y" by simp
  show "2 ^ y \<le> unat x" by (subst s) simp
  show "unat x < 2 ^ (y + 1)" by (subst s) (use m in simp)
qed

lemma msb_inv_init: "x \<noteq> 0 \<Longrightarrow> msb_inv x 64 (0, x)"
  by (auto simp: msb_inv_def dest: bit_word64_imp_less)

lemma floorLog2_drop_bit:
  assumes "x \<noteq> 0"
  shows "\<exists>y. floorLog2 8 x = Inr y \<and> drop_bit y x = 1"
proof -
  define s1 where "s1 = shift_step (\<lambda>ux. ux AND 0xffffffff00000000 \<noteq> 0) 32 (0, x)"
  define s2 where "s2 = shift_step (\<lambda>ux. ux AND 0x00000000ffff0000 \<noteq> 0) 16 s1"
  define s3 where "s3 = shift_step (\<lambda>ux. ux AND 0x000000000000ff00 \<noteq> 0) 8 s2"
  define s4 where "s4 = shift_step (\<lambda>ux. ux AND 0x00000000000000f0 \<noteq> 0) 4 s3"
  define s5 where "s5 = shift_step (\<lambda>ux. ux AND 0x000000000000000c \<noteq> 0) 2 s4"
  have "msb_inv x 32 s1" unfolding s1_def
    by (rule msb_inv_step) (use assms msb_inv_init in \<open>auto simp: search_masks and_mbits_nonzero\<close>)
  then have "msb_inv x 16 s2" unfolding s2_def
    by (intro msb_inv_step) (auto simp: search_masks and_mbits_nonzero)
  then have "msb_inv x 8 s3" unfolding s3_def
    by (intro msb_inv_step) (auto simp: search_masks and_mbits_nonzero)
  then have "msb_inv x 4 s4" unfolding s4_def
    by (intro msb_inv_step) (auto simp: search_masks and_mbits_nonzero)
  then have "msb_inv x 2 s5" unfolding s5_def
    by (intro msb_inv_step) (auto simp: search_masks and_mbits_nonzero)
  note fin = msb_inv_final [OF this]
  have two: "snd s5 AND 2 \<noteq> 0 \<longleftrightarrow> bit (snd s5) 1"
    by (auto simp: search_masks(6) and_mbits_nonzero less_Suc_eq_le)
  have "floorLog2 8 x = Inr (if bit (snd s5) 1 then fst s5 + 1 else fst s5)"
    using assms two
    by (simp add: floorLog2_def word_gt_0 Let_def s1_def [symmetric] s2_def [symmetric]
        s3_def [symmetric] s4_def [symmetric] s5_def [symmetric] split_beta)
  with fin show ?thesis by blast
qed

lemma findMsbSet_drop_bit:
  assumes "x \<noteq> 0"
  shows "drop_bit (findMsbSet x) x = 1"
proof -
  define s1 where "s1 = shift_step (\<lambda>v. bits v 63 32 \<noteq> 0) 32 (0, x)"
  define s2 where "s2 = shift_step (\<lambda>v. bits v 31 16 \<noteq> 0) 16 s1"
  define s3 where "s3 = shift_step (\<lambda>v. bits v 15 8 \<noteq> 0) 8 s2"
  define s4 where "s4 = shift_step (\<lambda>v. bits v 7 4 \<noteq> 0) 4 s3"
  define s5 where "s5 = shift_step (\<lambda>v. bits v 3 2 \<noteq> 0) 2 s4"
  have "msb_inv x 32 s1" unfolding s1_def
    by (rule msb_inv_step) (use assms msb_inv_init in \<open>auto simp: bits_nonzero\<close>)
  then have "msb_inv x 16 s2" unfolding s2_def
    by (intro msb_inv_step) (auto simp: bits_nonzero)
  then have "msb_inv x 8 s3" unfolding s3_def
    by (intro msb_inv_step) (auto simp: bits_nonzero)
  then have "msb_inv x 4 s4" unfolding s4_def
    by (intro msb_inv_step) (auto simp: bits_nonzero)
  then have "msb_inv x 2 s5" unfolding s5_def
    by (intro msb_inv_step) (auto simp: bits_nonzero)
  note fin = msb_inv_final [OF this]
  have "bits (snd s5) 1 1 \<noteq> 0 \<longleftrightarrow> bit (snd s5) 1"
    by (auto simp: bits_nonzero less_Suc_eq_le)
  with assms have "findMsbSet x = (if bit (snd s5) 1 then fst s5 + 1 else fst s5)"
    by (simp add: findMsbSet_def Let_def s1_def [symmetric] s2_def [symmetric]
        s3_def [symmetric] s4_def [symmetric] s5_def [symmetric] split_beta)
  with fin show ?thesis by simp
qed


text \<open>The search for the lowest set bit: no bit of \<open>x\<close> lies below the position found so far, and
  the shifted value has one below \<open>k\<close>.\<close>

definition lsb_inv :: "u64 \<Rightarrow> nat \<Rightarrow> nat \<times> u64 \<Rightarrow> bool" where
  "lsb_inv x k st \<longleftrightarrow>
     (let (pos, val) = st
      in val = drop_bit pos x \<and> (\<forall>n < pos. \<not> bit x n) \<and> (\<exists>n < k. bit val n))"

lemma fst_shift_step: "fst (shift_step test k st) = (if test (snd st) then fst st + k else fst st)"
  by (simp add: shift_step_def split_beta)

lemma lsb_inv_step:
  assumes "lsb_inv x (k + k) st"
    and "\<And>v. test v \<longleftrightarrow> (\<forall>n < k. \<not> bit v n)"
  shows "lsb_inv x k (shift_step test k st)"
proof -
  obtain pos val where st: "st = (pos, val)" by (cases st)
  from assms(1) obtain m where inv: "val = drop_bit pos x" "\<forall>n < pos. \<not> bit x n"
      "m < k + k" "bit val m"
    by (auto simp: lsb_inv_def st)
  show ?thesis
  proof (cases "test val")
    case True
    then have low: "\<forall>n < k. \<not> bit val n" by (simp add: assms(2))
    with inv(4) have "k \<le> m" by (meson leI)
    then have "bit (drop_bit k val) (m - k)" "m - k < k" using inv(3,4) by (simp_all add: bit_simps)
    moreover have "\<not> bit x n" if "n < pos + k" for n
    proof (cases "n < pos")
      case False
      then have "n = pos + (n - pos)" "n - pos < k" using that by simp_all
      with low show ?thesis unfolding inv(1) by (metis bit_drop_bit_eq comp_apply)
    qed (use inv(2) in simp)
    ultimately show ?thesis using True inv(1)
      by (auto simp: lsb_inv_def shift_step_def st drop_bit_drop_bit add.commute)
  next
    case False
    with assms(2) inv show ?thesis
      by (auto simp: lsb_inv_def shift_step_def st)
  qed
qed

lemma lsb_unique:
  assumes "bit x a" "\<forall>n < a. \<not> bit x n" "bit x b" "\<forall>n < b. \<not> bit x n"
  shows "a = (b :: nat)"
  using assms by (metis linorder_neqE_nat)

lemma ctz64_char:
  assumes "x \<noteq> 0"
  shows "bit x (ctz64 x)" "\<And>n. n < ctz64 x \<Longrightarrow> \<not> bit x n" "ctz64 x < 64"
proof -
  let ?p = "\<lambda>n. \<not> bit x n"
  let ?t = "takeWhile ?p [0..<64]"
  from assms obtain m where m: "m < 64" "bit x m" using word_nonzero_bit by blast
  then have lt: "length ?t < length [0..<64::nat]"
    by (metis (mono_tags, lifting) atLeastLessThan_iff le0 length_takeWhile_le nat_less_le
        set_upt takeWhile_eq_all_conv takeWhile_eq_take take_all_iff order_refl)
  show "bit x (ctz64 x)" using nth_length_takeWhile [OF lt] lt assms
    by (simp add: ctz64_def)
  show "ctz64 x < 64" using lt assms by (simp add: ctz64_def)
  show "\<not> bit x n" if "n < ctz64 x" for n
  proof -
    from that assms have n: "n < length ?t" by (simp add: ctz64_def)
    then have "?t ! n \<in> set ?t" by simp
    moreover have "?t ! n = n" using n lt by (simp add: takeWhile_nth)
    ultimately show ?thesis by (metis set_takeWhileD)
  qed
qed

lemma findLsbSet_char:
  assumes "x \<noteq> 0"
  shows "bit x (findLsbSet x)" "\<forall>n < findLsbSet x. \<not> bit x n"
proof -
  define s1 where "s1 = shift_step (\<lambda>v. bits v 31 0 = 0) 32 (0, x)"
  define s2 where "s2 = shift_step (\<lambda>v. bits v 15 0 = 0) 16 s1"
  define s3 where "s3 = shift_step (\<lambda>v. bits v 7 0 = 0) 8 s2"
  define s4 where "s4 = shift_step (\<lambda>v. bits v 3 0 = 0) 4 s3"
  define s5 where "s5 = shift_step (\<lambda>v. bits v 1 0 = 0) 2 s4"
  have "lsb_inv x 64 (0, x)" using assms word_nonzero_bit by (auto simp: lsb_inv_def)
  then have "lsb_inv x 32 s1" unfolding s1_def
    by (intro lsb_inv_step) (auto simp: bits_zero_iff)
  then have "lsb_inv x 16 s2" unfolding s2_def
    by (intro lsb_inv_step) (auto simp: bits_zero_iff)
  then have "lsb_inv x 8 s3" unfolding s3_def
    by (intro lsb_inv_step) (auto simp: bits_zero_iff)
  then have "lsb_inv x 4 s4" unfolding s4_def
    by (intro lsb_inv_step) (auto simp: bits_zero_iff)
  then have "lsb_inv x 2 s5" unfolding s5_def
    by (intro lsb_inv_step) (auto simp: bits_zero_iff)
  then have "lsb_inv x 1 (shift_step (\<lambda>v. bits v 0 0 = 0) 1 s5)"
    by (intro lsb_inv_step) (auto simp: bits_zero_iff numeral_2_eq_2)
  moreover have "findLsbSet x = fst (shift_step (\<lambda>v. bits v 0 0 = 0) 1 s5)"
    using assms
    by (simp add: findLsbSet_def Let_def s1_def [symmetric] s2_def [symmetric]
        s3_def [symmetric] s4_def [symmetric] s5_def [symmetric] split_beta fst_shift_step
        del: One_nat_def)
  ultimately show "bit x (findLsbSet x)" "\<forall>n < findLsbSet x. \<not> bit x n"
    by (auto simp: lsb_inv_def bit_simps split_beta)
qed

lemma findLsbSet_eq_ctz64: "findLsbSet x = ctz64 x"
proof (cases "x = 0")
  case True
  then show ?thesis by (simp add: findLsbSet_def ctz64_def)
next
  case False
  show ?thesis
    by (rule lsb_unique [OF findLsbSet_char [OF False]]) (use ctz64_char [OF False] in auto)
qed


section \<open>Powers of two and alignment\<close>

text \<open>A word splits at its lowest set bit \<open>k\<close> into \<open>2 ^ k\<close> and the bits above.\<close>

lemma lowest_bit_split:
  fixes n :: u64
  assumes "n \<noteq> 0"
  defines "k \<equiv> ctz64 n" and "h \<equiv> n AND NOT (mask (Suc (ctz64 n)))"
  shows "n = h + 2 ^ k" "n - 1 = h OR mask k" "n AND (n - 1) = h"
proof -
  note c = ctz64_char [OF assms(1), folded k_def]
  have bh: "bit h j \<longleftrightarrow> k < j \<and> bit n j" for j
    by (auto simp: h_def k_def bit_simps dest: bit_word64_imp_less)
  have bn: "bit n j \<longleftrightarrow> bit h j \<or> j = k" for j
    using c by (auto simp: bh) (metis linorder_neqE_nat)
  have or: "n = h OR 2 ^ k"
    using bn c(3) by (intro word64_eqI) (auto simp: bit_simps)
  have dis: "h AND 2 ^ k = 0"
    by (intro word64_eqI) (auto simp: bit_simps bh)
  then show 1: "n = h + 2 ^ k" using or disjunctive_add_eq_or [of h "2 ^ k"] by simp
  have dis': "h AND mask k = 0"
    by (intro word64_eqI) (auto simp: bit_simps bh)
  have "n - 1 = h + mask k" using 1 by (simp add: mask_eq_exp_minus_1)
  then show 2: "n - 1 = h OR mask k" using dis' disjunctive_add_eq_or [of h "mask k"] by simp
  show "n AND (n - 1) = h"
    using c(2) by (subst 2, intro word64_eqI) (auto simp: bit_simps bh)
qed

lemma isPowerOf2_iff: "isPowerOf2 n \<longleftrightarrow> (\<exists>k < 64. n = 2 ^ k)"
proof
  assume n: "isPowerOf2 n"
  then have "n \<noteq> 0" "n AND (n - 1) = 0" by (simp_all add: isPowerOf2_def)
  then have "n = 2 ^ ctz64 n" using lowest_bit_split [OF \<open>n \<noteq> 0\<close>] by (metis add_0)
  then show "\<exists>k < 64. n = 2 ^ k" using ctz64_char(3) [OF \<open>n \<noteq> 0\<close>] by blast
next
  assume "\<exists>k < 64. n = 2 ^ k"
  then obtain k where k: "k < 64" "n = 2 ^ k" by blast
  have "n AND (n - 1) = 0"
    unfolding k(2) mask_eq_exp_minus_1 [symmetric]
    by (intro word64_eqI) (auto simp: bit_simps)
  moreover have "bit n k" using k by (simp add: bit_simps)
  then have "n \<noteq> 0" by auto
  ultimately show "isPowerOf2 n" by (simp add: isPowerOf2_def)
qed

lemma and_not_mask_unat: "unat (v AND NOT (mask k) :: u64) = unat v div 2 ^ k * 2 ^ k"
proof -
  have "v AND NOT (mask k) = push_bit k (drop_bit k v)"
    by (intro word64_eqI) (auto simp: bit_simps)
  also have "\<dots> = v - take_bit k v"
    by (simp only: eq_diff_eq bits_ident)
  finally have e: "v AND NOT (mask k) = v - take_bit k v" .
  have t: "unat (take_bit k v) = unat v mod 2 ^ k"
    by (simp only: unsigned_take_bit_eq) (simp add: take_bit_eq_mod)
  then have "take_bit k v \<le> v" unfolding word_le_nat_alt by (simp only: mod_less_eq_dividend)
  then have "unat (v - take_bit k v) = unat v - unat (take_bit k v)" by (rule unat_sub)
  then show ?thesis using e t by (simp only: minus_mod_eq_div_mult)
qed

lemma power_loop_eq: "power_loop r c e = r * c ^ e"
proof (induction r c e rule: power_loop.induct)
  case (1 r c e)
  show ?case
  proof (cases "e = 0")
    case True
    then show ?thesis by (simp add: power_loop.simps)
  next
    case False
    have "c ^ e = (c * c) ^ (e div 2) * (if odd e then c else 1)"
      by (cases "even e") (auto elim!: evenE oddE simp: power_mult power2_eq_square)
    then show ?thesis using False "1.IH" by (simp add: power_loop.simps [of r c e] ac_simps)
  qed
qed


text \<open>One line of \<open>alignToPowerOfTwo\<close> doubles the distance over which every bit has been copied
  downwards.\<close>

definition smeared :: "u64 \<Rightarrow> nat \<Rightarrow> u64 \<Rightarrow> bool" where
  "smeared x k v \<longleftrightarrow> (\<forall>n. bit v n \<longleftrightarrow> (\<exists>j < k. bit x (n + j)))"

lemma smeared_step: "smeared x k v \<Longrightarrow> smeared x (k + k) (v OR drop_bit k v)"
proof -
  assume s: "smeared x k v"
  have "(\<exists>j < k + k. P j) \<longleftrightarrow> (\<exists>j < k. P j) \<or> (\<exists>j < k. P (k + j))" for P
  proof
    assume "\<exists>j < k + k. P j"
    then obtain j where j: "j < k + k" "P j" by blast
    show "(\<exists>j < k. P j) \<or> (\<exists>j < k. P (k + j))"
    proof (cases "j < k")
      case False
      then have "j = k + (j - k)" "j - k < k" using j by simp_all
      then show ?thesis using j by metis
    qed (use j in blast)
  next
    assume "(\<exists>j < k. P j) \<or> (\<exists>j < k. P (k + j))"
    then show "\<exists>j < k + k. P j" by (metis add_less_cancel_left trans_less_add1)
  qed
  then show ?thesis using s by (auto simp: smeared_def bit_simps ac_simps)
qed

lemma smear_mask:
  assumes "smeared x 64 v" "drop_bit h x = 1"
  shows "v = mask (Suc h)"
proof (rule word64_eqI)
  fix n :: nat assume n: "n < 64"
  have x: "bit x (h + j) \<longleftrightarrow> j = 0" for j
    using assms(2) by (metis bit_1_iff bit_drop_bit_eq comp_apply)
  show "bit v n = bit (mask (Suc h) :: u64) n"
  proof (cases "n \<le> h")
    case True
    have "h < 64" using x [of 0] by (auto dest: bit_word64_imp_less)
    with True x [of 0] have "\<exists>j < 64. bit x (n + j)" by (intro exI [of _ "h - n"]) simp
    with True n assms(1) show ?thesis by (simp add: smeared_def bit_simps)
  next
    case False
    then have "\<not> bit x (n + j)" for j using x [of "n - h + j"] by simp
    with False assms(1) show ?thesis by (simp add: smeared_def bit_simps)
  qed
qed

lemma alignToPowerOfTwo_smeared: "\<exists>v. smeared (x - 1) 64 v \<and> alignToPowerOfTwo x = v + 1"
proof -
  define v0 where "v0 = x - 1"
  define v1 where "v1 = v0 OR drop_bit 1 v0"
  define v2 where "v2 = v1 OR drop_bit 2 v1"
  define v3 where "v3 = v2 OR drop_bit 4 v2"
  define v4 where "v4 = v3 OR drop_bit 8 v3"
  define v5 where "v5 = v4 OR drop_bit 16 v4"
  define v6 where "v6 = v5 OR drop_bit 32 v5"
  have "smeared v0 1 v0" by (simp add: smeared_def)
  from smeared_step [OF this] have "smeared v0 2 v1" by (simp add: v1_def numeral_2_eq_2)
  from smeared_step [OF this] have "smeared v0 4 v2" by (simp add: v2_def)
  from smeared_step [OF this] have "smeared v0 8 v3" by (simp add: v3_def)
  from smeared_step [OF this] have "smeared v0 16 v4" by (simp add: v4_def)
  from smeared_step [OF this] have "smeared v0 32 v5" by (simp add: v5_def)
  from smeared_step [OF this] have "smeared v0 64 v6" by (simp add: v6_def)
  moreover have "alignToPowerOfTwo x = v6 + 1"
    by (simp add: alignToPowerOfTwo_def Let_def v0_def v1_def v2_def v3_def v4_def v5_def v6_def
        del: One_nat_def)
  ultimately show ?thesis by (auto simp: v0_def)
qed

section \<open>Properties\<close>

text \<open>floorLog2 of any non-zero 64-bit value returns (the assertion holds) the exact integer
  logarithm: the result y satisfies 2^y <= x < 2^(y+1); on zero the assertion fails.\<close>

theorem floorLog2_exact:
  "x \<noteq> 0 \<Longrightarrow> \<exists>y. floorLog2 8 x = Inr y \<and> 2 ^ y \<le> unat x \<and> unat x < 2 ^ (y + 1)"
  using floorLog2_drop_bit [of x] drop_bit_one_bounds by blast

theorem floorLog2_exact_witness:
  "(0x12345 :: u64) \<noteq> 0 \<and>
   (\<exists>y. floorLog2 8 0x12345 = Inr y \<and> 2 ^ y \<le> unat (0x12345 :: u64) \<and>
        unat (0x12345 :: u64) < 2 ^ (y + 1))"
  using floorLog2_exact [of "0x12345"] by simp

text \<open>alignToPowerOfTwo rounds every value from 1 to 2^63 up to a power of two that is at least
  the value and less than twice the value.\<close>

theorem alignToPowerOfTwo_least:
  assumes "1 \<le> unat x" "unat x \<le> 2 ^ 63"
  shows "\<exists>k. unat (alignToPowerOfTwo x) = 2 ^ k \<and> unat x \<le> 2 ^ k \<and> 2 ^ k < 2 * unat x"
proof -
  obtain v where v: "smeared (x - 1) 64 v" "alignToPowerOfTwo x = v + 1"
    using alignToPowerOfTwo_smeared by blast
  have x1: "unat (x - 1) = unat x - 1" using assms(1) by (intro unat_minus_one) auto
  show ?thesis
  proof (cases "x - 1 = 0")
    case True
    then have "v = 0" using v(1) by (intro word64_eqI) (simp add: smeared_def)
    then show ?thesis using v(2) True x1 assms by (intro exI [of _ 0]) simp
  next
    case False
    define h where "h = findMsbSet (x - 1)"
    have d: "drop_bit h (x - 1) = 1" unfolding h_def by (rule findMsbSet_drop_bit [OF False])
    note b = drop_bit_one_bounds [OF d]
    have "(2::nat) ^ h < 2 ^ 63" using b(1) x1 assms by linarith
    then have h: "h < 63" by (simp only: power_strict_increasing_iff)
    have "alignToPowerOfTwo x = 2 ^ Suc h"
      using v(2) smear_mask [OF v(1) d] by (simp add: mask_eq_exp_minus_1)
    then have "unat (alignToPowerOfTwo x) = 2 ^ Suc h"
      using h by (simp only: unat_exp64)
    then show ?thesis using b x1 assms by (intro exI [of _ "Suc h"]) auto
  qed
qed

theorem alignToPowerOfTwo_least_witness:
  "1 \<le> unat (100 :: u64) \<and> unat (100 :: u64) \<le> 2 ^ 63 \<and>
   (\<exists>k. unat (alignToPowerOfTwo 100) = 2 ^ k \<and> unat (100 :: u64) \<le> 2 ^ k \<and>
        2 ^ k < 2 * unat (100 :: u64))"
proof -
  have h: "1 \<le> unat (100 :: u64)" "unat (100 :: u64) \<le> 2 ^ 63" by simp_all
  show ?thesis using h alignToPowerOfTwo_least [OF h] by blast
qed


lemma aligned_bounds: "x div 2 ^ k * 2 ^ k \<le> x" "x < x div 2 ^ k * 2 ^ k + 2 ^ k" for x :: nat
  using dividend_less_div_times [of "2 ^ k" x] by (simp_all add: add.commute)

lemma roundDown_bounds:
  assumes "isPowerOf2 align"
  shows "\<exists>r. roundDown val align = Inr r \<and> unat align dvd unat r \<and>
           unat r \<le> unat val \<and> unat val < unat r + unat align"
proof -
  obtain k where k: "k < 64" "align = 2 ^ k" using assms by (auto simp: isPowerOf2_iff)
  have ua: "unat align = 2 ^ k" unfolding k(2) by (rule unat_exp64 [OF k(1)])
  have m: "align - 1 = mask k" by (simp add: k(2) mask_eq_exp_minus_1)
  show ?thesis
    using assms aligned_bounds by (simp add: roundDown_def Let_def m and_not_mask_unat ua)
qed

lemma roundUp_bounds:
  assumes "isPowerOf2 align" "unat val + unat align \<le> 2 ^ 64"
  shows "\<exists>r. roundUp val align = Inr r \<and> unat align dvd unat r \<and>
           unat val \<le> unat r \<and> unat r < unat val + unat align"
proof -
  obtain k where k: "k < 64" "align = 2 ^ k" using assms(1) by (auto simp: isPowerOf2_iff)
  have ua: "unat align = 2 ^ k" unfolding k(2) by (rule unat_exp64 [OF k(1)])
  have m: "align - 1 = mask k" by (simp add: k(2) mask_eq_exp_minus_1)
  have um: "unat (mask k :: u64) = 2 ^ k - 1"
    using ua by (metis assms(1) isPowerOf2_def m unat_minus_one)
  have "unat val + (2 ^ k - 1) < 2 ^ 64" using assms(2) ua by (simp add: less_le_trans)
  then have "unat (val + mask k) = unat val + (2 ^ k - 1)"
    using um by (simp add: unat_word_ariths)
  moreover have "unat val \<le> (unat val + (2 ^ k - 1)) div 2 ^ k * 2 ^ k"
    using aligned_bounds(2) [of "unat val + (2 ^ k - 1)" k] by simp
  moreover have "(unat val + (2 ^ k - 1)) div 2 ^ k * 2 ^ k < unat val + 2 ^ k"
    by (rule le_less_trans [OF aligned_bounds(1)]) simp
  ultimately show ?thesis
    using assms(1) by (simp add: roundUp_def Let_def m and_not_mask_unat ua)
qed

text \<open>on any power-of-two alignment, roundDown returns the multiple of the alignment at or below
  the value, and roundUp, when the addition does not wrap, the multiple at or above it, each less
  than one alignment away.\<close>

theorem round_to_alignment:
  assumes "isPowerOf2 align" "unat val + unat align \<le> 2 ^ 64"
  shows "\<exists>lo hi. roundDown val align = Inr lo \<and> roundUp val align = Inr hi \<and>
           unat align dvd unat lo \<and> unat align dvd unat hi \<and>
           unat lo \<le> unat val \<and> unat val < unat lo + unat align \<and>
           unat val \<le> unat hi \<and> unat hi < unat val + unat align"
  using roundDown_bounds [OF assms(1), of val] roundUp_bounds [OF assms] by blast

theorem round_to_alignment_witness:
  "isPowerOf2 64 \<and> unat (1000 :: u64) + unat (64 :: u64) \<le> 2 ^ 64 \<and>
   roundDown 1000 64 = Inr 960 \<and> roundUp 1000 64 = Inr 1024 \<and>
   (\<exists>lo hi. roundDown 1000 64 = Inr lo \<and> roundUp 1000 64 = Inr hi \<and>
      unat (64 :: u64) dvd unat lo \<and> unat (64 :: u64) dvd unat hi \<and>
      unat lo \<le> unat (1000 :: u64) \<and> unat (1000 :: u64) < unat lo + unat (64 :: u64) \<and>
      unat (1000 :: u64) \<le> unat hi \<and> unat hi < unat (1000 :: u64) + unat (64 :: u64))"
proof -
  have h: "isPowerOf2 64" "unat (1000 :: u64) + unat (64 :: u64) \<le> 2 ^ 64"
    by (simp_all add: isPowerOf2_def)
  have "roundDown 1000 64 = Inr 960" "roundUp 1000 64 = Inr 1024"
    by (simp_all add: roundDown_def roundUp_def h(1) Let_def)
  with h round_to_alignment [OF h] show ?thesis by blast
qed

text \<open>insertBits writes exactly the field [first:last]: reading the field back gives the low bits
  of the inserted value, every other bit of the word keeps its value, and writing a field's own
  value changes nothing.\<close>

theorem insertBits_field:
  assumes "int lst \<le> first" "first < 64"
  shows "bits (insertBits val first lst b) first lst = take_bit (nat (first + 1 - int lst)) b \<and>
         (\<forall>n. n < lst \<or> first < int n \<longrightarrow> bit (insertBits val first lst b) n = bit val n) \<and>
         insertBits val first lst (bits val first lst) = val"
proof (intro conjI)
  show "bits (insertBits val first lst b) first lst = take_bit (nat (first + 1 - int lst)) b"
    using assms by (intro word64_eqI) (auto simp: bit_chars bit_simps)
  show "\<forall>n. n < lst \<or> first < int n \<longrightarrow> bit (insertBits val first lst b) n = bit val n"
    by (auto simp: bit_chars dest: bit_word64_imp_less)
  show "insertBits val first lst (bits val first lst) = val"
    by (intro word64_eqI) (auto simp: bit_chars)
qed

theorem insertBits_field_witness:
  "int 4 \<le> 7 \<and> (7::int) < 64 \<and> insertBits 0xffff 7 4 0 = 0xff0f \<and>
   bits (insertBits 0xffff 7 4 0) 7 4 = take_bit (nat (7 + 1 - int 4)) 0"
proof -
  have h: "int 4 \<le> 7" "(7::int) < 64" by simp_all
  have "insertBits 0xffff 7 4 0 = 0xff0f" by (simp add: insertBits_def mask64_def)
  with h insertBits_field [OF h, of "0xffff" 0] show ?thesis by blast
qed

end
