(* ===== verification/AddrRange.thy ===== *)
theory AddrRange
  imports Bitfield
begin

text \<open>
  \<open>base/addr_range.hh\<close>: address ranges with optional interleaving. A range is \<open>[start, end)\<close>
  together with a list of masks; the parity of the address under mask \<open>i\<close> is bit \<open>i\<close> of the
  selector, and the address belongs to the range if the selector equals \<open>intlvMatch\<close>. The class's
  \<open>fatal\<close> and \<open>panic\<close> exits and the shifts C++ leaves undefined are error results.
\<close>

section \<open>Data and constructors\<close>

record AddrRange =
  ar_start :: addr
  ar_end :: addr
  ar_masks :: "addr list"
  ar_intlvMatch :: u8

definition AddrRange_default :: AddrRange where
  "AddrRange_default = \<lparr>ar_start = 1, ar_end = 0, ar_masks = [], ar_intlvMatch = 0\<rparr>"

definition AddrRange_masks :: "addr \<Rightarrow> addr \<Rightarrow> addr list \<Rightarrow> u8 \<Rightarrow> AddrRange result" where
  "AddrRange_masks s e ms m =
     (if length ms \<ge> 64 then Inl Undefined
      else if ms \<noteq> [] \<and> unat m \<ge> 2 ^ length ms then Inl Fatal
      else Inr \<lparr>ar_start = s, ar_end = e, ar_masks = ms, ar_intlvMatch = m\<rparr>)"

text \<open>The mask of interleaving bit \<open>i\<close> in the legacy constructor. The bit positions are
  \<open>uint8_t\<close> values, so the subtractions wrap at 256; a shift by 64 or more is undefined.\<close>

definition legacy_mask :: "u8 \<Rightarrow> u8 \<Rightarrow> nat \<Rightarrow> addr result" where
  "legacy_mask intlv_high_bit xor_high_bit i =
     (let bit1 = unat (intlv_high_bit - of_nat i);
          bit2 = unat (xor_high_bit - of_nat i)
      in if bit1 \<ge> 64 then Inl Undefined
         else if xor_high_bit \<noteq> 0
         then (if bit2 \<ge> 64 then Inl Undefined else Inr (push_bit bit1 1 OR push_bit bit2 1))
         else Inr (push_bit bit1 1))"

definition AddrRange_legacy ::
    "addr \<Rightarrow> addr \<Rightarrow> u8 \<Rightarrow> u8 \<Rightarrow> u8 \<Rightarrow> u8 \<Rightarrow> AddrRange result" where
  "AddrRange_legacy s e intlv_high_bit xor_high_bit intlv_bits intlv_match =
     (if unat intlv_bits \<ge> 64 then Inl Undefined
      else if intlv_bits \<noteq> 0 \<and> unat intlv_match \<ge> 2 ^ unat intlv_bits then Inl Fatal
      else if intlv_bits \<noteq> 0 \<and> xor_high_bit \<noteq> 0 \<and>
              (xor_high_bit = intlv_high_bit \<or>
               xor_high_bit > intlv_high_bit \<and>
                 unat xor_high_bit - unat intlv_high_bit < unat intlv_bits \<or>
               xor_high_bit < intlv_high_bit \<and>
                 unat intlv_high_bit - unat xor_high_bit < unat intlv_bits)
      then Inl Fatal
      else
        bindR (foldR (\<lambda>i ms.
            bindR (legacy_mask intlv_high_bit xor_high_bit i) (\<lambda>m.
              Inr (ms[unat intlv_bits - i - 1 := m])))
            [0..<unat intlv_bits] (replicate (unat intlv_bits) 0))
          (\<lambda>ms. Inr \<lparr>ar_start = s, ar_end = e, ar_masks = ms, ar_intlvMatch = intlv_match\<rparr>))"

definition AddrRange_plain :: "addr \<Rightarrow> addr \<Rightarrow> AddrRange" where
  "AddrRange_plain s e = \<lparr>ar_start = s, ar_end = e, ar_masks = [], ar_intlvMatch = 0\<rparr>"

section \<open>Queries\<close>

definition interleaved :: "AddrRange \<Rightarrow> bool" where
  "interleaved r \<longleftrightarrow> length (ar_masks r) > 0"

definition range_size :: "AddrRange \<Rightarrow> addr" where
  "range_size r = drop_bit (length (ar_masks r)) (ar_end r - ar_start r)"

text \<open>\<open>combined_mask\<close> is declared \<open>auto\<close> from the literal 0, so it is a 32-bit \<open>int\<close>: each
  \<open>|=\<close> truncates to 32 bits, and the argument of \<open>ctz64\<close> is its sign extension.\<close>

definition combined_mask :: "AddrRange \<Rightarrow> u32" where
  "combined_mask r = fold (\<lambda>m c. ucast (scast c OR m)) (ar_masks r) 0"

definition granularity :: "AddrRange \<Rightarrow> u64 result" where
  "granularity r =
     (if interleaved r
      then let lowest_bit = ctz64 (scast (combined_mask r))
           in if lowest_bit \<ge> 64 then Inl Undefined else Inr (push_bit lowest_bit 1)
      else Inr (range_size r))"

definition stripes :: "AddrRange \<Rightarrow> u32 result" where
  "stripes r =
     (if length (ar_masks r) \<ge> 64 then Inl Undefined
      else Inr (ucast (push_bit (length (ar_masks r)) (1 :: u64))))"

definition range_valid :: "AddrRange \<Rightarrow> bool" where
  "range_valid r \<longleftrightarrow> ar_start r \<le> ar_end r"

definition mergesWith :: "AddrRange \<Rightarrow> AddrRange \<Rightarrow> bool" where
  "mergesWith this r \<longleftrightarrow>
     ar_start r = ar_start this \<and> ar_end r = ar_end this \<and> ar_masks r = ar_masks this"

text \<open>The selector is an \<open>int\<close>; up to 31 masks its value is the natural number computed here
  (\<open>intlvMatch\<close> is eight bits wide, so more masks are of no use).\<close>

definition sel_of :: "addr list \<Rightarrow> addr \<Rightarrow> nat" where
  "sel_of ms a = fold (\<lambda>i sel. sel OR push_bit i (popCount (a AND ms ! i) mod 2)) [0..<length ms] 0"

definition contains :: "AddrRange \<Rightarrow> addr \<Rightarrow> bool" where
  "contains r a \<longleftrightarrow>
     (let in_range = a \<ge> ar_start r \<and> a < ar_end r
      in if in_range then sel_of (ar_masks r) a = unat (ar_intlvMatch r) else False)"

definition intersects :: "AddrRange \<Rightarrow> AddrRange \<Rightarrow> bool result" where
  "intersects this r =
     (if ar_start this \<ge> ar_end r \<or> ar_end this \<le> ar_start r then Inr False
      else if \<not> interleaved this \<and> \<not> interleaved r then Inr True
      else if range_size r = 1 then Inr (contains this (ar_start r))
      else if mergesWith this r then Inr (ar_intlvMatch this = ar_intlvMatch r)
      else Inl Panic)"

definition isSubset :: "AddrRange \<Rightarrow> AddrRange \<Rightarrow> bool result" where
  "isSubset this r =
     (if interleaved this then Inl Panic
      else if interleaved r
      then (if contains r (ar_start this) \<and> contains r (ar_end this - 1)
            then bindR (granularity r) (\<lambda>g. Inr (range_size this \<le> g))
            else Inr False)
      else Inr (ar_start this \<ge> ar_start r \<and> ar_end this \<le> ar_end r))"

text \<open>The merging constructor: the loop compares every range with the fields taken from the first
  one and counts the expected match value in a \<open>uint8_t\<close>.\<close>

fun merge_check :: "AddrRange \<Rightarrow> u8 \<Rightarrow> AddrRange list \<Rightarrow> unit result" where
  "merge_check this m [] = Inr ()"
| "merge_check this m (r # rs) =
     (if \<not> mergesWith this r then Inl Fatal
      else if ar_intlvMatch r \<noteq> m then Inl Fatal
      else merge_check this (m + 1) rs)"

definition AddrRange_merge :: "AddrRange list \<Rightarrow> AddrRange result" where
  "AddrRange_merge ranges =
     (let this = (case ranges of [] \<Rightarrow> AddrRange_default | r # _ \<Rightarrow> r)
      in if length ranges > 1
         then (if length (ar_masks this) \<ge> 64 then Inl Undefined
               else if length ranges \<noteq> 2 ^ length (ar_masks this) then Inl Fatal
               else bindR (merge_check this 0 ranges)
                      (\<lambda>_. Inr (this\<lparr>ar_masks := [], ar_intlvMatch := 0\<rparr>)))
         else Inr this)"

section \<open>Interleaving bits\<close>

definition masks_lsb :: "AddrRange \<Rightarrow> nat list" where
  "masks_lsb r = sort (map ctz64 (ar_masks r))"

definition remove_step :: "nat \<Rightarrow> nat \<Rightarrow> addr \<Rightarrow> addr" where
  "remove_step i intlv_bit a =
     (if intlv_bit > 0 then insertBits (drop_bit 1 a) (int intlv_bit - int i - 1) 0 a
      else drop_bit 1 a)"

fun removeIntlv_loop :: "nat \<Rightarrow> nat list \<Rightarrow> addr \<Rightarrow> addr" where
  "removeIntlv_loop i [] a = a"
| "removeIntlv_loop i (intlv_bit # ps) a = removeIntlv_loop (Suc i) ps (remove_step i intlv_bit a)"

definition removeIntlvBits :: "AddrRange \<Rightarrow> addr \<Rightarrow> addr" where
  "removeIntlvBits r a = removeIntlv_loop 0 (masks_lsb r) a"

definition add_step :: "nat \<Rightarrow> nat \<Rightarrow> addr \<Rightarrow> addr" where
  "add_step i intlv_bit a =
     (if intlv_bit > 0 then insertBits (push_bit 1 a) (int intlv_bit + int i - 1) 0 a
      else push_bit 1 a)"

fun addIntlv_loop :: "nat \<Rightarrow> nat list \<Rightarrow> addr \<Rightarrow> addr" where
  "addIntlv_loop i [] a = a"
| "addIntlv_loop i (intlv_bit # ps) a = addIntlv_loop (Suc i) ps (add_step i intlv_bit a)"

text \<open>\<open>~(1 << lsb)\<close> is computed on the 32-bit \<open>int\<close> 1 and then extended to 64 bits.\<close>

definition not_int_bit :: "nat \<Rightarrow> addr result" where
  "not_int_bit lsb = (if lsb < 32 then Inr (scast (NOT (push_bit lsb (1 :: u32)))) else Inl Undefined)"

definition set_sel_bit :: "AddrRange \<Rightarrow> nat \<Rightarrow> addr \<Rightarrow> addr result" where
  "set_sel_bit r i a =
     (let lsb = ctz64 (ar_masks r ! i);
          intlv_bit = bits_at (ucast (ar_intlvMatch r)) i
      in bindR (not_int_bit lsb) (\<lambda>n.
           let masked = a AND ar_masks r ! i AND n
           in Inr (insertBits_at a lsb (intlv_bit XOR of_nat (popCount masked)))))"

definition addIntlvBits :: "AddrRange \<Rightarrow> addr \<Rightarrow> addr result" where
  "addIntlvBits r a =
     foldR (set_sel_bit r) [0..<length (ar_masks r)] (addIntlv_loop 0 (masks_lsb r) a)"

definition MaxAddr :: addr where
  "MaxAddr = - 1"

definition getOffset :: "AddrRange \<Rightarrow> addr \<Rightarrow> addr" where
  "getOffset r a =
     (let in_range = a \<ge> ar_start r \<and> a < ar_end r
      in if \<not> in_range then MaxAddr
         else if interleaved r then removeIntlvBits r a - removeIntlvBits r (ar_start r)
         else a - ar_start r)"

definition range_less :: "AddrRange \<Rightarrow> AddrRange \<Rightarrow> bool" where
  "range_less this r \<longleftrightarrow>
     (if ar_start this \<noteq> ar_start r then ar_start this < ar_start r
      else ar_intlvMatch this < ar_intlvMatch r)"

definition range_eq :: "AddrRange \<Rightarrow> AddrRange \<Rightarrow> bool" where
  "range_eq this r \<longleftrightarrow>
     (if ar_start this \<noteq> ar_start r then False
      else if ar_end this \<noteq> ar_end r then False
      else if ar_masks this \<noteq> ar_masks r then False
      else if ar_intlvMatch this \<noteq> ar_intlvMatch r then False
      else True)"

definition RangeEx :: "addr \<Rightarrow> addr \<Rightarrow> AddrRange" where
  "RangeEx s e = AddrRange_plain s e"

definition RangeIn :: "addr \<Rightarrow> addr \<Rightarrow> AddrRange" where
  "RangeIn s e = AddrRange_plain s (e + 1)"

definition RangeSize :: "addr \<Rightarrow> addr \<Rightarrow> AddrRange" where
  "RangeSize s sz = AddrRange_plain s (s + sz)"

section \<open>The selector\<close>

lemma sel_of_bit: "bit (sel_of ms a) i \<longleftrightarrow> i < length ms \<and> odd (popCount (a AND ms ! i))"
proof -
  have "bit (fold (\<lambda>i sel. sel OR push_bit i (popCount (a AND ms ! i) mod 2)) [0..<n] 0) i
          \<longleftrightarrow> i < n \<and> odd (popCount (a AND ms ! i))" for n
    by (induction n) (auto simp: bit_or_iff bit_push_bit_iff bit_mod_2_iff less_Suc_eq)
  then show ?thesis by (simp add: sel_of_def)
qed

lemma sel_of_less: "sel_of ms a < 2 ^ length ms"
proof -
  have "take_bit (length ms) (sel_of ms a) = sel_of ms a"
    by (rule bit_eqI) (auto simp: bit_take_bit_iff sel_of_bit)
  then show ?thesis by (simp add: take_bit_nat_eq_self_iff)
qed

lemma sel_of_eq_iff:
  "sel_of ms a = sel_of ms b \<longleftrightarrow>
     (\<forall>m \<in> set ms. odd (popCount (a AND m)) = odd (popCount (b AND m)))"
proof -
  have "sel_of ms a = sel_of ms b \<longleftrightarrow> (\<forall>i. bit (sel_of ms a) i = bit (sel_of ms b) i)"
    by (auto intro: bit_eqI)
  also have "\<dots> \<longleftrightarrow> (\<forall>i < length ms. odd (popCount (a AND ms ! i)) = odd (popCount (b AND ms ! i)))"
    by (simp only: sel_of_bit) blast
  also have "\<dots> \<longleftrightarrow> (\<forall>m \<in> set ms. odd (popCount (a AND m)) = odd (popCount (b AND m)))"
    by (simp only: all_set_conv_all_nth)
  finally show ?thesis .
qed

lemma sel_of_Nil [simp]: "sel_of [] a = 0"
  by (simp add: sel_of_def)

lemma contains_iff:
  "contains r a \<longleftrightarrow> ar_start r \<le> a \<and> a < ar_end r \<and> sel_of (ar_masks r) a = unat (ar_intlvMatch r)"
  by (auto simp: contains_def)

lemma contains_plain:
  "\<not> interleaved r \<Longrightarrow>
     contains r a \<longleftrightarrow> ar_start r \<le> a \<and> a < ar_end r \<and> ar_intlvMatch r = 0"
  by (auto simp: contains_iff interleaved_def unat_eq_0)

lemma popCount_card: "popCount v = card {n. n < 64 \<and> bit v n}"
proof -
  have "popCount v = card {i. i < 64 \<and> bit v ([0..<64] ! i)}"
    by (simp add: popCount_def length_filter_conv_card)
  also have "{i. i < 64 \<and> bit v ([0..<64] ! i)} = {n. n < 64 \<and> bit v n}"
    by auto
  finally show ?thesis .
qed

lemma popCount_xor: "odd (popCount (x XOR y)) \<longleftrightarrow> odd (popCount x) \<noteq> odd (popCount y)"
proof -
  have "odd (length (filter (bit (x XOR y)) ns)) \<longleftrightarrow>
        odd (length (filter (bit x) ns)) \<noteq> odd (length (filter (bit y) ns))" for ns
    by (induction ns) (auto simp: bit_xor_iff)
  then show ?thesis by (simp add: popCount_def)
qed

lemma popCount_single:
  assumes "\<And>n. bit v n \<longleftrightarrow> n = p"
  shows "popCount v = 1"
proof -
  have "p < 64" using assms bit_word64_imp_less by blast
  then have "{n. n < 64 \<and> bit v n} = {p}" using assms by auto
  then show ?thesis by (simp add: popCount_card)
qed

lemma and_xor_distr64: "(a XOR b) AND m = (a AND m) XOR (b AND m)" for a b m :: u64
  by (rule bit_eqI) (auto simp: bit_simps)

section \<open>Chunks\<close>

text \<open>No mask has a bit below the granularity, so membership is constant on a chunk.\<close>

lemma bit_combined_mask: "n < 32 \<Longrightarrow> bit (combined_mask r) n \<longleftrightarrow> (\<exists>m \<in> set (ar_masks r). bit m n)"
proof -
  assume n: "n < 32"
  have "bit (fold (\<lambda>m c. ucast (scast c OR m)) ms (c :: u32)) n \<longleftrightarrow>
          bit c n \<or> (\<exists>m \<in> set ms. bit (m :: u64) n)" for ms c
    using n by (induction ms arbitrary: c) (auto simp: bit_simps)
  then show ?thesis by (simp add: combined_mask_def)
qed

lemma granularity_low_bits:
  assumes "granularity r = Inr g" "interleaved r"
  obtains L where "g = push_bit L 1" "L < 64" "\<And>m n. m \<in> set (ar_masks r) \<Longrightarrow> n < L \<Longrightarrow> \<not> bit m n"
proof -
  let ?c = "scast (combined_mask r) :: u64"
  let ?L = "ctz64 ?c"
  have g: "g = push_bit ?L 1" "?L < 64"
    using assms by (auto simp: granularity_def Let_def split: if_splits)
  then have nz: "?c \<noteq> 0" by (auto simp: ctz64_def)
  then have c0: "combined_mask r \<noteq> 0" by auto
  have low: "\<not> bit ?c n" if "n < ?L" for n
    using ctz64_char [OF nz] that by auto
  have "?L < 32"
  proof (rule ccontr)
    assume "\<not> ?L < 32"
    then have "\<not> bit (combined_mask r) n" if "n < 32" for n
      using low [of n] that by (auto simp: bit_simps)
    then have "combined_mask r = 0" by (intro bit_word_eqI) auto
    with c0 show False by simp
  qed
  then have "\<not> bit m n" if "m \<in> set (ar_masks r)" "n < ?L" for m n
    using low [of n] that bit_combined_mask [of n r] by (auto simp: bit_simps)
  with g that show thesis by blast
qed

lemma sel_of_chunk:
  assumes "\<And>m n. m \<in> set ms \<Longrightarrow> n < L \<Longrightarrow> \<not> bit m n" "drop_bit L a = drop_bit L b"
  shows "sel_of ms a = sel_of ms b"
proof -
  have "a AND m = b AND m" if m: "m \<in> set ms" for m
  proof (rule word64_eqI)
    fix n :: nat
    assume "n < 64"
    show "bit (a AND m) n = bit (b AND m) n"
    proof (cases "n < L")
      case True
      then show ?thesis using assms(1) m by (auto simp: bit_and_iff)
    next
      case False
      then have "bit a n = bit (drop_bit L a) (n - L)" "bit b n = bit (drop_bit L b) (n - L)"
        by (auto simp: bit_drop_bit_eq)
      then show ?thesis using assms(2) by (auto simp: bit_and_iff)
    qed
  qed
  then show ?thesis by (simp add: sel_of_eq_iff)
qed

lemma chunk_of_between:
  fixes s a e :: nat
  assumes "s \<le> a" "a < e" "e - s \<le> 2 ^ L"
  shows "a div 2 ^ L = s div 2 ^ L \<or> a div 2 ^ L = (e - 1) div 2 ^ L"
proof -
  have "s div 2 ^ L \<le> a div 2 ^ L" "a div 2 ^ L \<le> (e - 1) div 2 ^ L"
    using assms by (auto intro: div_le_mono)
  moreover have "(e - 1) div 2 ^ L \<le> (s + 2 ^ L) div 2 ^ L"
    using assms by (intro div_le_mono) linarith
  moreover have "(s + 2 ^ L) div 2 ^ L = Suc (s div 2 ^ L)" by (subst div_add_self2) auto
  ultimately show ?thesis by linarith
qed

lemma drop_bit_eq_iff_unat: "drop_bit L a = drop_bit L b \<longleftrightarrow> unat a div 2 ^ L = unat b div 2 ^ L"
  for a b :: u64
  by (simp add: word_eq_iff_unsigned [where 'a = nat] unat_drop_bit_eq) (simp add: drop_bit_eq_div)

section \<open>Merging and partition\<close>

lemma merge_check_matches:
  assumes "merge_check this m rs = Inr ()" "i < length rs"
  shows "mergesWith this (rs ! i) \<and> ar_intlvMatch (rs ! i) = m + of_nat i"
  using assms
proof (induction this m rs arbitrary: i rule: merge_check.induct)
  case (2 this m r rs)
  then show ?case by (cases i) (auto split: if_splits)
qed simp

lemma unat_u8: "n < 256 \<Longrightarrow> unat (of_nat n :: u8) = n"
  by (simp add: unat_of_nat)

section \<open>Removing the interleaving bits\<close>

lemma bit_remove_step:
  "bit (remove_step i p a) n \<longleftrightarrow> (if n + i < p then bit a n else bit a (Suc n))"
proof (cases "n < 64")
  case True
  then show ?thesis by (auto simp: remove_step_def bit_insertBits bit_drop_bit_eq)
next
  case False
  then have "\<not> bit a n" "\<not> bit a (Suc n)" using bit_word64_imp_less by fastforce+
  with False show ?thesis by (auto simp: remove_step_def bit_insertBits bit_drop_bit_eq)
qed

lemma removeIntlv_loop_inj:
  assumes "sorted_wrt (<) ps" "\<forall>p \<in> set ps. i \<le> p"
    "removeIntlv_loop i ps a = removeIntlv_loop i ps b" "n + i \<notin> set ps"
  shows "bit a n = bit b n"
  using assms
proof (induction ps arbitrary: i a b n)
  case (Cons p ps)
  let ?del = "remove_step i p"
  have IH: "bit (?del a) m = bit (?del b) m" if "Suc (m + i) \<notin> set ps" for m
    using Cons.prems that by (intro Cons.IH [of "Suc i"]) (auto simp: Suc_le_eq)
  consider "n + i < p" | "p < n + i" using Cons.prems(4) by fastforce
  then show ?case
  proof cases
    case 1
    then have "Suc (n + i) \<notin> set ps" using Cons.prems(1) by auto
    from IH [OF this] 1 show ?thesis unfolding bit_remove_step by simp
  next
    case 2
    then obtain k where k: "n = Suc k" using Cons.prems(2) by (cases n) auto
    then have "Suc (k + i) \<notin> set ps" using Cons.prems(4) by auto
    from IH [OF this] 2 k show ?thesis unfolding bit_remove_step by simp
  qed
qed simp

lemma masks_lsb_strict:
  "distinct (map ctz64 (ar_masks r)) \<Longrightarrow> sorted_wrt (<) (masks_lsb r)"
  by (simp add: masks_lsb_def strict_sorted_iff)

lemma set_masks_lsb [simp]: "set (masks_lsb r) = ctz64 ` set (ar_masks r)"
  by (simp add: masks_lsb_def)

text \<open>The highest bit in which two addresses with equal remaining bits could differ is the lowest bit
  of some mask, and that mask alone would give the two addresses different selectors.\<close>

lemma same_sel_same_rest:
  assumes sel: "sel_of ms a = sel_of ms b"
    and rest: "\<And>n. n \<notin> ctz64 ` set ms \<Longrightarrow> bit a n = bit b n"
  shows "a = b"
proof (rule ccontr)
  let ?d = "a XOR b"
  assume "a \<noteq> b"
  then have "?d \<noteq> 0" by (metis word_bw_lcs(3) word_log_esimps(3,7) xor.right_neutral xor_self_eq)
  then have ne: "{n. n < 64 \<and> bit ?d n} \<noteq> {}" by (auto simp: word_nonzero_bit)
  define p where "p = Max {n. n < 64 \<and> bit ?d n}"
  have p: "p < 64" "bit ?d p" using Max_in [OF _ ne] by (auto simp: p_def)
  have above: "\<not> bit ?d n" if "p < n" for n
  proof
    assume d: "bit ?d n"
    then have "n \<le> p"
      unfolding p_def using bit_word64_imp_less [OF d] by (intro Max_ge) auto
    with that show False by simp
  qed
  have "p \<in> ctz64 ` set ms" using p rest by (auto simp: bit_xor_iff)
  then obtain m where m: "m \<in> set ms" "p = ctz64 m" by auto
  then have "m \<noteq> 0" using p by (auto simp: ctz64_def)
  then have "bit (?d AND m) n \<longleftrightarrow> n = p" for n
    using ctz64_char [of m] p above [of n] m by (cases n p rule: linorder_cases) (auto simp: bit_and_iff)
  then have "popCount (?d AND m) = 1" by (rule popCount_single)
  moreover have "odd (popCount (a AND m)) = odd (popCount (b AND m))"
    using sel m by (simp add: sel_of_eq_iff)
  ultimately show False using popCount_xor [of "a AND m" "b AND m"] by (simp add: and_xor_distr64)
qed

section \<open>Adding them back\<close>

lemma bit_add_step:
  assumes "p > 0 \<or> i = 0"
  shows "bit (add_step i p a) n \<longleftrightarrow> n < 64 \<and> (if n < p + i then bit a n else 0 < n \<and> bit a (n - 1))"
proof -
  define b where "b = push_bit 1 a"
  have "bit b n \<longleftrightarrow> n < 64 \<and> 0 < n \<and> bit a (n - 1)"
    unfolding b_def bit_push_bit_iff by auto
  then show ?thesis using assms
    unfolding add_step_def b_def [symmetric] by (auto simp: bit_insertBits)
qed

lemma add_remove_loops_one:
  "n \<noteq> p \<Longrightarrow> bit (addIntlv_loop 0 [p] (removeIntlv_loop 0 [p] a)) n = bit a n"
  by (auto simp: bit_add_step bit_remove_step dest: bit_word64_imp_less)

lemma add_remove_loops_two:
  assumes "p < q" "n \<noteq> p" "n \<noteq> q"
  shows "bit (addIntlv_loop 0 [p, q] (removeIntlv_loop 0 [p, q] a)) n = bit a n"
proof (cases "n < 2")
  case True
  then show ?thesis using assms by (auto simp: bit_add_step bit_remove_step less_2_cases_iff)
next
  case False
  then obtain k where "n = Suc (Suc k)" by (metis add_2_eq_Suc le_Suc_ex not_less)
  then show ?thesis using assms
    by (auto simp: bit_add_step bit_remove_step dest: bit_word64_imp_less)
qed

lemma scast_not_int_bit: "lsb < 31 \<Longrightarrow> n < 64 \<Longrightarrow>
   bit (scast (NOT (2 ^ lsb :: u32)) :: u64) n \<longleftrightarrow> n \<noteq> lsb"
  by (auto simp: bit_simps)

lemma set_sel_bit_restores:
  assumes i: "i < length (ar_masks r)" and sel: "sel_of (ar_masks r) a = unat (ar_intlvMatch r)"
    and lsb: "ctz64 (ar_masks r ! i) < 31"
    and others: "\<And>n. n \<noteq> ctz64 (ar_masks r ! i) \<Longrightarrow> bit (ar_masks r ! i) n \<Longrightarrow> bit x n = bit a n"
  shows "\<exists>y. set_sel_bit r i x = Inr y \<and>
           (\<forall>n. bit y n \<longleftrightarrow> (if n = ctz64 (ar_masks r ! i) then bit a n else bit x n))"
proof -
  let ?m = "ar_masks r ! i" let ?p = "ctz64 ?m"
  let ?n = "scast (NOT (2 ^ ?p :: u32)) :: u64"
  have m: "?m \<noteq> 0" using lsb by (auto simp: ctz64_def)
  have eq: "x AND ?m AND ?n = a AND ?m AND ?n"
    using others lsb by (intro word64_eqI) (auto simp: bit_and_iff scast_not_int_bit)
  have "a AND ?m = (a AND ?m AND ?n) XOR (if bit a ?p then 2 ^ ?p else 0)"
    using lsb ctz64_char(1) [OF m]
    by (intro word64_eqI) (auto simp: bit_and_iff bit_xor_iff scast_not_int_bit bit_exp_iff)
  moreover have "popCount (2 ^ ?p) = 1"
    using lsb by (intro popCount_single [of _ ?p]) (auto simp: bit_exp_iff)
  then have "popCount (if bit a ?p then 2 ^ ?p else 0) = (if bit a ?p then 1 else 0)"
    by (simp add: popCount_def)
  ultimately have par: "odd (popCount (a AND ?m)) \<longleftrightarrow> odd (popCount (a AND ?m AND ?n)) \<noteq> bit a ?p"
    using popCount_xor [of "a AND ?m AND ?n" "if bit a ?p then 2 ^ ?p else 0"] by auto
  have "bit (ar_intlvMatch r) i \<longleftrightarrow> odd (popCount (a AND ?m))"
    using sel_of_bit [of "ar_masks r" a i] i sel by (simp add: bit_unsigned_iff)
  then have match: "bit (ucast (ar_intlvMatch r) :: u64) i \<longleftrightarrow> odd (popCount (a AND ?m))"
    by (auto simp: bit_simps dest: bit_imp_le_length)
  have par0: "bit (of_nat k :: u64) 0 \<longleftrightarrow> odd k" for k
    by (simp add: bit_0)
  have "bit (bits_at (ucast (ar_intlvMatch r)) i XOR of_nat (popCount (x AND ?m AND ?n))) 0
      \<longleftrightarrow> bit a ?p"
    unfolding bit_xor_iff bit_bits_at par0 match eq par by auto
  then show ?thesis using lsb
    by (auto simp: set_sel_bit_def Let_def not_int_bit_def bit_insertBits_at dest: bit_word64_imp_less)
qed

lemma foldR_set_sel_bit:
  assumes "k \<le> length (ar_masks r)" "sel_of (ar_masks r) a = unat (ar_intlvMatch r)"
    "\<forall>m \<in> set (ar_masks r). ctz64 m < 31"
    "\<forall>m \<in> set (ar_masks r). \<forall>m' \<in> set (ar_masks r). m \<noteq> m' \<longrightarrow> \<not> bit m (ctz64 m')"
    "\<And>n. n \<notin> ctz64 ` set (ar_masks r) \<Longrightarrow> bit x n = bit a n"
  shows "\<exists>y. foldR (set_sel_bit r) [0..<k] x = Inr y \<and>
           (\<forall>n. n \<notin> ctz64 ` set (drop k (ar_masks r)) \<longrightarrow> bit y n = bit a n)"
  using assms(1)
proof (induction k)
  case 0
  then show ?case using assms(5) by simp
next
  case (Suc k)
  let ?m = "ar_masks r ! k"
  obtain y where y: "foldR (set_sel_bit r) [0..<k] x = Inr y"
      "\<And>n. n \<notin> ctz64 ` set (drop k (ar_masks r)) \<Longrightarrow> bit y n = bit a n"
    using Suc by auto
  have m: "?m \<in> set (ar_masks r)" using Suc by simp
  have "bit y n = bit a n" if "n \<noteq> ctz64 ?m" "bit ?m n" for n
  proof (rule y(2), rule)
    assume "n \<in> ctz64 ` set (drop k (ar_masks r))"
    then obtain m' where "m' \<in> set (ar_masks r)" "n = ctz64 m'" by (auto dest: in_set_dropD)
    then show False using that assms(4) m by auto
  qed
  then obtain z where z: "set_sel_bit r k y = Inr z"
      "\<And>n. bit z n \<longleftrightarrow> (if n = ctz64 ?m then bit a n else bit y n)"
    using set_sel_bit_restores [of k r a y] Suc.prems assms(2,3) m by auto
  have "drop k (ar_masks r) = ?m # drop (Suc k) (ar_masks r)"
    using Suc.prems by (simp add: Cons_nth_drop_Suc)
  then have "bit z n = bit a n" if "n \<notin> ctz64 ` set (drop (Suc k) (ar_masks r))" for n
    using y(2) z(2) that by auto
  then show ?case using y(1) z(1) by (auto simp: foldR_append)
qed

lemma add_remove_loops:
  assumes "length (ar_masks r) \<le> 2" "distinct (map ctz64 (ar_masks r))"
    "n \<notin> ctz64 ` set (ar_masks r)"
  shows "bit (addIntlv_loop 0 (masks_lsb r) (removeIntlv_loop 0 (masks_lsb r) a)) n = bit a n"
proof -
  have len: "length (masks_lsb r) \<le> 2" "n \<notin> set (masks_lsb r)" "sorted_wrt (<) (masks_lsb r)"
    using assms masks_lsb_strict by (auto simp: masks_lsb_def)
  then consider "masks_lsb r = []" | p where "masks_lsb r = [p]"
    | p q where "masks_lsb r = [p, q]" "p < q"
    by (cases "masks_lsb r" rule: remdups_adj.cases) auto
  then show ?thesis
  proof cases
    case 1
    then show ?thesis by simp
  next
    case 2
    then show ?thesis using len(2) add_remove_loops_one by simp
  next
    case 3
    then show ?thesis using len(2) add_remove_loops_two by simp
  qed
qed

lemma unit_interval:
  fixes s e a :: u64
  assumes "e - s = 1" "s < e"
  shows "s \<le> a \<and> a < e \<longleftrightarrow> a = s"
proof -
  have "unat e - unat s = 1" using unat_sub [of s e] assms by simp
  then show ?thesis
    using assms(2) by (auto simp: word_le_nat_alt word_less_nat_alt word_unat_eq_iff)
qed

section \<open>Properties\<close>

text \<open>C25: Interleaving partitions the interval. For a start, an end and at most eight masks, every
  address of the interval is contained in exactly one of the ranges with match values
  \<open>0 .. 2^n - 1\<close>.\<close>

theorem interleaving_partitions:
  assumes "length ms \<le> 8" "s \<le> a" "a < e"
  shows "\<exists>!m. unat m < 2 ^ length ms \<and>
           contains \<lparr>ar_start = s, ar_end = e, ar_masks = ms, ar_intlvMatch = m\<rparr> a"
proof -
  have "sel_of ms a < 256"
    using sel_of_less [of ms a] power_increasing [OF assms(1), of "2 :: nat"] by simp
  then have "unat (of_nat (sel_of ms a) :: u8) = sel_of ms a" by (rule unat_u8)
  then show ?thesis using assms sel_of_less [of ms a]
    by (intro ex1I [of _ "of_nat (sel_of ms a)"]) (auto simp: contains_iff word_unat_eq_iff)
qed

text \<open>C26: Merging is the union. When the merging constructor accepts a list of at least two ranges
  (and the number of masks fits the eight-bit match value), the merged range contains exactly the
  addresses that one of the ranges contains.\<close>

theorem merge_is_union:
  assumes "AddrRange_merge rs = Inr r" "length rs > 1" "length (ar_masks (hd rs)) \<le> 8"
  shows "contains r a \<longleftrightarrow> (\<exists>r' \<in> set rs. contains r' a)"
proof -
  let ?h = "hd rs"
  have rs: "rs = ?h # tl rs" using assms(2) by (cases rs) auto
  have chk: "merge_check ?h 0 rs = Inr ()" "length rs = 2 ^ length (ar_masks ?h)"
    and r: "r = ?h\<lparr>ar_masks := [], ar_intlvMatch := 0\<rparr>"
    using assms rs by (auto simp: AddrRange_merge_def Let_def bindR_Inr_iff split: if_splits list.splits)
  have "length rs \<le> 256"
    using chk(2) power_increasing [OF assms(3), of "2 :: nat"] by simp
  then have nth: "contains (rs ! i) a \<longleftrightarrow>
      ar_start ?h \<le> a \<and> a < ar_end ?h \<and> sel_of (ar_masks ?h) a = i" if "i < length rs" for i
    using merge_check_matches [OF chk(1) that] that unat_u8 [of i]
    by (auto simp: mergesWith_def contains_iff)
  have "sel_of (ar_masks ?h) a < length rs" using sel_of_less chk(2) by simp
  then have "(\<exists>i < length rs. contains (rs ! i) a) \<longleftrightarrow> ar_start ?h \<le> a \<and> a < ar_end ?h"
    using nth by auto
  moreover have "(\<exists>r' \<in> set rs. contains r' a) \<longleftrightarrow> (\<exists>i < length rs. contains (rs ! i) a)"
    by (metis in_set_conv_nth)
  ultimately show ?thesis by (simp add: r contains_iff)
qed

text \<open>Offsets are unique. Two addresses contained in the same range whose masks have distinct
  lowest bits and whose offsets are equal are the same address, however many masks there are and
  even if the masks overlap.\<close>

theorem getOffset_inj:
  assumes "distinct (map ctz64 (ar_masks r))" "contains r a" "contains r b"
    "getOffset r a = getOffset r b"
  shows "a = b"
proof (cases "interleaved r")
  case True
  have "removeIntlvBits r a = removeIntlvBits r b"
    using assms(2-4) True by (simp add: getOffset_def contains_iff)
  then have "removeIntlv_loop 0 (masks_lsb r) a = removeIntlv_loop 0 (masks_lsb r) b"
    by (simp add: removeIntlvBits_def)
  then have "bit a n = bit b n" if "n \<notin> ctz64 ` set (ar_masks r)" for n
    using removeIntlv_loop_inj [of "masks_lsb r" 0 a b n] masks_lsb_strict [OF assms(1)] that by simp
  then show ?thesis
    using same_sel_same_rest [of "ar_masks r" a b] assms(2,3) by (simp add: contains_iff)
next
  case False
  then show ?thesis using assms(2-4) by (simp add: getOffset_def contains_iff)
qed

text \<open>C27: With at most two masks (distinct lowest bits below bit 31, no mask holding another mask's
  lowest bit), \<open>addIntlvBits\<close> restores what \<open>removeIntlvBits\<close> discarded from every address of the
  range.\<close>

theorem add_remove_roundtrip:
  assumes "length (ar_masks r) \<le> 2" "distinct (map ctz64 (ar_masks r))"
    "\<forall>m \<in> set (ar_masks r). ctz64 m < 31"
    "\<forall>m \<in> set (ar_masks r). \<forall>m' \<in> set (ar_masks r). m \<noteq> m' \<longrightarrow> \<not> bit m (ctz64 m')"
    "contains r a"
  shows "addIntlvBits r (removeIntlvBits r a) = Inr a"
proof -
  let ?x = "addIntlv_loop 0 (masks_lsb r) (removeIntlv_loop 0 (masks_lsb r) a)"
  have "\<exists>y. foldR (set_sel_bit r) [0..<length (ar_masks r)] ?x = Inr y \<and>
          (\<forall>n. n \<notin> ctz64 ` set (drop (length (ar_masks r)) (ar_masks r)) \<longrightarrow> bit y n = bit a n)"
    using assms add_remove_loops [OF assms(1,2)] by (intro foldR_set_sel_bit) (auto simp: contains_iff)
  then obtain y where "foldR (set_sel_bit r) [0..<length (ar_masks r)] ?x = Inr y"
      "\<And>n. bit y n = bit a n" by auto
  then show ?thesis
    by (auto simp: addIntlvBits_def removeIntlvBits_def intro: bit_word_eqI)
qed

text \<open>With three masks the same round trip loses an address bit: the third insertion point is one too
  high for every earlier insertion, and address 512 of a range interleaved on bits 6, 7 and 8 comes
  back as 0.\<close>

definition three_masks :: AddrRange where
  "three_masks = \<lparr>ar_start = 0, ar_end = 1024, ar_masks = [64, 128, 256], ar_intlvMatch = 0\<rparr>"

lemma add_remove_three_masks:
  "contains three_masks 512" "addIntlvBits three_masks (removeIntlvBits three_masks 512) = Inr 0"
  by code_simp+

text \<open>\<open>isSubset\<close> is sound: if it answers true for a nonempty range, every address of that range is
  in the other one, also when the other one is interleaved and only the two end points and the
  granularity were looked at.\<close>

theorem isSubset_sound:
  assumes "isSubset this r = Inr True" "ar_start this < ar_end this"
    "interleaved r \<or> ar_intlvMatch r = 0" "contains this a"
  shows "contains r a"
proof -
  have plain: "\<not> interleaved this" using assms(1) by (auto simp: isSubset_def split: if_splits)
  have a: "ar_start this \<le> a" "a < ar_end this" using assms(4) by (auto simp: contains_iff)
  show ?thesis
  proof (cases "interleaved r")
    case False
    with assms(1) plain have "ar_start r \<le> ar_start this" "ar_end this \<le> ar_end r"
      by (auto simp: isSubset_def)
    then show ?thesis using a False assms(3) by (auto simp: contains_plain)
  next
    case True
    then have ends: "contains r (ar_start this)" "contains r (ar_end this - 1)"
      and "\<exists>g. granularity r = Inr g \<and> range_size this \<le> g"
      using assms(1) plain by (auto simp: isSubset_def bindR_Inr_iff split: if_splits)
    then obtain g where g: "granularity r = Inr g" "range_size this \<le> g" by auto
    obtain L where L: "g = push_bit L 1" "L < 64"
        "\<And>m n. m \<in> set (ar_masks r) \<Longrightarrow> n < L \<Longrightarrow> \<not> bit m n"
      using granularity_low_bits [OF g(1) True] by blast
    have "unat (ar_end this) - unat (ar_start this) \<le> 2 ^ L"
      using g(2) L(1,2) plain unat_sub [OF less_imp_le [OF assms(2)]]
      by (simp add: range_size_def interleaved_def word_le_nat_alt unat_exp64)
    moreover have e1: "unat (ar_end this - 1) = unat (ar_end this) - 1"
      using assms(2) by (intro unat_minus_one) auto
    ultimately have "drop_bit L a = drop_bit L (ar_start this) \<or> drop_bit L a = drop_bit L (ar_end this - 1)"
      using chunk_of_between [of "unat (ar_start this)" "unat a" "unat (ar_end this)" L] a assms(2)
      by (auto simp: drop_bit_eq_iff_unat word_le_nat_alt word_less_nat_alt)
    then have "sel_of (ar_masks r) a = unat (ar_intlvMatch r)"
      using sel_of_chunk [OF L(3)] ends by (metis contains_iff)
    moreover have "ar_start r \<le> a" "a < ar_end r"
      using a ends e1 by (auto simp: contains_iff word_le_nat_alt word_less_nat_alt)
    ultimately show ?thesis by (simp add: contains_iff)
  qed
qed

text \<open>C28: \<open>intersects\<close> is exact: for nonempty ranges (the argument not an interleaved range of size
  one), its answer is true iff some address is in both ranges.\<close>

theorem intersects_exact:
  assumes "intersects this r = Inr b" "contains this x" "contains r y"
    "\<not> (interleaved r \<and> range_size r = 1)"
  shows "b \<longleftrightarrow> (\<exists>a. contains this a \<and> contains r a)"
proof -
  consider (apart) "ar_start this \<ge> ar_end r \<or> ar_end this \<le> ar_start r"
    | (plain) "\<not> (ar_start this \<ge> ar_end r \<or> ar_end this \<le> ar_start r)"
        "\<not> interleaved this" "\<not> interleaved r"
    | (unit) "\<not> (ar_start this \<ge> ar_end r \<or> ar_end this \<le> ar_start r)"
        "\<not> (\<not> interleaved this \<and> \<not> interleaved r)" "range_size r = 1"
    | (same) "\<not> (ar_start this \<ge> ar_end r \<or> ar_end this \<le> ar_start r)"
        "\<not> (\<not> interleaved this \<and> \<not> interleaved r)" "range_size r \<noteq> 1" "mergesWith this r"
    using assms(1) by (auto simp: intersects_def split: if_splits)
  then show ?thesis
  proof cases
    case apart
    then show ?thesis using assms(1) by (auto simp: intersects_def contains_iff)
  next
    case plain
    then have "contains this (max (ar_start this) (ar_start r))"
        "contains r (max (ar_start this) (ar_start r))"
      using assms(2,3) by (auto simp: contains_plain)
    then show ?thesis using assms(1) plain by (auto simp: intersects_def)
  next
    case unit
    then have "\<not> interleaved r" using assms(4) by simp
    then have "contains r a \<longleftrightarrow> a = ar_start r" for a
      using unit assms(3) unit_interval [of "ar_end r" "ar_start r" a]
      by (auto simp: contains_plain range_size_def interleaved_def)
    then show ?thesis using assms(1) unit by (auto simp: intersects_def)
  next
    case same
    then have "contains this a \<and> contains r a \<longleftrightarrow> ar_intlvMatch this = ar_intlvMatch r \<and> contains r a" for a
      by (auto simp: mergesWith_def contains_iff simp flip: word_unat_eq_iff)
    then show ?thesis using assms(1,3) same by (auto simp: intersects_def)
  qed
qed

text \<open>An interleaved range of size one is the exception: \<open>intersects\<close> tests its start address, which
  need not belong to it.\<close>

lemma intersects_unit_interleaved:
  "intersects (AddrRange_plain 0 1)
      \<lparr>ar_start = 0, ar_end = 2, ar_masks = [1], ar_intlvMatch = 1\<rparr> = Inr True"
  "\<not> contains \<lparr>ar_start = 0, ar_end = 2, ar_masks = [1], ar_intlvMatch = 1\<rparr> 0"
  by code_simp+

section \<open>Witnesses\<close>

definition four_channels :: "nat \<Rightarrow> AddrRange" where
  "four_channels m = \<lparr>ar_start = 0, ar_end = 1024, ar_masks = [64 + 256, 128 + 512],
     ar_intlvMatch = of_nat m\<rparr>"

theorem interleaving_partitions_witness:
  "\<exists>!m :: u8. unat m < 2 ^ length [64, 128 :: addr] \<and>
     contains \<lparr>ar_start = 0, ar_end = 1024, ar_masks = [64, 128], ar_intlvMatch = m\<rparr> 200"
  by (rule interleaving_partitions) simp_all

theorem merge_is_union_witness:
  "contains (AddrRange_plain 0 1024) 200 \<longleftrightarrow>
     (\<exists>r' \<in> set (map four_channels [0, 1, 2, 3]). contains r' 200)"
proof (rule merge_is_union)
  show "AddrRange_merge (map four_channels [0, 1, 2, 3]) = Inr (AddrRange_plain 0 1024)" by code_simp
qed (simp_all add: four_channels_def)

theorem getOffset_inj_witness: "getOffset (four_channels 0) 320 \<noteq> getOffset (four_channels 0) 5"
proof
  assume eq: "getOffset (four_channels 0) 320 = getOffset (four_channels 0) 5"
  have "distinct (map ctz64 (ar_masks (four_channels 0)))"
    "contains (four_channels 0) 320" "contains (four_channels 0) 5"
    by code_simp+
  from getOffset_inj [OF this eq] show False by simp
qed

theorem add_remove_roundtrip_witness:
  "addIntlvBits (four_channels 1) (removeIntlvBits (four_channels 1) 266) = Inr 266"
  by (rule add_remove_roundtrip; code_simp)

theorem isSubset_sound_witness: "contains (four_channels 1) 266"
proof (rule isSubset_sound)
  show "isSubset (AddrRange_plain 256 288) (four_channels 1) = Inr True" by code_simp
  show "ar_start (AddrRange_plain 256 288) < ar_end (AddrRange_plain 256 288)" by code_simp
  show "interleaved (four_channels 1) \<or> ar_intlvMatch (four_channels 1) = 0" by code_simp
  show "contains (AddrRange_plain 256 288) 266" by code_simp
qed

theorem intersects_exact_witness:
  "\<exists>a. contains (four_channels 1) a \<and> contains (AddrRange_plain 256 257) a"
proof -
  have "intersects (four_channels 1) (AddrRange_plain 256 257) = Inr True"
    "contains (four_channels 1) 266" "contains (AddrRange_plain 256 257) 256"
    "\<not> (interleaved (AddrRange_plain 256 257) \<and> range_size (AddrRange_plain 256 257) = 1)"
    by code_simp+
  from intersects_exact [OF this] show ?thesis by simp
qed

end
