(* ===== verification/SatCounter.thy ===== *)
theory SatCounter
  imports Prelude
begin

text \<open>
  \<open>base/sat_counter.hh\<close>: the saturating counter of at most eight bits that predictors and the
  re-reference replacement policies use. The counter is a \<open>uint8_t\<close>; its operators compute in \<open>int\<close>
  and truncate when they store.
\<close>

record SatCounter =
  sc_initialVal :: u8
  sc_maxVal :: u8
  sc_counter :: u8

definition SatCounter_new :: "nat \<Rightarrow> u8 \<Rightarrow> SatCounter result" where
  "SatCounter_new nbits initial_val =
     (let maxv = (if nbits < 32 then of_int (2 ^ nbits - 1) else 0) :: u8
      in if nbits > 8 then Inl Fatal
         else if initial_val > maxv then Inl Fatal
         else Inr \<lparr>sc_initialVal = initial_val, sc_maxVal = maxv, sc_counter = initial_val\<rparr>)"

definition sc_swap :: "SatCounter \<Rightarrow> SatCounter \<Rightarrow> SatCounter \<times> SatCounter" where
  "sc_swap this other = (other, this)"

definition sc_inc :: "SatCounter \<Rightarrow> SatCounter" where
  "sc_inc c = (if sc_counter c < sc_maxVal c then c\<lparr>sc_counter := sc_counter c + 1\<rparr> else c)"

definition sc_post_inc :: "SatCounter \<Rightarrow> SatCounter \<times> SatCounter" where
  "sc_post_inc c = (c, sc_inc c)"

definition sc_dec :: "SatCounter \<Rightarrow> SatCounter" where
  "sc_dec c = (if sc_counter c > 0 then c\<lparr>sc_counter := sc_counter c - 1\<rparr> else c)"

definition sc_post_dec :: "SatCounter \<Rightarrow> SatCounter \<times> SatCounter" where
  "sc_post_dec c = (c, sc_dec c)"

text \<open>A shift distance of 32 or more is undefined for the promoted \<open>int\<close>.\<close>

definition sc_shr :: "int \<Rightarrow> SatCounter \<Rightarrow> SatCounter result" where
  "sc_shr shift c =
     bindR (assertR (shift \<ge> 0)) (\<lambda>_.
       if shift \<ge> 32 then Inl Undefined
       else Inr (c\<lparr>sc_counter := drop_bit (nat shift) (sc_counter c)\<rparr>))"

definition sc_shl :: "int \<Rightarrow> SatCounter \<Rightarrow> SatCounter result" where
  "sc_shl shift c =
     bindR (assertR (shift \<ge> 0)) (\<lambda>_.
       if shift \<ge> 32 then Inl Undefined
       else let v = push_bit (nat shift) (sc_counter c)
            in Inr (c\<lparr>sc_counter := if v > sc_maxVal c then sc_maxVal c else v\<rparr>))"

definition sc_add_nonneg :: "int \<Rightarrow> SatCounter \<Rightarrow> SatCounter" where
  "sc_add_nonneg v c =
     (if uint (sc_maxVal c) - uint (sc_counter c) \<ge> v
      then c\<lparr>sc_counter := sc_counter c + of_int v\<rparr>
      else c\<lparr>sc_counter := sc_maxVal c\<rparr>)"

definition sc_sub_nonneg :: "int \<Rightarrow> SatCounter \<Rightarrow> SatCounter" where
  "sc_sub_nonneg v c =
     (if uint (sc_counter c) > v
      then c\<lparr>sc_counter := sc_counter c - of_int v\<rparr>
      else c\<lparr>sc_counter := 0\<rparr>)"

definition sc_add :: "int \<Rightarrow> SatCounter \<Rightarrow> SatCounter" where
  "sc_add v c = (if v \<ge> 0 then sc_add_nonneg v c else sc_sub_nonneg (- v) c)"

definition sc_sub :: "int \<Rightarrow> SatCounter \<Rightarrow> SatCounter" where
  "sc_sub v c = (if v \<ge> 0 then sc_sub_nonneg v c else sc_add_nonneg (- v) c)"

definition sc_reset :: "SatCounter \<Rightarrow> SatCounter" where
  "sc_reset c = c\<lparr>sc_counter := sc_initialVal c\<rparr>"

definition sc_isSaturated :: "SatCounter \<Rightarrow> bool" where
  "sc_isSaturated c \<longleftrightarrow> sc_counter c = sc_maxVal c"

definition sc_saturate :: "SatCounter \<Rightarrow> SatCounter \<times> u8" where
  "sc_saturate c = (c\<lparr>sc_counter := sc_maxVal c\<rparr>, sc_maxVal c - sc_counter c)"

section \<open>The counter stays in its range\<close>

definition sc_ok :: "SatCounter \<Rightarrow> bool" where
  "sc_ok c \<longleftrightarrow> sc_initialVal c \<le> sc_maxVal c \<and> sc_counter c \<le> sc_maxVal c"

lemma u8_uint_of_int: "0 \<le> v \<Longrightarrow> v < 256 \<Longrightarrow> uint (of_int v :: u8) = v"
  by (simp add: uint_word_of_int)

lemma uint_u8_bounds: "0 \<le> uint (w :: u8)" "uint (w :: u8) < 256"
  using uint_bounded [of w] by simp_all

lemma sc_inc_value: "sc_ok c \<Longrightarrow> uint (sc_counter (sc_inc c)) = min (uint (sc_maxVal c)) (uint (sc_counter c) + 1)"
proof -
  assume "sc_ok c"
  moreover have "uint (w + 1) = uint w + 1" if "uint w < 255" for w :: u8
    using that uint_u8_bounds [of w] by (simp add: uint_word_ariths)
  ultimately show ?thesis
    using uint_u8_bounds [of "sc_maxVal c"]
    by (auto simp: sc_inc_def sc_ok_def word_less_def word_le_def)
qed

lemma sc_dec_value: "uint (sc_counter (sc_dec c)) = max 0 (uint (sc_counter c) - 1)"
proof -
  have "uint (w - 1) = uint w - 1" if "0 < uint w" for w :: u8
    using that uint_u8_bounds [of w] by (simp add: uint_word_ariths)
  moreover have "uint (sc_counter c) = 0 \<or> 0 < uint (sc_counter c)"
    using uint_ge_0 [of "sc_counter c"] by linarith
  ultimately show ?thesis by (auto simp: sc_dec_def word_less_def)
qed

lemma sc_add_nonneg_value:
  assumes "0 \<le> v" "sc_ok c"
  shows "uint (sc_counter (sc_add_nonneg v c)) = min (uint (sc_maxVal c)) (uint (sc_counter c) + v)"
proof (cases "uint (sc_maxVal c) - uint (sc_counter c) \<ge> v")
  case True
  then have v: "uint (sc_counter c) + v < 256" "v < 256"
    using uint_u8_bounds [of "sc_maxVal c"] uint_u8_bounds [of "sc_counter c"] by linarith+
  then have "uint (sc_counter c + of_int v) = uint (sc_counter c) + v"
    using assms(1) by (simp add: uint_word_ariths u8_uint_of_int mod_pos_pos_trivial)
  then show ?thesis using True by (simp add: sc_add_nonneg_def)
qed (simp add: sc_add_nonneg_def)

lemma sc_sub_nonneg_value:
  assumes "0 \<le> v"
  shows "uint (sc_counter (sc_sub_nonneg v c)) = max 0 (uint (sc_counter c) - v)"
proof (cases "uint (sc_counter c) > v")
  case True
  then have "uint (sc_counter c - of_int v) = uint (sc_counter c) - v"
    using assms uint_u8_bounds [of "sc_counter c"]
    by (simp add: uint_word_ariths u8_uint_of_int)
  then show ?thesis using True by (simp add: sc_sub_nonneg_def)
qed (simp add: sc_sub_nonneg_def)

lemma sc_frame [simp]:
  "sc_maxVal (sc_inc c) = sc_maxVal c" "sc_maxVal (sc_dec c) = sc_maxVal c"
  "sc_maxVal (sc_add v c) = sc_maxVal c" "sc_maxVal (sc_sub v c) = sc_maxVal c"
  "sc_maxVal (sc_reset c) = sc_maxVal c" "sc_maxVal (fst (sc_saturate c)) = sc_maxVal c"
  "sc_initialVal (sc_inc c) = sc_initialVal c" "sc_initialVal (sc_dec c) = sc_initialVal c"
  "sc_initialVal (sc_add v c) = sc_initialVal c" "sc_initialVal (sc_sub v c) = sc_initialVal c"
  "sc_initialVal (sc_reset c) = sc_initialVal c" "sc_initialVal (fst (sc_saturate c)) = sc_initialVal c"
  by (auto simp: sc_inc_def sc_dec_def sc_add_def sc_sub_def sc_add_nonneg_def sc_sub_nonneg_def
      sc_reset_def sc_saturate_def)



text \<open>Left shifts do not: the shifted value is truncated to eight bits before it is compared with
  \<open>maxVal\<close>, so the counter 8 of a four-bit counter shifted by five becomes 0 and not 15.\<close>

lemma sc_shl_not_saturating:
  "sc_shl 5 \<lparr>sc_initialVal = 0, sc_maxVal = 15, sc_counter = 8\<rparr> =
     Inr \<lparr>sc_initialVal = 0, sc_maxVal = 15, sc_counter = 0\<rparr>"
  by code_simp

lemma sc_add_ok: "sc_ok c \<Longrightarrow> sc_ok (sc_add v c)"
  using sc_add_nonneg_value [of v c] sc_sub_nonneg_value [of "- v" c]
    uint_u8_bounds [of "sc_counter c"] uint_u8_bounds [of "sc_maxVal c"]
  by (cases "v \<ge> 0") (auto simp: sc_ok_def word_le_def sc_add_def min_def max_def
      sc_add_nonneg_def sc_sub_nonneg_def split: if_splits)

lemma sc_ok_ops:
  "sc_ok c \<Longrightarrow> sc_ok (sc_inc c)" "sc_ok c \<Longrightarrow> sc_ok (sc_dec c)" "sc_ok c \<Longrightarrow> sc_ok (sc_reset c)"
  "sc_ok c \<Longrightarrow> sc_ok (fst (sc_saturate c))"
  using sc_inc_value [of c] sc_dec_value [of c] uint_u8_bounds [of "sc_maxVal c"]
  by (auto simp: sc_ok_def word_le_def sc_reset_def sc_saturate_def)

lemma sc_saturate_diff:
  "sc_ok c \<Longrightarrow> uint (snd (sc_saturate c)) = uint (sc_maxVal c) - uint (sc_counter c)"
  using uint_u8_bounds [of "sc_maxVal c"] uint_u8_bounds [of "sc_counter c"]
  by (simp add: sc_saturate_def sc_ok_def word_le_def uint_sub_if')

lemma SatCounter_new_ok: "SatCounter_new n v = Inr c \<Longrightarrow> sc_ok c \<and> sc_counter c = v"
  by (auto simp: SatCounter_new_def sc_ok_def Let_def split: if_splits)

end
