(* ===== verification/ReplacementPolicies.thy ===== *)
theory ReplacementPolicies
  imports SatCounter Bitfield
begin

text \<open>
  \<open>mem/cache/replacement_policies\<close>: the policies that choose which entry of a cache set to evict.
  Entries are pointers; a policy keeps its replacement data in a store from entries to records, one
  record type per policy with the fields of its \<open>ReplData\<close> structure (\<open>SecondChanceReplData\<close> extends
  \<open>FIFOReplData\<close>). The current tick and the outcome of a random draw are arguments.
\<close>

type_synonym entry = nat

text \<open>The common victim search: start with the first candidate and replace it by a later one that
  is strictly better.\<close>

definition scan_victim :: "(entry \<Rightarrow> entry \<Rightarrow> bool) \<Rightarrow> entry list \<Rightarrow> entry result" where
  "scan_victim better candidates =
     bindR (assertR (candidates \<noteq> [])) (\<lambda>_.
       Inr (fold (\<lambda>candidate victim. if better candidate victim then candidate else victim)
              candidates (hd candidates)))"

section \<open>Least recently used\<close>

record LRUReplData =
  lastTouchTick :: tick

definition LRU_invalidate :: "entry \<Rightarrow> (entry \<Rightarrow> LRUReplData) \<Rightarrow> (entry \<Rightarrow> LRUReplData)" where
  "LRU_invalidate e d = d(e := (d e)\<lparr>lastTouchTick := 0\<rparr>)"

definition LRU_touch :: "tick \<Rightarrow> entry \<Rightarrow> (entry \<Rightarrow> LRUReplData) \<Rightarrow> (entry \<Rightarrow> LRUReplData)" where
  "LRU_touch curTick e d = d(e := (d e)\<lparr>lastTouchTick := curTick\<rparr>)"

definition LRU_reset :: "tick \<Rightarrow> entry \<Rightarrow> (entry \<Rightarrow> LRUReplData) \<Rightarrow> (entry \<Rightarrow> LRUReplData)" where
  "LRU_reset curTick e d = d(e := (d e)\<lparr>lastTouchTick := curTick\<rparr>)"

definition LRU_getVictim :: "(entry \<Rightarrow> LRUReplData) \<Rightarrow> entry list \<Rightarrow> entry result" where
  "LRU_getVictim d = scan_victim (\<lambda>candidate victim. lastTouchTick (d candidate) < lastTouchTick (d victim))"

definition LRU_instantiateEntry :: LRUReplData where
  "LRU_instantiateEntry = \<lparr>lastTouchTick = 0\<rparr>"

text \<open>The bimodal insertion policy resets an entry to the oldest time unless a draw from 1 to 100 is
  at most \<open>btp\<close>; the rest is LRU.\<close>

definition BIP_reset :: "nat \<Rightarrow> nat \<Rightarrow> tick \<Rightarrow> entry \<Rightarrow> (entry \<Rightarrow> LRUReplData) \<Rightarrow> (entry \<Rightarrow> LRUReplData)" where
  "BIP_reset btp random curTick e d =
     (if random \<le> btp then d(e := (d e)\<lparr>lastTouchTick := curTick\<rparr>)
      else d(e := (d e)\<lparr>lastTouchTick := 1\<rparr>))"

section \<open>First in, first out\<close>

record FIFOReplData =
  tickInserted :: tick

definition FIFO_invalidate ::
    "entry \<Rightarrow> (entry \<Rightarrow> 'a FIFOReplData_scheme) \<Rightarrow> (entry \<Rightarrow> 'a FIFOReplData_scheme)" where
  "FIFO_invalidate e d = d(e := (d e)\<lparr>tickInserted := 0\<rparr>)"

definition FIFO_touch ::
    "entry \<Rightarrow> (entry \<Rightarrow> 'a FIFOReplData_scheme) \<Rightarrow> (entry \<Rightarrow> 'a FIFOReplData_scheme)" where
  "FIFO_touch e d = d"

definition FIFO_reset ::
    "tick \<Rightarrow> entry \<Rightarrow> (entry \<Rightarrow> 'a FIFOReplData_scheme) \<Rightarrow> (entry \<Rightarrow> 'a FIFOReplData_scheme)" where
  "FIFO_reset curTick e d = d(e := (d e)\<lparr>tickInserted := curTick\<rparr>)"

definition FIFO_getVictim :: "(entry \<Rightarrow> 'a FIFOReplData_scheme) \<Rightarrow> entry list \<Rightarrow> entry result" where
  "FIFO_getVictim d = scan_victim (\<lambda>candidate victim. tickInserted (d candidate) < tickInserted (d victim))"

definition FIFO_instantiateEntry :: FIFOReplData where
  "FIFO_instantiateEntry = \<lparr>tickInserted = 0\<rparr>"

section \<open>Most recently used\<close>

record MRUReplData =
  mruLastTouchTick :: tick

definition MRU_invalidate :: "entry \<Rightarrow> (entry \<Rightarrow> MRUReplData) \<Rightarrow> (entry \<Rightarrow> MRUReplData)" where
  "MRU_invalidate e d = d(e := (d e)\<lparr>mruLastTouchTick := 0\<rparr>)"

definition MRU_touch :: "tick \<Rightarrow> entry \<Rightarrow> (entry \<Rightarrow> MRUReplData) \<Rightarrow> (entry \<Rightarrow> MRUReplData)" where
  "MRU_touch curTick e d = d(e := (d e)\<lparr>mruLastTouchTick := curTick\<rparr>)"

definition MRU_reset :: "tick \<Rightarrow> entry \<Rightarrow> (entry \<Rightarrow> MRUReplData) \<Rightarrow> (entry \<Rightarrow> MRUReplData)" where
  "MRU_reset curTick e d = d(e := (d e)\<lparr>mruLastTouchTick := curTick\<rparr>)"

fun MRU_scan :: "(entry \<Rightarrow> MRUReplData) \<Rightarrow> entry list \<Rightarrow> entry \<Rightarrow> entry" where
  "MRU_scan d [] victim = victim"
| "MRU_scan d (candidate # cs) victim =
     (if mruLastTouchTick (d candidate) = 0 then candidate
      else if mruLastTouchTick (d candidate) > mruLastTouchTick (d victim) then MRU_scan d cs candidate
      else MRU_scan d cs victim)"

definition MRU_getVictim :: "(entry \<Rightarrow> MRUReplData) \<Rightarrow> entry list \<Rightarrow> entry result" where
  "MRU_getVictim d candidates =
     bindR (assertR (candidates \<noteq> [])) (\<lambda>_. Inr (MRU_scan d candidates (hd candidates)))"

definition MRU_instantiateEntry :: MRUReplData where
  "MRU_instantiateEntry = \<lparr>mruLastTouchTick = 0\<rparr>"

section \<open>Least frequently used\<close>

record LFUReplData =
  refCount :: u32

definition LFU_invalidate :: "entry \<Rightarrow> (entry \<Rightarrow> LFUReplData) \<Rightarrow> (entry \<Rightarrow> LFUReplData)" where
  "LFU_invalidate e d = d(e := (d e)\<lparr>refCount := 0\<rparr>)"

definition LFU_touch :: "entry \<Rightarrow> (entry \<Rightarrow> LFUReplData) \<Rightarrow> (entry \<Rightarrow> LFUReplData)" where
  "LFU_touch e d = d(e := (d e)\<lparr>refCount := refCount (d e) + 1\<rparr>)"

definition LFU_reset :: "entry \<Rightarrow> (entry \<Rightarrow> LFUReplData) \<Rightarrow> (entry \<Rightarrow> LFUReplData)" where
  "LFU_reset e d = d(e := (d e)\<lparr>refCount := 1\<rparr>)"

definition LFU_getVictim :: "(entry \<Rightarrow> LFUReplData) \<Rightarrow> entry list \<Rightarrow> entry result" where
  "LFU_getVictim d = scan_victim (\<lambda>candidate victim. refCount (d candidate) < refCount (d victim))"

definition LFU_instantiateEntry :: LFUReplData where
  "LFU_instantiateEntry = \<lparr>refCount = 0\<rparr>"

section \<open>Weighted least recently used\<close>

record WeightedLRUReplData =
  last_occ_ptr :: int
  last_touch_tick :: tick

definition WLRU_touch ::
    "tick \<Rightarrow> entry \<Rightarrow> (entry \<Rightarrow> WeightedLRUReplData) \<Rightarrow> (entry \<Rightarrow> WeightedLRUReplData)" where
  "WLRU_touch curTick e d = d(e := (d e)\<lparr>last_touch_tick := curTick\<rparr>)"

definition WLRU_touch_occ ::
    "tick \<Rightarrow> int \<Rightarrow> entry \<Rightarrow> (entry \<Rightarrow> WeightedLRUReplData) \<Rightarrow> (entry \<Rightarrow> WeightedLRUReplData)" where
  "WLRU_touch_occ curTick occupancy e d =
     d(e := (d e)\<lparr>last_touch_tick := curTick, last_occ_ptr := occupancy\<rparr>)"

definition WLRU_better :: "(entry \<Rightarrow> WeightedLRUReplData) \<Rightarrow> entry \<Rightarrow> entry \<Rightarrow> bool" where
  "WLRU_better d candidate victim =
     (if last_occ_ptr (d candidate) < last_occ_ptr (d victim) then True
      else if last_occ_ptr (d candidate) = last_occ_ptr (d victim)
      then last_touch_tick (d candidate) < last_touch_tick (d victim)
      else False)"

definition WLRU_getVictim :: "(entry \<Rightarrow> WeightedLRUReplData) \<Rightarrow> entry list \<Rightarrow> entry result" where
  "WLRU_getVictim d = scan_victim (WLRU_better d)"

definition WLRU_reset ::
    "tick \<Rightarrow> entry \<Rightarrow> (entry \<Rightarrow> WeightedLRUReplData) \<Rightarrow> (entry \<Rightarrow> WeightedLRUReplData)" where
  "WLRU_reset curTick e d = d(e := (d e)\<lparr>last_touch_tick := curTick\<rparr>)"

definition WLRU_invalidate ::
    "entry \<Rightarrow> (entry \<Rightarrow> WeightedLRUReplData) \<Rightarrow> (entry \<Rightarrow> WeightedLRUReplData)" where
  "WLRU_invalidate e d = d(e := (d e)\<lparr>last_touch_tick := 0\<rparr>)"

definition WLRU_instantiateEntry :: WeightedLRUReplData where
  "WLRU_instantiateEntry = \<lparr>last_occ_ptr = 0, last_touch_tick = 0\<rparr>"

section \<open>Random\<close>

record RandomReplData =
  rnd_valid :: bool

definition Random_invalidate :: "entry \<Rightarrow> (entry \<Rightarrow> RandomReplData) \<Rightarrow> (entry \<Rightarrow> RandomReplData)" where
  "Random_invalidate e d = d(e := (d e)\<lparr>rnd_valid := False\<rparr>)"

definition Random_touch :: "entry \<Rightarrow> (entry \<Rightarrow> RandomReplData) \<Rightarrow> (entry \<Rightarrow> RandomReplData)" where
  "Random_touch e d = d"

definition Random_reset :: "entry \<Rightarrow> (entry \<Rightarrow> RandomReplData) \<Rightarrow> (entry \<Rightarrow> RandomReplData)" where
  "Random_reset e d = d(e := (d e)\<lparr>rnd_valid := True\<rparr>)"

text \<open>The draw is uniform between 0 and the last index, hence the bound the model checks.\<close>

definition Random_getVictim :: "nat \<Rightarrow> (entry \<Rightarrow> RandomReplData) \<Rightarrow> entry list \<Rightarrow> entry result" where
  "Random_getVictim random d candidates =
     bindR (assertR (candidates \<noteq> [])) (\<lambda>_.
       case find (\<lambda>candidate. \<not> rnd_valid (d candidate)) candidates of
         Some candidate \<Rightarrow> Inr candidate
       | None \<Rightarrow> if random < length candidates then Inr (candidates ! random) else Inl Undefined)"

definition Random_instantiateEntry :: RandomReplData where
  "Random_instantiateEntry = \<lparr>rnd_valid = False\<rparr>"

section \<open>Second chance\<close>

record SecondChanceReplData = FIFOReplData +
  hasSecondChance :: bool

type_synonym scstore = "entry \<Rightarrow> SecondChanceReplData"

definition useSecondChance :: "tick \<Rightarrow> entry \<Rightarrow> scstore \<Rightarrow> scstore" where
  "useSecondChance curTick e d =
     (let d1 = FIFO_reset curTick e d in d1(e := (d1 e)\<lparr>hasSecondChance := False\<rparr>))"

definition SC_invalidate :: "entry \<Rightarrow> scstore \<Rightarrow> scstore" where
  "SC_invalidate e d =
     (let d1 = FIFO_invalidate e d in d1(e := (d1 e)\<lparr>hasSecondChance := False\<rparr>))"

definition SC_touch :: "entry \<Rightarrow> scstore \<Rightarrow> scstore" where
  "SC_touch e d = (let d1 = FIFO_touch e d in d1(e := (d1 e)\<lparr>hasSecondChance := True\<rparr>))"

definition SC_reset :: "tick \<Rightarrow> entry \<Rightarrow> scstore \<Rightarrow> scstore" where
  "SC_reset curTick e d =
     (let d1 = FIFO_reset curTick e d in d1(e := (d1 e)\<lparr>hasSecondChance := False\<rparr>))"

text \<open>The \<open>while (search_victim)\<close> loop. Every round but the last takes a second chance away, so the
  loop ends.\<close>

lemma fold_pick: "fold (\<lambda>c v. if better c v then c else v) xs v0 \<in> insert v0 (set xs)"
  by (induction xs arbitrary: v0) auto

lemma scan_victim_in: "scan_victim better cs = Inr v \<Longrightarrow> v \<in> set cs"
  using fold_pick [of better cs "hd cs"]
  by (cases "cs = []") (auto simp: scan_victim_def)

function SC_search :: "tick \<Rightarrow> entry list \<Rightarrow> scstore \<Rightarrow> (entry \<times> scstore) result" where
  "SC_search curTick candidates d =
     (case FIFO_getVictim d candidates of
        Inl err \<Rightarrow> Inl err
      | Inr victim \<Rightarrow>
          if hasSecondChance (d victim)
          then SC_search curTick candidates (useSecondChance curTick victim d)
          else Inr (victim, d))"
  by pat_completeness auto

termination
proof (relation "measure (\<lambda>(t, cs, d). card {e \<in> set cs. hasSecondChance (d e)})")
  fix t cs and d :: scstore and v
  assume "FIFO_getVictim d cs = Inr v" and h: "hasSecondChance (d v)"
  then have v: "v \<in> set cs" by (auto simp: FIFO_getVictim_def dest: scan_victim_in)
  have "{e \<in> set cs. hasSecondChance (useSecondChance t v d e)} = {e \<in> set cs. hasSecondChance (d e)} - {v}"
    by (auto simp: useSecondChance_def FIFO_reset_def Let_def)
  then have "card {e \<in> set cs. hasSecondChance (useSecondChance t v d e)} < card {e \<in> set cs. hasSecondChance (d e)}"
    using v h by (simp only:) (intro psubset_card_mono, auto)
  then show "((t, cs, useSecondChance t v d), (t, cs, d)) \<in>
      measure (\<lambda>(t, cs, d). card {e \<in> set cs. hasSecondChance (d e)})" by simp
qed simp

definition SC_getVictim :: "tick \<Rightarrow> scstore \<Rightarrow> entry list \<Rightarrow> (entry \<times> scstore) result" where
  "SC_getVictim curTick d candidates =
     bindR (assertR (candidates \<noteq> [])) (\<lambda>_.
       case find (\<lambda>c. tickInserted (d c) = 0 \<and> \<not> hasSecondChance (d c)) candidates of
         Some candidate \<Rightarrow> Inr (candidate, d)
       | None \<Rightarrow> SC_search curTick candidates d)"

definition SC_instantiateEntry :: SecondChanceReplData where
  "SC_instantiateEntry = \<lparr>tickInserted = 0, hasSecondChance = False\<rparr>"

section \<open>Bimodal re-reference interval prediction\<close>

record BRRIPReplData =
  rrpv :: SatCounter
  brrip_valid :: bool

record BRRIP =
  numRRPVBits :: nat
  hitPriority :: bool
  brrip_btp :: nat

type_synonym brstore = "entry \<Rightarrow> BRRIPReplData"

definition BRRIP_new :: "nat \<Rightarrow> bool \<Rightarrow> nat \<Rightarrow> BRRIP result" where
  "BRRIP_new n h b = (if n = 0 then Inl Fatal else Inr \<lparr>numRRPVBits = n, hitPriority = h, brrip_btp = b\<rparr>)"

definition BRRIP_invalidate :: "entry \<Rightarrow> brstore \<Rightarrow> brstore" where
  "BRRIP_invalidate e d = d(e := (d e)\<lparr>brrip_valid := False\<rparr>)"

definition BRRIP_touch :: "BRRIP \<Rightarrow> entry \<Rightarrow> brstore \<Rightarrow> brstore" where
  "BRRIP_touch p e d =
     (if hitPriority p then d(e := (d e)\<lparr>rrpv := sc_reset (rrpv (d e))\<rparr>)
      else d(e := (d e)\<lparr>rrpv := sc_dec (rrpv (d e))\<rparr>))"

definition BRRIP_reset :: "BRRIP \<Rightarrow> nat \<Rightarrow> entry \<Rightarrow> brstore \<Rightarrow> brstore" where
  "BRRIP_reset p random e d =
     (let r1 = fst (sc_saturate (rrpv (d e)));
          r2 = if random \<le> brrip_btp p then sc_dec r1 else r1
      in d(e := (d e)\<lparr>rrpv := r2, brrip_valid := True\<rparr>))"

text \<open>The search loop returns \<open>Inl\<close> an invalid candidate, or \<open>Inr\<close> the candidate with the greatest
  RRPV (the first of them).\<close>

fun BRRIP_scan :: "brstore \<Rightarrow> entry list \<Rightarrow> entry \<Rightarrow> u8 \<Rightarrow> entry + entry" where
  "BRRIP_scan d [] victim victim_RRPV = Inr victim"
| "BRRIP_scan d (candidate # cs) victim victim_RRPV =
     (if \<not> brrip_valid (d candidate) then Inl candidate
      else if sc_counter (rrpv (d candidate)) > victim_RRPV
      then BRRIP_scan d cs candidate (sc_counter (rrpv (d candidate)))
      else BRRIP_scan d cs victim victim_RRPV)"

definition BRRIP_age :: "int \<Rightarrow> entry \<Rightarrow> brstore \<Rightarrow> brstore" where
  "BRRIP_age diff e d = d(e := (d e)\<lparr>rrpv := sc_add diff (rrpv (d e))\<rparr>)"

definition BRRIP_getVictim :: "brstore \<Rightarrow> entry list \<Rightarrow> (entry \<times> brstore) result" where
  "BRRIP_getVictim d candidates =
     bindR (assertR (candidates \<noteq> [])) (\<lambda>_.
       case BRRIP_scan d candidates (hd candidates) (sc_counter (rrpv (d (hd candidates)))) of
         Inl candidate \<Rightarrow> Inr (candidate, d)
       | Inr victim \<Rightarrow>
           let (r, diff) = sc_saturate (rrpv (d victim));
               d1 = d(victim := (d victim)\<lparr>rrpv := r\<rparr>)
           in Inr (victim,
                if uint diff > 0 then fold (BRRIP_age (uint diff)) candidates d1 else d1))"

definition BRRIP_instantiateEntry :: "BRRIP \<Rightarrow> BRRIPReplData result" where
  "BRRIP_instantiateEntry p =
     bindR (SatCounter_new (numRRPVBits p) 0) (\<lambda>c. Inr \<lparr>rrpv = c, brrip_valid = False\<rparr>)"

section \<open>Tree pseudo-LRU\<close>

text \<open>Tree indices are \<open>uint64_t\<close>; they stay below twice the number of leaves, so natural numbers
  stand for them, except that the parent of node 0 wraps around. \<open>at()\<close> throws when the index is
  out of range.\<close>

record TreePLRUReplData =
  plru_index :: nat
  plru_tree :: nat

record TreePLRU =
  numLeaves :: nat
  plru_count :: nat
  plru_trees :: "nat \<Rightarrow> bool list"
  plru_data :: "entry \<Rightarrow> TreePLRUReplData"

definition parentIndex :: "nat \<Rightarrow> nat" where
  "parentIndex index = (if index = 0 then (2 ^ 64 - 1) div 2 else (index - 1) div 2)"

definition leftSubtreeIndex :: "nat \<Rightarrow> nat" where
  "leftSubtreeIndex index = 2 * index + 1"

definition rightSubtreeIndex :: "nat \<Rightarrow> nat" where
  "rightSubtreeIndex index = 2 * index + 2"

definition isRightSubtree :: "nat \<Rightarrow> bool" where
  "isRightSubtree index \<longleftrightarrow> index mod 2 = 0"

definition TreePLRU_new :: "nat \<Rightarrow> TreePLRU result" where
  "TreePLRU_new n =
     (if \<not> isPowerOf2 (of_nat n) then Inl Fatal
      else Inr \<lparr>numLeaves = n, plru_count = 0, plru_trees = (\<lambda>_. []), plru_data = (\<lambda>_. \<lparr>plru_index = 0, plru_tree = 0\<rparr>)\<rparr>)"

text \<open>The \<open>do ... while\<close> loop of \<open>invalidate\<close> (\<open>toward\<close> is true) and of \<open>touch\<close> (it is false).\<close>

function plru_update :: "bool \<Rightarrow> nat \<Rightarrow> bool list \<Rightarrow> bool list result" where
  "plru_update toward tree_index tree =
     (let right = isRightSubtree tree_index;
          p = parentIndex tree_index
      in if p \<ge> length tree then Inl Exception
         else let tree' = tree[p := (if toward then right else \<not> right)]
              in if p \<noteq> 0 then plru_update toward p tree' else Inr tree')"
  by pat_completeness auto

termination
  by (relation "measure (\<lambda>(_, i, _). if i = 0 then 2 ^ 64 else i)") (auto simp: parentIndex_def)

definition TreePLRU_invalidate :: "entry \<Rightarrow> TreePLRU \<Rightarrow> TreePLRU result" where
  "TreePLRU_invalidate e st =
     (let t = plru_tree (plru_data st e) in
      bindR (plru_update True (plru_index (plru_data st e)) (plru_trees st t)) (\<lambda>tree.
        Inr (st\<lparr>plru_trees := (plru_trees st)(t := tree)\<rparr>)))"

definition TreePLRU_touch :: "entry \<Rightarrow> TreePLRU \<Rightarrow> TreePLRU result" where
  "TreePLRU_touch e st =
     (let t = plru_tree (plru_data st e) in
      bindR (plru_update False (plru_index (plru_data st e)) (plru_trees st t)) (\<lambda>tree.
        Inr (st\<lparr>plru_trees := (plru_trees st)(t := tree)\<rparr>)))"

definition TreePLRU_reset :: "entry \<Rightarrow> TreePLRU \<Rightarrow> TreePLRU result" where
  "TreePLRU_reset e st = TreePLRU_touch e st"

function plru_descend :: "bool list \<Rightarrow> nat \<Rightarrow> nat" where
  "plru_descend tree tree_index =
     (if tree_index < length tree
      then plru_descend tree
             (if tree ! tree_index then rightSubtreeIndex tree_index else leftSubtreeIndex tree_index)
      else tree_index)"
  by pat_completeness auto

termination
  by (relation "measure (\<lambda>(t, i). length t - i)") (auto simp: rightSubtreeIndex_def leftSubtreeIndex_def)

definition TreePLRU_getVictim :: "TreePLRU \<Rightarrow> entry list \<Rightarrow> entry result" where
  "TreePLRU_getVictim st candidates =
     bindR (assertR (candidates \<noteq> [])) (\<lambda>_.
       let tree = plru_trees st (plru_tree (plru_data st (hd candidates)));
           i = plru_descend tree 0 - (numLeaves st - 1)
       in if i < length candidates then Inr (candidates ! i) else Inl Undefined)"

text \<open>Trees are numbered by the instantiation that created them.\<close>

definition TreePLRU_instantiateEntry :: "entry \<Rightarrow> TreePLRU \<Rightarrow> TreePLRU" where
  "TreePLRU_instantiateEntry e st =
     (let t = plru_count st div numLeaves st;
          st1 = (if plru_count st mod numLeaves st = 0
                 then st\<lparr>plru_trees := (plru_trees st)(t := replicate (numLeaves st - 1) False)\<rparr>
                 else st)
      in st1\<lparr>plru_data := (plru_data st1)(e :=
                \<lparr>plru_index = plru_count st mod numLeaves st + numLeaves st - 1, plru_tree = t\<rparr>),
             plru_count := plru_count st + 1\<rparr>)"

declare SC_search.simps [simp del] plru_update.simps [simp del] plru_descend.simps [simp del]

section \<open>The contract of a policy\<close>

text \<open>The tag store relies on this: for a nonempty list of candidates a policy answers with one of
  them. \<open>ok\<close> is what a policy needs of its replacement data.\<close>

locale replacement_policy =
  fixes ok :: "'d \<Rightarrow> entry list \<Rightarrow> bool"
    and getVictim :: "'d \<Rightarrow> entry list \<Rightarrow> (entry \<times> 'd) result"
  assumes returns: "ok d cs \<Longrightarrow> cs \<noteq> [] \<Longrightarrow> \<exists>v d'. getVictim d cs = Inr (v, d')"
    and member: "getVictim d cs = Inr (v, d') \<Longrightarrow> v \<in> set cs"
    and no_candidate: "getVictim d [] = Inl AssertFailed"
begin

lemma victim_exactly:
  "ok d cs \<Longrightarrow> (case getVictim d cs of Inr (v, d') \<Rightarrow> v \<in> set cs | Inl err \<Rightarrow> cs = [] \<and> err = AssertFailed)"
  using returns [of d cs] member [of d cs] no_candidate [of d] by (cases "cs = []") auto

lemma single_candidate: "ok d [c] \<Longrightarrow> \<exists>d'. getVictim d [c] = Inr (c, d')"
  using returns [of d "[c]"] member [of d "[c]"] by fastforce

end

text \<open>Most policies do not change their data when they are asked for a victim.\<close>

definition keep :: "('d \<Rightarrow> entry list \<Rightarrow> entry result) \<Rightarrow> 'd \<Rightarrow> entry list \<Rightarrow> (entry \<times> 'd) result" where
  "keep f d cs = bindR (f d cs) (\<lambda>v. Inr (v, d))"

lemma scan_victim_returns: "cs \<noteq> [] \<Longrightarrow> \<exists>v. scan_victim better cs = Inr v"
  by (simp add: scan_victim_def)

lemma scan_victim_empty: "scan_victim better [] = Inl AssertFailed"
  by (simp add: scan_victim_def)

lemma fold_pick_least:
  fixes key :: "entry \<Rightarrow> 'k::linorder"
  assumes "\<And>c v. better c v \<longleftrightarrow> key c < key v" "c \<in> insert v0 (set xs)"
  shows "key (fold (\<lambda>c v. if better c v then c else v) xs v0) \<le> key c"
  using assms(2)
proof (induction xs arbitrary: v0 c)
  case (Cons x xs)
  let ?v = "if better x v0 then x else v0"
  have "key ?v \<le> key v0" "key ?v \<le> key x" using assms(1) by (auto simp: not_less less_imp_le)
  moreover have "key (fold (\<lambda>c v. if better c v then c else v) xs ?v) \<le> key ?v"
    using Cons.IH [of ?v ?v] by simp
  ultimately have "key (fold (\<lambda>c v. if better c v then c else v) xs ?v) \<le> key v0"
    "key (fold (\<lambda>c v. if better c v then c else v) xs ?v) \<le> key x" by (meson order_trans)+
  then show ?case using Cons.prems Cons.IH [of c ?v] by auto
qed simp

lemma scan_victim_least:
  fixes key :: "entry \<Rightarrow> 'k::linorder"
  assumes "\<And>c v. better c v \<longleftrightarrow> key c < key v" "scan_victim better cs = Inr v" "c \<in> set cs"
  shows "key v \<le> key c"
  using fold_pick_least [of better key c "hd cs" cs] assms
  by (cases "cs = []") (auto simp: scan_victim_def)

lemma MRU_scan_in: "MRU_scan d cs v \<in> insert v (set cs)"
  by (induction d cs v rule: MRU_scan.induct) auto

interpretation lru: replacement_policy "\<lambda>_ _. True" "keep LRU_getVictim"
  by unfold_locales
    (auto simp: keep_def LRU_getVictim_def bindR_Inr_iff scan_victim_empty dest: scan_victim_returns scan_victim_in)

interpretation fifo: replacement_policy "\<lambda>_ _. True" "keep FIFO_getVictim"
  by unfold_locales
    (auto simp: keep_def FIFO_getVictim_def bindR_Inr_iff scan_victim_empty dest: scan_victim_returns scan_victim_in)

interpretation lfu: replacement_policy "\<lambda>_ _. True" "keep LFU_getVictim"
  by unfold_locales
    (auto simp: keep_def LFU_getVictim_def bindR_Inr_iff scan_victim_empty dest: scan_victim_returns scan_victim_in)

interpretation wlru: replacement_policy "\<lambda>_ _. True" "keep WLRU_getVictim"
  by unfold_locales
    (auto simp: keep_def WLRU_getVictim_def bindR_Inr_iff scan_victim_empty dest: scan_victim_returns scan_victim_in)

interpretation mru: replacement_policy "\<lambda>_ _. True" "keep MRU_getVictim"
proof
  fix d cs v d'
  assume "keep MRU_getVictim d cs = Inr (v, d')"
  then show "v \<in> set cs"
    using MRU_scan_in [of d cs "hd cs"] by (cases cs) (auto simp: keep_def MRU_getVictim_def)
qed (auto simp: keep_def MRU_getVictim_def)

interpretation rnd: replacement_policy "\<lambda>_ cs. r < length cs" "keep (Random_getVictim r)" for r
proof
  fix d cs v d'
  assume "keep (Random_getVictim r) d cs = Inr (v, d')"
  then show "v \<in> set cs"
    by (auto simp: keep_def Random_getVictim_def bindR_Inr_iff find_Some_iff split: option.splits if_splits)
qed (auto simp: keep_def Random_getVictim_def split: option.splits)

section \<open>Second chance returns\<close>

lemma FIFO_getVictim_returns: "cs \<noteq> [] \<Longrightarrow> \<exists>v. FIFO_getVictim d cs = Inr v"
  by (simp add: FIFO_getVictim_def scan_victim_returns)

lemma SC_search_returns:
  "cs \<noteq> [] \<Longrightarrow> \<exists>v d'. SC_search t cs d = Inr (v, d') \<and> v \<in> set cs \<and> \<not> hasSecondChance (d' v)"
proof (induction t cs d rule: SC_search.induct)
  case (1 t cs d)
  obtain v where v: "FIFO_getVictim d cs = Inr v" using FIFO_getVictim_returns [OF 1(2)] by blast
  then have "v \<in> set cs" by (auto simp: FIFO_getVictim_def dest: scan_victim_in)
  with v 1 show ?case
    by (subst SC_search.simps) (cases "hasSecondChance (d v)", simp_all add: SC_search.simps [of t cs d])
qed

lemma SC_getVictim_returns:
  assumes "cs \<noteq> []"
  shows "\<exists>v d'. SC_getVictim t d cs = Inr (v, d') \<and> v \<in> set cs \<and> \<not> hasSecondChance (d' v)"
proof (cases "find (\<lambda>c. tickInserted (d c) = 0 \<and> \<not> hasSecondChance (d c)) cs")
  case None
  then show ?thesis using assms SC_search_returns by (simp add: SC_getVictim_def)
next
  case (Some c)
  then have "c \<in> set cs" "\<not> hasSecondChance (d c)" by (auto simp: find_Some_iff)
  with Some show ?thesis using assms by (simp add: SC_getVictim_def)
qed

interpretation sc: replacement_policy "\<lambda>_ _. True" "SC_getVictim t" for t
proof
  fix d cs v d'
  assume v: "SC_getVictim t d cs = Inr (v, d')"
  then have "cs \<noteq> []" by (auto simp: SC_getVictim_def)
  with SC_getVictim_returns [OF this, of t d] v show "v \<in> set cs" by auto
next
  fix d cs
  show "cs \<noteq> [] \<Longrightarrow> \<exists>v d'. SC_getVictim t d cs = Inr (v, d')" using SC_getVictim_returns by blast
qed (simp add: SC_getVictim_def)

section \<open>Tree pseudo-LRU\<close>

lemma plru_descend_beyond: "length tree \<le> plru_descend tree i"
  by (induction tree i rule: plru_descend.induct) (subst plru_descend.simps, auto)

lemma plru_descend_bound: "i \<le> 2 * length tree \<Longrightarrow> plru_descend tree i \<le> 2 * length tree"
  by (induction tree i rule: plru_descend.induct)
    (subst plru_descend.simps, auto simp: leftSubtreeIndex_def rightSubtreeIndex_def)

text \<open>A descent only reads nodes at or after the one it starts from.\<close>

lemma plru_descend_update:
  "p < i \<Longrightarrow> plru_descend (tree[p := b]) i = plru_descend tree i"
proof (induction tree i rule: plru_descend.induct)
  case (1 tree i)
  let ?n = "if tree ! i then rightSubtreeIndex i else leftSubtreeIndex i"
  show ?case
  proof (cases "i < length tree")
    case True
    have "p < ?n" using 1(2) by (auto simp: leftSubtreeIndex_def rightSubtreeIndex_def)
    then have "plru_descend (tree[p := b]) ?n = plru_descend tree ?n" using 1(1) True by blast
    then show ?thesis using True 1(2)
      by (subst (1 2) plru_descend.simps) (simp add: nth_list_update_neq)
  qed (simp add: plru_descend.simps)
qed

lemma parent_child:
  assumes "0 < i"
  shows "i = (if isRightSubtree i then rightSubtreeIndex (parentIndex i) else leftSubtreeIndex (parentIndex i))"
    "parentIndex i < i"
  using assms
  by (auto simp: isRightSubtree_def rightSubtreeIndex_def leftSubtreeIndex_def parentIndex_def; presburger)+

text \<open>Pointing every ancestor of a leaf toward it makes the descent from the root end there.\<close>

lemma plru_update_toward:
  assumes "0 < i" "i \<le> 2 * length tree"
  shows "\<exists>tree'. plru_update True i tree = Inr tree' \<and> length tree' = length tree \<and>
           plru_descend tree' 0 = plru_descend tree i"
  using assms
proof (induction i arbitrary: tree rule: less_induct)
  case (less i)
  let ?p = "parentIndex i" let ?r = "isRightSubtree i"
  let ?t = "tree[?p := ?r]"
  have i: "i = (if ?r then rightSubtreeIndex ?p else leftSubtreeIndex ?p)" "?p < i"
    using parent_child [OF less(2)] by auto
  have p: "?p < length tree" using less(2,3) by (auto simp: parentIndex_def)
  then have down: "plru_descend ?t ?p = plru_descend tree i"
    using i plru_descend_update [OF i(2)] by (subst plru_descend.simps) simp
  show ?case
  proof (cases "?p = 0")
    case True
    then show ?thesis using p down by (subst plru_update.simps) (simp add: Let_def)
  next
    case False
    then obtain tree' where "plru_update True ?p ?t = Inr tree'" "length tree' = length ?t"
      "plru_descend tree' 0 = plru_descend ?t ?p"
      using less(1) [of ?p ?t] i(2) p by auto
    with False p down show ?thesis by (subst plru_update.simps) (simp add: Let_def)
  qed
qed

text \<open>\<open>below d s x\<close>: node \<open>x\<close> lies \<open>d\<close> levels below \<open>s\<close>.\<close>

definition below :: "nat \<Rightarrow> nat \<Rightarrow> nat \<Rightarrow> bool" where
  "below d s x \<longleftrightarrow> Suc x div 2 ^ d = Suc s"

lemma below_parent: "below d i x \<Longrightarrow> 0 < i \<Longrightarrow> below (Suc d) (parentIndex i) x"
proof -
  assume "below d i x" and i: "0 < i"
  then have "Suc x div 2 ^ Suc d = Suc i div 2"
    by (simp add: below_def power_Suc2 div_mult2_eq del: power_Suc)
  also have "Suc i div 2 = Suc (parentIndex i)" using i by (simp add: parentIndex_def)
  finally show ?thesis by (simp add: below_def)
qed

lemma plru_descend_below: "\<exists>d. below d i (plru_descend tree i)"
proof (induction tree i rule: plru_descend.induct)
  case (1 tree i)
  show ?case
  proof (cases "i < length tree")
    case True
    let ?n = "if tree ! i then rightSubtreeIndex i else leftSubtreeIndex i"
    obtain d where d: "below d ?n (plru_descend tree ?n)" using 1 True by blast
    have n: "0 < ?n" "parentIndex ?n = i"
      by (auto simp: rightSubtreeIndex_def leftSubtreeIndex_def parentIndex_def)
    have "below (Suc d) i (plru_descend tree ?n)" using below_parent [OF d n(1)] n(2) by simp
    then show ?thesis using True by (subst plru_descend.simps) auto
  next
    case False
    then show ?thesis by (subst plru_descend.simps) (auto simp: below_def intro!: exI [of _ 0])
  qed
qed

lemma below_siblings: "below d (leftSubtreeIndex 0) x \<Longrightarrow> \<not> below d' (rightSubtreeIndex 0) x"
proof
  assume a: "below d (leftSubtreeIndex 0) x" and b: "below d' (rightSubtreeIndex 0) x"
  then have A: "Suc x div 2 ^ d = 2" and B: "Suc x div 2 ^ d' = 3"
    by (auto simp: below_def leftSubtreeIndex_def rightSubtreeIndex_def)
  have shift: "y div 2 ^ (k + j) = y div 2 ^ k div 2 ^ j" for y k j :: nat
    by (simp add: power_add div_mult2_eq)
  have small: "z div 2 ^ j \<le> 1" if z: "z \<le> 3" and j: "0 < j" for z j :: nat
  proof -
    obtain j' where "j = Suc j'" using j by (cases j) auto
    then have "z div 2 ^ j = z div 2 div 2 ^ j'" using div_mult2_eq by simp
    also have "\<dots> \<le> z div 2" by simp
    finally show ?thesis using z by linarith
  qed
  consider "d = d'" | "d < d'" | "d' < d" by linarith
  then show False
  proof cases
    case 2
    then show False using A B shift [of "Suc x" d "d' - d"] small [of 2 "d' - d"] by simp
  next
    case 3
    then show False using A B shift [of "Suc x" d' "d - d'"] small [of 3 "d - d'"] by simp
  qed (use A B in simp)
qed

lemma plru_update_away:
  assumes "0 < i" "i \<le> 2 * length tree" "below d i leaf"
  shows "\<exists>tree'. plru_update False i tree = Inr tree' \<and> length tree' = length tree \<and>
           plru_descend tree' 0 \<noteq> leaf"
  using assms
proof (induction i arbitrary: tree d rule: less_induct)
  case (less i)
  let ?p = "parentIndex i" let ?t = "tree[?p := \<not> isRightSubtree i]"
  have i: "i = (if isRightSubtree i then rightSubtreeIndex ?p else leftSubtreeIndex ?p)" "?p < i"
    using parent_child [OF less(2)] by auto
  have p: "?p < length tree" using less(2,3) by (auto simp: parentIndex_def)
  show ?case
  proof (cases "?p = 0")
    case True
    let ?s = "if isRightSubtree i then leftSubtreeIndex 0 else rightSubtreeIndex 0"
    have "plru_descend ?t 0 = plru_descend ?t ?s" using p True by (subst plru_descend.simps) simp
    moreover obtain d' where "below d' ?s (plru_descend ?t ?s)" using plru_descend_below by blast
    moreover have "below d (if isRightSubtree i then rightSubtreeIndex 0 else leftSubtreeIndex 0) leaf"
      using less(4) i(1) True by metis
    ultimately have "plru_descend ?t 0 \<noteq> leaf"
      using below_siblings by (cases "isRightSubtree i") auto
    then show ?thesis using p True by (subst plru_update.simps) (simp add: Let_def)
  next
    case False
    have "below (Suc d) ?p leaf" using below_parent less(2,4) by blast
    then obtain tree' where "plru_update False ?p ?t = Inr tree'" "length tree' = length ?t"
      "plru_descend tree' 0 \<noteq> leaf"
      using less(1) [of ?p ?t "Suc d"] i(2) p False by auto
    with False p show ?thesis by (subst plru_update.simps) (simp add: Let_def)
  qed
qed

text \<open>The entries of one tree: \<open>numLeaves\<close> candidates in the order in which they were instantiated.\<close>

definition plru_set :: "TreePLRU \<Rightarrow> entry list \<Rightarrow> bool" where
  "plru_set st cs \<longleftrightarrow>
     length cs = numLeaves st \<and> 1 < numLeaves st \<and>
     length (plru_trees st (plru_tree (plru_data st (hd cs)))) = numLeaves st - 1 \<and>
     (\<forall>j < length cs. plru_tree (plru_data st (cs ! j)) = plru_tree (plru_data st (hd cs)) \<and>
                      plru_index (plru_data st (cs ! j)) = j + numLeaves st - 1)"

lemma plru_victim_index:
  "length tree = n - 1 \<Longrightarrow> 1 < n \<Longrightarrow> plru_descend tree 0 - (n - 1) < n"
  using plru_descend_bound [of 0 tree] by simp

interpretation plru: replacement_policy plru_set "keep TreePLRU_getVictim"
proof
  fix st cs
  assume "plru_set st cs" "cs \<noteq> []"
  then show "\<exists>v d'. keep TreePLRU_getVictim st cs = Inr (v, d')"
    using plru_victim_index
    by (auto simp: plru_set_def keep_def TreePLRU_getVictim_def Let_def)
qed (auto simp: keep_def TreePLRU_getVictim_def bindR_Inr_iff Let_def split: if_splits)

section \<open>Re-reference interval prediction\<close>

lemma BRRIP_scan_in: "case BRRIP_scan d cs v r of Inl c \<Rightarrow> c \<in> set cs | Inr c \<Rightarrow> c \<in> insert v (set cs)"
  by (induction d cs v r rule: BRRIP_scan.induct) (auto split: sum.splits)

lemma BRRIP_scan_valid:
  assumes "\<forall>c \<in> set cs. brrip_valid (d c)" "r = sc_counter (rrpv (d v))"
  shows "\<exists>w. BRRIP_scan d cs v r = Inr w \<and> w \<in> insert v (set cs) \<and>
           (\<forall>c \<in> insert v (set cs). sc_counter (rrpv (d c)) \<le> sc_counter (rrpv (d w)))"
  using assms
proof (induction d cs v r rule: BRRIP_scan.induct)
  case (2 d c cs v r)
  show ?case
  proof (cases "sc_counter (rrpv (d c)) > r")
    case True
    with 2(1) 2(3,4) obtain w where "BRRIP_scan d (c # cs) v r = Inr w" "w \<in> insert c (set cs)"
      "\<forall>x \<in> insert c (set cs). sc_counter (rrpv (d x)) \<le> sc_counter (rrpv (d w))" by auto
    moreover from this True 2(4) have "sc_counter (rrpv (d v)) \<le> sc_counter (rrpv (d w))"
      by (meson insertI1 less_imp_le order_trans)
    ultimately show ?thesis by auto
  next
    case False
    with 2(2) 2(3,4) obtain w where "BRRIP_scan d (c # cs) v r = Inr w" "w \<in> insert v (set cs)"
      "\<forall>x \<in> insert v (set cs). sc_counter (rrpv (d x)) \<le> sc_counter (rrpv (d w))" by auto
    moreover from this False 2(4) have "sc_counter (rrpv (d c)) \<le> sc_counter (rrpv (d w))"
      by (meson insertI1 not_less order_trans)
    ultimately show ?thesis by auto
  qed
qed auto

lemma fold_BRRIP_age:
  "distinct cs \<Longrightarrow> fold (BRRIP_age n) cs d e =
     (if e \<in> set cs then (d e)\<lparr>rrpv := sc_add n (rrpv (d e))\<rparr> else d e)"
  by (induction cs arbitrary: d) (auto simp: BRRIP_age_def)

interpretation brrip: replacement_policy "\<lambda>_ _. True" BRRIP_getVictim
proof
  fix d cs v d'
  assume v: "BRRIP_getVictim d cs = Inr (v, d')"
  then have "cs \<noteq> []" by (auto simp: BRRIP_getVictim_def)
  with v BRRIP_scan_in [where d = d and cs = cs and v = "hd cs" and r = "sc_counter (rrpv (d (hd cs)))"] show "v \<in> set cs"
    by (auto simp: BRRIP_getVictim_def Let_def split: sum.splits prod.splits)
qed (auto simp: BRRIP_getVictim_def Let_def split: sum.splits prod.splits)

section \<open>Properties\<close>

text \<open>C37: Tree pseudo-LRU. In a set of \<open>numLeaves\<close> entries, an entry that was just invalidated is the
  next victim, and an entry that was just touched is not.\<close>

theorem tree_plru_victim:
  assumes "plru_set st cs" "j < length cs"
  shows "(\<exists>st'. TreePLRU_invalidate (cs ! j) st = Inr st' \<and> TreePLRU_getVictim st' cs = Inr (cs ! j)) \<and>
         (\<exists>st' k. TreePLRU_touch (cs ! j) st = Inr st' \<and> TreePLRU_getVictim st' cs = Inr (cs ! k) \<and>
                  k < length cs \<and> k \<noteq> j)"
proof -
  define t where "t = plru_tree (plru_data st (hd cs))"
  define tree where "tree = plru_trees st t"
  define i where "i = j + numLeaves st - 1"
  have n: "length cs = numLeaves st" "1 < numLeaves st" "length tree = numLeaves st - 1" "cs \<noteq> []"
    and e: "plru_tree (plru_data st (cs ! j)) = t" "plru_index (plru_data st (cs ! j)) = i"
    using assms by (auto simp: plru_set_def t_def tree_def i_def)
  have i: "0 < i" "i \<le> 2 * length tree" "plru_descend tree i = i"
    using assms(2) n by (auto simp: i_def plru_descend.simps)
  obtain t1 where t1: "plru_update True i tree = Inr t1" "plru_descend t1 0 = i"
    using plru_update_toward [OF i(1,2)] i(3) by auto
  obtain t2 where t2: "plru_update False i tree = Inr t2" "length t2 = length tree" "plru_descend t2 0 \<noteq> i"
    using plru_update_away [OF i(1,2), of 0 i] by (auto simp: below_def)
  have victim: "TreePLRU_getVictim (st\<lparr>plru_trees := (plru_trees st)(t := t')\<rparr>) cs =
      Inr (cs ! (plru_descend t' 0 - (numLeaves st - 1)))" if "length t' = length tree" for t'
    using n plru_victim_index [of t' "numLeaves st"] that
    by (simp add: TreePLRU_getVictim_def flip: t_def)
  have "length t1 = length tree" using plru_update_toward [OF i(1,2)] t1(1) by auto
  from victim [OF this] have "TreePLRU_getVictim (st\<lparr>plru_trees := (plru_trees st)(t := t1)\<rparr>) cs = Inr (cs ! j)"
    using t1(2) n by (simp add: i_def)
  moreover have "plru_descend t2 0 - (numLeaves st - 1) \<noteq> j"
    using t2 n plru_descend_beyond [of t2 0] by (auto simp: i_def)
  moreover note victim [OF t2(2)] plru_victim_index [of t2 "numLeaves st"]
  ultimately show ?thesis using e t1(1) t2 n
    by (auto simp: TreePLRU_invalidate_def TreePLRU_touch_def Let_def simp flip: tree_def)
qed

text \<open>C38: The second-chance search always ends, with a candidate that has no second chance left.\<close>

theorem second_chance_returns:
  assumes "cs \<noteq> []"
  shows "\<exists>v d'. SC_getVictim t d cs = Inr (v, d') \<and> v \<in> set cs \<and> \<not> hasSecondChance (d' v)"
  using SC_getVictim_returns [OF assms] .

text \<open>C39: LRU evicts the least recently used candidate. After a sequence of accesses at increasing
  positive ticks, if the victim was accessed at all then every other candidate has been accessed
  after the victim's last access.\<close>

theorem lru_evicts_least_recent:
  assumes "sorted_wrt (<) (0 # map fst ops)" "ops = xs @ (t, v) # ys" "v \<notin> snd ` set ys"
    and "LRU_getVictim (fold (\<lambda>(t, e). LRU_touch t e) ops (\<lambda>_. LRU_instantiateEntry)) cs = Inr v"
    and "c \<in> set cs" "c \<noteq> v"
  shows "c \<in> snd ` set ys"
proof (rule ccontr)
  let ?d = "\<lambda>os. fold (\<lambda>(t, e). LRU_touch t e) os (\<lambda>_. LRU_instantiateEntry)"
  have frame: "fold (\<lambda>(t, e). LRU_touch t e) os d e = d e" if "e \<notin> snd ` set os" for os d e
    using that by (induction os arbitrary: d) (auto simp: LRU_touch_def)
  have bound: "lastTouchTick (?d os e) \<in> insert 0 (fst ` set os)" for os e
    by (induction os rule: rev_induct)
      (auto simp: LRU_touch_def LRU_instantiateEntry_def image_iff split: prod.splits)
  assume c: "c \<notin> snd ` set ys"
  have "lastTouchTick (?d ops v) = t"
    using assms(2,3) frame [of v ys] by (simp add: LRU_touch_def)
  moreover have "?d ops c = ?d xs c"
    using assms(2,6) c frame [of c ys] by (simp add: LRU_touch_def)
  then have "lastTouchTick (?d ops c) < t"
    using bound [of xs c] assms(1,2) by (auto simp: sorted_wrt_append)
  moreover have "lastTouchTick (?d ops v) \<le> lastTouchTick (?d ops c)"
    using assms(4,5) scan_victim_least [of _ "\<lambda>e. lastTouchTick (?d ops e)"]
    by (simp add: LRU_getVictim_def)
  ultimately show False by simp
qed

text \<open>Aging in BRRIP. If all candidates are valid, the victim has the greatest re-reference value,
  and afterwards every candidate's value has grown by the same amount, the victim's to the maximum,
  so the relative order of the candidates is kept and no counter leaves its range.\<close>

theorem brrip_ages_uniformly:
  assumes "cs \<noteq> []" "distinct cs"
    and "\<forall>c \<in> set cs. brrip_valid (d c) \<and> sc_ok (rrpv (d c)) \<and> sc_maxVal (rrpv (d c)) = M"
  shows "\<exists>v d'. BRRIP_getVictim d cs = Inr (v, d') \<and> v \<in> set cs \<and>
           (\<forall>c \<in> set cs. sc_counter (rrpv (d c)) \<le> sc_counter (rrpv (d v)) \<and> sc_ok (rrpv (d' c)) \<and>
              uint (sc_counter (rrpv (d' c))) =
                uint (sc_counter (rrpv (d c))) + (uint M - uint (sc_counter (rrpv (d v)))))"
proof -
  let ?n = "\<lambda>c. uint (sc_counter (rrpv (d c)))"
  obtain v where v: "BRRIP_scan d cs (hd cs) (sc_counter (rrpv (d (hd cs)))) = Inr v" "v \<in> set cs"
      "\<forall>c \<in> set cs. sc_counter (rrpv (d c)) \<le> sc_counter (rrpv (d v))"
    using BRRIP_scan_valid [of cs d "sc_counter (rrpv (d (hd cs)))" "hd cs"] assms
    by (auto simp: insert_absorb)
  define r where "r = fst (sc_saturate (rrpv (d v)))"
  define k where "k = snd (sc_saturate (rrpv (d v)))"
  define d1 where "d1 = d(v := (d v)\<lparr>rrpv := r\<rparr>)"
  define d' where "d' = (if uint k > 0 then fold (BRRIP_age (uint k)) cs d1 else d1)"
  have k: "uint k = uint M - ?n v" using assms(3) v(2) sc_saturate_diff by (auto simp: k_def)
  have r: "sc_counter r = M" "sc_maxVal r = M" "sc_ok r"
    using assms(3) v(2) sc_ok_ops(4) by (auto simp: r_def sc_saturate_def)
  have d1: "sc_ok (rrpv (d1 c))" "sc_maxVal (rrpv (d1 c)) = M"
      "uint (sc_counter (rrpv (d1 c))) = (if c = v then uint M else ?n c)" if "c \<in> set cs" for c
    using that assms(3) r by (auto simp: d1_def)
  have le: "?n c \<le> ?n v" if "c \<in> set cs" for c using v(3) that by (simp add: word_le_def)
  have "sc_ok (rrpv (d' c)) \<and> uint (sc_counter (rrpv (d' c))) = ?n c + (uint M - ?n v)"
    if c: "c \<in> set cs" for c
  proof (cases "uint k > 0")
    case True
    then have eq: "rrpv (d' c) = sc_add (uint k) (rrpv (d1 c))"
      using fold_BRRIP_age [OF assms(2)] c by (simp add: d'_def)
    moreover have "uint (sc_counter (sc_add (uint k) (rrpv (d1 c)))) =
        min (uint M) ((if c = v then uint M else ?n c) + uint k)"
      using sc_add_nonneg_value [OF _ d1(1) [OF c], of "uint k"] d1(2,3) [OF c] by (simp add: sc_add_def)
    ultimately show ?thesis
      using sc_add_ok [OF d1(1) [OF c], of "uint k"] le [OF c] True k by auto
  next
    case False
    then have "uint M = ?n v" "d' = d1" using k le [OF v(2)] uint_ge_0 [of k] by (auto simp: d'_def)
    then show ?thesis using d1 [OF c] by auto
  qed
  moreover have "BRRIP_getVictim d cs = Inr (v, d')"
    using assms(1) v(1) by (simp add: BRRIP_getVictim_def d'_def d1_def r_def k_def case_prod_unfold Let_def)
  ultimately show ?thesis using v(2,3) by blast
qed

section \<open>Witnesses\<close>

definition plru4 :: TreePLRU where
  "plru4 = fold TreePLRU_instantiateEntry [10, 11, 12, 13] (projr (TreePLRU_new 4))"

theorem tree_plru_victim_witness:
  "(\<exists>st'. TreePLRU_invalidate ([10, 11, 12, 13] ! 2) plru4 = Inr st' \<and>
      TreePLRU_getVictim st' [10, 11, 12, 13] = Inr ([10, 11, 12, 13] ! 2)) \<and>
   (\<exists>st' k. TreePLRU_touch ([10, 11, 12, 13] ! 2) plru4 = Inr st' \<and>
      TreePLRU_getVictim st' [10, 11, 12, 13] = Inr ([10, 11, 12, 13] ! k) \<and>
      k < length [10, 11, 12, 13 :: nat] \<and> k \<noteq> 2)"
proof (rule tree_plru_victim)
  show "plru_set plru4 [10, 11, 12, 13]" by code_simp
qed simp

theorem second_chance_returns_witness:
  "\<exists>v d'. SC_getVictim 9 (\<lambda>e. \<lparr>tickInserted = 5, hasSecondChance = True\<rparr>) [1, 2, 3] = Inr (v, d') \<and>
     v \<in> set [1, 2, 3] \<and> \<not> hasSecondChance (d' v)"
  by (rule second_chance_returns) simp

theorem lru_evicts_least_recent_witness: "(2 :: nat) \<in> snd ` set [(7 :: tick, 2 :: nat), (8, 3)]"
proof (rule lru_evicts_least_recent [of "[(5, 2), (6, 1), (7, 2), (8, 3)]" "[(5, 2)]" 6 1 _ "[1, 2, 3]"])
  show "LRU_getVictim (fold (\<lambda>(t, e). LRU_touch t e) [(5, 2), (6, 1), (7, 2), (8, 3)]
          (\<lambda>_. LRU_instantiateEntry)) [1, 2, 3] = Inr 1" by code_simp
qed simp_all

definition brrip_demo :: brstore where
  "brrip_demo e = \<lparr>rrpv = \<lparr>sc_initialVal = 0, sc_maxVal = 7, sc_counter = of_nat e\<rparr>, brrip_valid = True\<rparr>"

theorem brrip_ages_uniformly_witness:
  "\<exists>v d'. BRRIP_getVictim brrip_demo [2, 5, 3] = Inr (v, d') \<and> v \<in> set [2, 5, 3] \<and>
     (\<forall>c \<in> set [2, 5, 3].
        sc_counter (rrpv (brrip_demo c)) \<le> sc_counter (rrpv (brrip_demo v)) \<and> sc_ok (rrpv (d' c)) \<and>
        uint (sc_counter (rrpv (d' c))) =
          uint (sc_counter (rrpv (brrip_demo c))) + (uint (7 :: u8) - uint (sc_counter (rrpv (brrip_demo v)))))"
proof (rule brrip_ages_uniformly)
  show "\<forall>c \<in> set [2, 5, 3]. brrip_valid (brrip_demo c) \<and> sc_ok (rrpv (brrip_demo c)) \<and>
      sc_maxVal (rrpv (brrip_demo c)) = 7"
    by code_simp
qed simp_all

end
