(* ===== verification/CacheBlk.thy ===== *)
theory CacheBlk
  imports Prelude
begin

text \<open>
  \<open>mem/cache/cache_blk.hh\<close> and \<open>cache_blk.cc\<close>: the cache block, its status bits, insertion and
  invalidation, and the list of load-locked reservations with which a block implements load-locked
  and store-conditional. A request is the part of \<open>Request\<close> the block reads.
\<close>

record MemReq =
  req_paddr :: addr
  req_size :: u32
  req_contextId :: int

record Lock =
  contextId :: int
  lowAddr :: addr
  highAddr :: addr

definition req_high :: "MemReq \<Rightarrow> addr" where
  "req_high req = req_paddr req + ucast (req_size req) - 1"

definition Lock_of :: "MemReq \<Rightarrow> Lock" where
  "Lock_of req = \<lparr>contextId = req_contextId req, lowAddr = req_paddr req, highAddr = req_high req\<rparr>"

definition lock_matches :: "Lock \<Rightarrow> MemReq \<Rightarrow> bool" where
  "lock_matches l req \<longleftrightarrow>
     contextId l = req_contextId req \<and> req_paddr req \<ge> lowAddr l \<and> req_high req \<le> highAddr l"

definition lock_intersects :: "Lock \<Rightarrow> MemReq \<Rightarrow> bool" where
  "lock_intersects l req \<longleftrightarrow> req_paddr req \<le> highAddr l \<and> req_high req \<ge> lowAddr l"

definition BlkValid :: u32 where "BlkValid = 0x01"
definition BlkWritable :: u32 where "BlkWritable = 0x02"
definition BlkReadable :: u32 where "BlkReadable = 0x04"
definition BlkDirty :: u32 where "BlkDirty = 0x08"
definition BlkHWPrefetched :: u32 where "BlkHWPrefetched = 0x20"
definition BlkSecure :: u32 where "BlkSecure = 0x40"
definition BlkCompressed :: u32 where "BlkCompressed = 0x80"

lemmas blk_bits = BlkValid_def BlkWritable_def BlkReadable_def BlkDirty_def BlkHWPrefetched_def
  BlkSecure_def BlkCompressed_def

text \<open>The block with its position in the tag store (\<open>ReplaceableEntry\<close>); the data array is not
  modelled.\<close>

record CacheBlk =
  blk_set :: u32
  blk_way :: u32
  blk_task_id :: u32
  blk_tag :: addr
  blk_status :: u32
  blk_whenReady :: tick
  blk_refCount :: u32
  blk_srcMasterId :: int
  blk_tickInserted :: tick
  blk_lockList :: "Lock list"

definition isWritable :: "CacheBlk \<Rightarrow> bool" where
  "isWritable b \<longleftrightarrow> blk_status b AND (BlkWritable OR BlkValid) = BlkWritable OR BlkValid"

definition isReadable :: "CacheBlk \<Rightarrow> bool" where
  "isReadable b \<longleftrightarrow> blk_status b AND (BlkReadable OR BlkValid) = BlkReadable OR BlkValid"

definition isValid :: "CacheBlk \<Rightarrow> bool" where
  "isValid b \<longleftrightarrow> blk_status b AND BlkValid \<noteq> 0"

definition isDirty :: "CacheBlk \<Rightarrow> bool" where
  "isDirty b \<longleftrightarrow> blk_status b AND BlkDirty \<noteq> 0"

definition wasPrefetched :: "CacheBlk \<Rightarrow> bool" where
  "wasPrefetched b \<longleftrightarrow> blk_status b AND BlkHWPrefetched \<noteq> 0"

definition isSecure :: "CacheBlk \<Rightarrow> bool" where
  "isSecure b \<longleftrightarrow> blk_status b AND BlkSecure \<noteq> 0"

definition ContextSwitchTaskId_Unknown :: u32 where "ContextSwitchTaskId_Unknown = 1024"
definition invldMasterId :: int where "invldMasterId = 65535"

definition blk_invalidate :: "CacheBlk \<Rightarrow> CacheBlk" where
  "blk_invalidate b =
     b\<lparr>blk_tag := - 1, blk_task_id := ContextSwitchTaskId_Unknown, blk_status := 0,
       blk_whenReady := - 1, blk_refCount := 0, blk_srcMasterId := invldMasterId, blk_lockList := []\<rparr>"

definition setValid :: "CacheBlk \<Rightarrow> CacheBlk result" where
  "setValid b = bindR (assertR (\<not> isValid b)) (\<lambda>_. Inr (b\<lparr>blk_status := blk_status b OR BlkValid\<rparr>))"

definition setSecure :: "CacheBlk \<Rightarrow> CacheBlk" where
  "setSecure b = b\<lparr>blk_status := blk_status b OR BlkSecure\<rparr>"

definition getWhenReady :: "CacheBlk \<Rightarrow> tick result" where
  "getWhenReady b = bindR (assertR (blk_whenReady b \<noteq> - 1)) (\<lambda>_. Inr (blk_whenReady b))"

definition setWhenReady :: "tick \<Rightarrow> CacheBlk \<Rightarrow> CacheBlk result" where
  "setWhenReady t b = bindR (assertR (t \<ge> blk_tickInserted b)) (\<lambda>_. Inr (b\<lparr>blk_whenReady := t\<rparr>))"

definition blk_insert :: "tick \<Rightarrow> addr \<Rightarrow> bool \<Rightarrow> int \<Rightarrow> u32 \<Rightarrow> CacheBlk \<Rightarrow> CacheBlk result" where
  "blk_insert curTick tag is_secure src_master_ID task_ID b =
     bindR (assertR (blk_status b = 0)) (\<lambda>_.
       let b1 = b\<lparr>blk_tag := tag, blk_srcMasterId := src_master_ID, blk_task_id := task_ID,
                  blk_tickInserted := curTick, blk_refCount := 1\<rparr>;
           b2 = if is_secure then setSecure b1 else b1
       in setValid b2)"

section \<open>Reservations\<close>

fun erase_locks :: "(Lock \<Rightarrow> bool) \<Rightarrow> Lock list \<Rightarrow> Lock list" where
  "erase_locks p [] = []"
| "erase_locks p (l # ls) = (if p l then erase_locks p ls else l # erase_locks p ls)"

definition trackLoadLocked :: "bool \<Rightarrow> MemReq \<Rightarrow> CacheBlk \<Rightarrow> CacheBlk result" where
  "trackLoadLocked isLLSC req b =
     bindR (assertR isLLSC) (\<lambda>_.
       Inr (b\<lparr>blk_lockList := Lock_of req # erase_locks (\<lambda>l. lock_intersects l req) (blk_lockList b)\<rparr>))"

definition clearLoadLocks :: "MemReq \<Rightarrow> CacheBlk \<Rightarrow> CacheBlk" where
  "clearLoadLocks req b =
     b\<lparr>blk_lockList := erase_locks (\<lambda>l. lock_intersects l req \<and> contextId l \<noteq> req_contextId req) (blk_lockList b)\<rparr>"

text \<open>The search of a store conditional: the first matching lock is erased.\<close>

fun take_lock :: "MemReq \<Rightarrow> Lock list \<Rightarrow> bool \<times> Lock list" where
  "take_lock req [] = (False, [])"
| "take_lock req (l # ls) =
     (if lock_matches l req then (True, ls)
      else (let (success, ls') = take_lock req ls in (success, l # ls')))"

text \<open>The result is the block, the return value, and the extra data written to the request.\<close>

definition checkWrite :: "bool \<Rightarrow> bool \<Rightarrow> MemReq \<Rightarrow> CacheBlk \<Rightarrow> (CacheBlk \<times> bool \<times> nat option) result" where
  "checkWrite isWrite isLLSC req b =
     bindR (assertR isWrite) (\<lambda>_.
       if \<not> isLLSC \<and> blk_lockList b = [] then Inr (b, True, None)
       else if isLLSC
       then (let (success, ls) = take_lock req (blk_lockList b)
             in Inr (clearLoadLocks req (b\<lparr>blk_lockList := ls\<rparr>), success, Some (if success then 1 else 0)))
       else Inr (clearLoadLocks req b, True, None))"

section \<open>Lemmas\<close>

lemma erase_locks_filter: "erase_locks p ls = filter (\<lambda>l. \<not> p l) ls"
  by (induction ls) auto

lemma take_lock_success: "fst (take_lock req ls) \<longleftrightarrow> (\<exists>l \<in> set ls. lock_matches l req)"
  by (induction ls) (auto simp: Let_def case_prod_unfold)

lemma take_lock_subset: "set (snd (take_lock req ls)) \<subseteq> set ls"
  by (induction ls) (auto simp: Let_def case_prod_unfold)

lemma sorted_wrt_take_lock: "sorted_wrt P ls \<Longrightarrow> sorted_wrt P (snd (take_lock req ls))"
  using take_lock_subset by (induction ls) (fastforce simp: Let_def case_prod_unfold)+

text \<open>A request does not wrap around the address space.\<close>

definition req_ok :: "MemReq \<Rightarrow> bool" where
  "req_ok req \<longleftrightarrow> req_paddr req \<le> req_high req"

definition reqs_overlap :: "MemReq \<Rightarrow> MemReq \<Rightarrow> bool" where
  "reqs_overlap r s \<longleftrightarrow> req_paddr r \<le> req_high s \<and> req_paddr s \<le> req_high r"

definition locks_overlap :: "Lock \<Rightarrow> Lock \<Rightarrow> bool" where
  "locks_overlap l k \<longleftrightarrow> lowAddr l \<le> highAddr k \<and> lowAddr k \<le> highAddr l"

lemma matching_lock_intersects:
  "lock_matches l req \<Longrightarrow> reqs_overlap req wr \<Longrightarrow> lock_intersects l wr"
  by (auto simp: lock_matches_def reqs_overlap_def lock_intersects_def intro: order_trans)

lemma checkWrite_locks:
  assumes "checkWrite w llsc req b = Inr (b', ok, x)" "l \<in> set (blk_lockList b')"
  shows "l \<in> set (blk_lockList b) \<and> (lock_intersects l req \<longrightarrow> contextId l = req_contextId req)"
proof -
  have sub: "set (snd (take_lock req (blk_lockList b))) \<subseteq> set (blk_lockList b)" by (rule take_lock_subset)
  show ?thesis using assms sub
    by (auto simp: checkWrite_def bindR_Inr_iff clearLoadLocks_def erase_locks_filter
        case_prod_unfold Let_def split: if_splits)
qed

section \<open>Runs\<close>

text \<open>What can happen to the reservations of a block between its insertion and its invalidation.\<close>

inductive lock_reach :: "CacheBlk \<Rightarrow> bool" where
  start: "blk_lockList b = [] \<Longrightarrow> lock_reach b"
| load_locked: "lock_reach b \<Longrightarrow> req_ok req \<Longrightarrow> trackLoadLocked True req b = Inr b' \<Longrightarrow> lock_reach b'"
| do_write: "lock_reach b \<Longrightarrow> checkWrite True llsc req b = Inr (b', ok, x) \<Longrightarrow> lock_reach b'"

lemma checkWrite_sorted_wrt:
  "checkWrite w llsc req b = Inr (b', ok, x) \<Longrightarrow> sorted_wrt P (blk_lockList b) \<Longrightarrow> sorted_wrt P (blk_lockList b')"
  using sorted_wrt_take_lock [of P "blk_lockList b" req]
  by (auto simp: checkWrite_def bindR_Inr_iff clearLoadLocks_def erase_locks_filter
      case_prod_unfold Let_def sorted_wrt_filter split: if_splits)

lemma locks_disjoint:
  "lock_reach b \<Longrightarrow> sorted_wrt (\<lambda>l k. \<not> locks_overlap l k) (blk_lockList b)"
proof (induction rule: lock_reach.induct)
  case (load_locked b req b')
  have "\<not> locks_overlap (Lock_of req) k" if "\<not> lock_intersects k req" for k
    using that by (auto simp: locks_overlap_def lock_intersects_def Lock_of_def)
  with load_locked show ?case
    by (auto simp: trackLoadLocked_def bindR_Inr_iff erase_locks_filter sorted_wrt_filter)
next
  case (do_write b llsc req b' ok x)
  then show ?case by (blast intro: checkWrite_sorted_wrt)
qed simp

section \<open>Properties\<close>

text \<open>C30: A write kills the reservations of others. After a write by one context (plain or conditional),
  a store conditional of another context to an overlapping address range fails.\<close>

theorem write_kills_reservation:
  assumes "checkWrite True llsc wr b = Inr (b1, ok1, x1)" "req_contextId sc \<noteq> req_contextId wr"
    "reqs_overlap sc wr" "checkWrite True True sc b1 = Inr (b2, ok2, x2)"
  shows "\<not> ok2 \<and> x2 = Some 0"
proof -
  have "\<not> lock_matches l sc" if "l \<in> set (blk_lockList b1)" for l
    using checkWrite_locks [OF assms(1) that] matching_lock_intersects [OF _ assms(3), of l] assms(2)
    by (auto simp: lock_matches_def)
  then have "\<not> fst (take_lock sc (blk_lockList b1))" by (simp add: take_lock_success)
  with assms(4) show ?thesis by (auto simp: checkWrite_def case_prod_unfold Let_def)
qed

text \<open>C29: One owner. In every run of load-locked and write operations on a block, if two store
  conditionals with overlapping ranges could both succeed then they come from the same context.\<close>

theorem reservation_single_owner:
  assumes "lock_reach b" "req_ok r" "req_ok s" "reqs_overlap r s"
    and "checkWrite True True r b = Inr (b1, True, x1)" "checkWrite True True s b = Inr (b2, True, x2)"
  shows "req_contextId r = req_contextId s"
proof -
  obtain l k where l: "l \<in> set (blk_lockList b)" "lock_matches l r"
    and k: "k \<in> set (blk_lockList b)" "lock_matches k s"
    using assms(5,6) take_lock_success [of r "blk_lockList b"] take_lock_success [of s "blk_lockList b"]
    by (auto simp: checkWrite_def case_prod_unfold Let_def)
  have "locks_overlap l k" "locks_overlap k l"
    using l(2) k(2) assms(4) by (auto simp: locks_overlap_def lock_matches_def reqs_overlap_def)
  moreover have "l = k \<or> \<not> locks_overlap l k \<or> \<not> locks_overlap k l"
    using locks_disjoint [OF assms(1)] l(1) k(1) unfolding in_set_conv_nth sorted_wrt_iff_nth_less
    by (metis linorder_neqE_nat)
  ultimately show ?thesis using l(2) k(2) by (auto simp: lock_matches_def)
qed

text \<open>C31: A reservation works: a store conditional by the context and to the range of the last
  load-locked succeeds, and no reservation that meets its range is left.\<close>

theorem load_locked_then_store_conditional:
  assumes "req_ok req" "trackLoadLocked True req b = Inr b1"
  shows "\<exists>b2. checkWrite True True req b1 = Inr (b2, True, Some 1) \<and>
           (\<forall>l \<in> set (blk_lockList b2). l \<in> set (blk_lockList b) \<and> \<not> lock_intersects l req)"
proof -
  have b1: "blk_lockList b1 = Lock_of req # filter (\<lambda>l. \<not> lock_intersects l req) (blk_lockList b)"
    using assms by (auto simp: trackLoadLocked_def erase_locks_filter)
  have "lock_matches (Lock_of req) req"
    using assms(1) by (auto simp: lock_matches_def Lock_of_def req_ok_def)
  then show ?thesis using b1
    by (auto simp: checkWrite_def clearLoadLocks_def erase_locks_filter)
qed

section \<open>Witnesses\<close>

definition demo_blk :: CacheBlk where
  "demo_blk = blk_invalidate \<lparr>blk_set = 0, blk_way = 0, blk_task_id = 0, blk_tag = 0, blk_status = 0,
     blk_whenReady = 0, blk_refCount = 0, blk_srcMasterId = 0, blk_tickInserted = 0, blk_lockList = []\<rparr>"

definition demo_req :: "int \<Rightarrow> MemReq" where
  "demo_req c = \<lparr>req_paddr = 64, req_size = 8, req_contextId = c\<rparr>"

definition demo_locked :: CacheBlk where
  "demo_locked = projr (trackLoadLocked True (demo_req 1) demo_blk)"

lemma demo_locked_track: "trackLoadLocked True (demo_req 1) demo_blk = Inr demo_locked"
  by (simp add: demo_locked_def trackLoadLocked_def)

theorem write_kills_reservation_witness:
  "\<not> fst (snd (projr (checkWrite True True (demo_req 1) (fst (projr (checkWrite True False (demo_req 2) demo_locked))))))"
proof -
  let ?w = "projr (checkWrite True False (demo_req 2) demo_locked)"
  let ?s = "projr (checkWrite True True (demo_req 1) (fst ?w))"
  have "checkWrite True False (demo_req 2) demo_locked = Inr (fst ?w, fst (snd ?w), snd (snd ?w))"
    "checkWrite True True (demo_req 1) (fst ?w) = Inr (fst ?s, fst (snd ?s), snd (snd ?s))"
    by (auto simp: checkWrite_def case_prod_unfold Let_def)
  moreover have "req_contextId (demo_req 1) \<noteq> req_contextId (demo_req 2)"
    "reqs_overlap (demo_req 1) (demo_req 2)" by code_simp+
  ultimately show ?thesis using write_kills_reservation by blast
qed

theorem reservation_single_owner_witness:
  "req_contextId (demo_req 1) = req_contextId \<lparr>req_paddr = 68, req_size = 2, req_contextId = 1\<rparr>"
proof -
  let ?r = "\<lparr>req_paddr = 68, req_size = 2, req_contextId = 1\<rparr> :: MemReq"
  have "lock_reach demo_blk" by (rule lock_reach.start) (simp add: demo_blk_def blk_invalidate_def)
  moreover have ok: "req_ok (demo_req 1)" "req_ok ?r" "reqs_overlap (demo_req 1) ?r" by code_simp+
  ultimately have "lock_reach demo_locked" using lock_reach.load_locked demo_locked_track by blast
  moreover have "checkWrite True True (demo_req 1) demo_locked =
      Inr (clearLoadLocks (demo_req 1) (demo_locked\<lparr>blk_lockList := []\<rparr>), True, Some 1)"
    "checkWrite True True ?r demo_locked =
      Inr (clearLoadLocks ?r (demo_locked\<lparr>blk_lockList := []\<rparr>), True, Some 1)"
    by code_simp+
  ultimately show ?thesis using reservation_single_owner [OF _ ok] by blast
qed

theorem load_locked_then_store_conditional_witness:
  "\<exists>b2. checkWrite True True (demo_req 1) demo_locked = Inr (b2, True, Some 1) \<and>
     (\<forall>l \<in> set (blk_lockList b2). l \<in> set (blk_lockList demo_blk) \<and> \<not> lock_intersects l (demo_req 1))"
proof (rule load_locked_then_store_conditional [OF _ demo_locked_track])
  show "req_ok (demo_req 1)" by code_simp
qed

end
