(* ===== verification/Indexing.thy ===== *)
theory Indexing
  imports Bitfield CacheBlk
begin

text \<open>
  \<open>mem/cache/tags/indexing_policies\<close>: how an address is split into tag and set, which entries of the
  tag store may hold it, and how the address is rebuilt from a tag and a position. The set-associative
  policy takes the set from the address bits; the skewed-associative policy (Seznec) hashes them with
  the low tag bits, differently in every way, and must be able to undo the hash.
\<close>

section \<open>The base policy\<close>

record IndexingPolicy =
  ip_assoc :: nat
  ip_numSets :: u32
  ip_setShift :: nat
  ip_setMask :: u32
  ip_sets :: "nat option list list"
  ip_tagShift :: nat

text \<open>The parameters are of type \<open>uint64_t\<close>, \<open>int\<close> and \<open>int\<close>; the product of the entry size and the
  associativity, which the class keeps as an \<open>unsigned\<close>, is one of 32 bits.\<close>

definition BaseIndexingPolicy_new :: "u64 \<Rightarrow> u32 \<Rightarrow> u32 \<Rightarrow> IndexingPolicy result" where
  "BaseIndexingPolicy_new sz entry_size assoc =
     (if entry_size * assoc = 0 then Inl Undefined
      else let numSets = ucast (sz div ucast (entry_size * assoc)) :: u32 in
        bindR (assertR (0 < sint entry_size)) (\<lambda>_.
        bindR (floorLog2 4 (ucast entry_size)) (\<lambda>setShift.
        bindR (floorLog2 4 (ucast numSets)) (\<lambda>logSets.
        if \<not> isPowerOf2 (ucast numSets) then Inl Fatal
        else if assoc \<le> 0 then Inl Fatal
        else Inr \<lparr>ip_assoc = unat assoc, ip_numSets = numSets, ip_setShift = setShift,
                  ip_setMask = numSets - 1,
                  ip_sets = replicate (unat numSets) (replicate (unat assoc) None),
                  ip_tagShift = setShift + logSets\<rparr>))))"

definition getEntry :: "IndexingPolicy \<Rightarrow> nat \<Rightarrow> nat \<Rightarrow> nat option result" where
  "getEntry ip st way =
     (if st < length (ip_sets ip) \<and> way < length (ip_sets ip ! st) then Inr (ip_sets ip ! st ! way)
      else Inl Undefined)"

text \<open>\<open>setEntry\<close> gives the changed policy and the position the entry is told.\<close>

definition setEntry :: "nat \<Rightarrow> nat \<Rightarrow> IndexingPolicy \<Rightarrow> (IndexingPolicy \<times> u32 \<times> u32) result" where
  "setEntry entry index ip =
     (let st = of_nat (index div ip_assoc ip) :: u32;
          way = of_nat (index mod ip_assoc ip) :: u32
      in bindR (assertR (st < ip_numSets ip)) (\<lambda>_.
         if unat st < length (ip_sets ip) \<and> unat way < length (ip_sets ip ! unat st)
         then Inr (ip\<lparr>ip_sets := (ip_sets ip)[unat st := (ip_sets ip ! unat st)[unat way := Some entry]]\<rparr>, st, way)
         else Inl Undefined))"

definition extractTag :: "IndexingPolicy \<Rightarrow> addr \<Rightarrow> addr" where
  "extractTag ip a = drop_bit (ip_tagShift ip) a"

section \<open>Set-associative\<close>

definition SA_extractSet :: "IndexingPolicy \<Rightarrow> addr \<Rightarrow> u32" where
  "SA_extractSet ip a = ucast (drop_bit (ip_setShift ip) a AND ucast (ip_setMask ip))"

text \<open>\<open>getSet()\<close> is a \<open>uint32_t\<close>, so it is shifted in 32 bits.\<close>

definition SA_regenerateAddr :: "IndexingPolicy \<Rightarrow> addr \<Rightarrow> u32 \<Rightarrow> u32 \<Rightarrow> addr" where
  "SA_regenerateAddr ip tag st way =
     push_bit (ip_tagShift ip) tag OR ucast (push_bit (ip_setShift ip) st)"

definition SA_getPossibleEntries :: "IndexingPolicy \<Rightarrow> addr \<Rightarrow> nat option list result" where
  "SA_getPossibleEntries ip a =
     (let i = unat (SA_extractSet ip a)
      in if i < length (ip_sets ip) then Inr (ip_sets ip ! i) else Inl Undefined)"

section \<open>Skewed-associative\<close>

text \<open>\<open>msbShift\<close> is an argument, the logarithm of the number of sets minus one.\<close>

definition NUM_SKEWING_FUNCTIONS :: nat where "NUM_SKEWING_FUNCTIONS = 8"

definition SkewedAssociative_new :: "u64 \<Rightarrow> u32 \<Rightarrow> u32 \<Rightarrow> (IndexingPolicy \<times> nat) result" where
  "SkewedAssociative_new sz entry_size assoc =
     bindR (BaseIndexingPolicy_new sz entry_size assoc) (\<lambda>ip.
     bindR (floorLog2 4 (ucast (ip_numSets ip))) (\<lambda>l.
       if int (ip_setShift ip) + 2 * (int l - 1 + 1) > 64 then Inl Panic
       else if ip_numSets ip \<le> 2 then Inl Fatal
       else Inr (ip, l - 1)))"

definition hash :: "nat \<Rightarrow> addr \<Rightarrow> addr" where
  "hash msbShift a =
     (let lsb = bits_at a 0;
          msb = bits_at a msbShift;
          xor_bit = msb XOR lsb
      in insertBits_at (drop_bit 1 a) msbShift xor_bit)"

definition dehash :: "nat \<Rightarrow> addr \<Rightarrow> addr" where
  "dehash msbShift a =
     (let msb = bits_at a (msbShift - 1);
          xor_bit = bits_at a msbShift;
          lsb = msb XOR xor_bit;
          addr_no_msb = mbits a (int msbShift - 1) 0
      in insertBits_at (push_bit 1 addr_no_msb) 0 lsb)"

definition skew :: "nat \<Rightarrow> addr \<Rightarrow> nat \<Rightarrow> addr" where
  "skew m a way =
     (let addr1 = bits a (int m) 0;
          addr2 = bits a (2 * (int m + 1) - 1) (m + 1);
          w = way mod NUM_SKEWING_FUNCTIONS;
          s = (if w = 0 then hash m addr1 XOR hash m addr2 XOR addr2
               else if w = 1 then hash m addr1 XOR hash m addr2 XOR addr1
               else if w = 2 then hash m addr1 XOR dehash m addr2 XOR addr2
               else if w = 3 then hash m addr1 XOR dehash m addr2 XOR addr1
               else if w = 4 then dehash m addr1 XOR hash m addr2 XOR addr2
               else if w = 5 then dehash m addr1 XOR hash m addr2 XOR addr1
               else if w = 6 then dehash m addr1 XOR dehash m addr2 XOR addr2
               else dehash m addr1 XOR dehash m addr2 XOR addr1)
      in (hash m ^^ (way div NUM_SKEWING_FUNCTIONS)) s)"

definition deskew :: "nat \<Rightarrow> addr \<Rightarrow> nat \<Rightarrow> addr" where
  "deskew m a way =
     (let addr0 = bits a (int m) 0;
          addr2 = bits a (2 * (int m + 1) - 1) (m + 1);
          addr1 = (if way \<ge> NUM_SKEWING_FUNCTIONS
                   then (dehash m ^^ (way div NUM_SKEWING_FUNCTIONS)) addr0 else addr0);
          w = way mod 8
      in if w = 0 then dehash m (addr1 XOR hash m addr2 XOR addr2)
         else if w = 1 then (hash m ^^ m) (addr1 XOR hash m addr2)
         else if w = 2 then dehash m (addr1 XOR dehash m addr2 XOR addr2)
         else if w = 3 then (hash m ^^ m) (addr1 XOR dehash m addr2)
         else if w = 4 then hash m (addr1 XOR hash m addr2 XOR addr2)
         else if w = 5 then (hash m ^^ (m + 1)) (addr1 XOR hash m addr2)
         else if w = 6 then hash m (addr1 XOR dehash m addr2 XOR addr2)
         else (hash m ^^ (m + 1)) (addr1 XOR dehash m addr2))"

definition SK_extractSet :: "IndexingPolicy \<Rightarrow> nat \<Rightarrow> addr \<Rightarrow> u32 \<Rightarrow> u32" where
  "SK_extractSet ip m a way =
     ucast (skew m (drop_bit (ip_setShift ip) a) (unat way) AND ucast (ip_setMask ip))"

definition SK_regenerateAddr :: "IndexingPolicy \<Rightarrow> nat \<Rightarrow> addr \<Rightarrow> u32 \<Rightarrow> u32 \<Rightarrow> addr" where
  "SK_regenerateAddr ip m tag st way =
     (let addr_set = push_bit (m + 1) tag OR ucast st
      in push_bit (ip_tagShift ip) tag OR
         push_bit (ip_setShift ip) (deskew m addr_set (unat way) AND ucast (ip_setMask ip)))"

definition SK_getPossibleEntries :: "IndexingPolicy \<Rightarrow> nat \<Rightarrow> addr \<Rightarrow> nat option list result" where
  "SK_getPossibleEntries ip m a =
     foldR (\<lambda>way es. bindR (getEntry ip (unat (SK_extractSet ip m a (of_nat way))) way)
                       (\<lambda>e. Inr (es @ [e])))
       [0..<ip_assoc ip] []"

section \<open>The hash is invertible\<close>

lemma bit_hash:
  assumes "m < 64"
  shows "bit (hash m a) n \<longleftrightarrow> n < 64 \<and> (if n = m then bit a m \<noteq> bit a 0 else bit a (Suc n))"
  using assms by (auto simp: hash_def Let_def bit_insertBits_at bit_xor_iff bit_bits_at bit_drop_bit_eq)

lemma bit_dehash:
  assumes "0 < m" "m < 64"
  shows "bit (dehash m a) n \<longleftrightarrow>
     n < 64 \<and> (if n = 0 then bit a (m - 1) \<noteq> bit a m else n \<le> m \<and> bit a (n - 1))"
proof -
  define b where "b = push_bit 1 (mbits a (int m - 1) 0)"
  have b: "bit b n \<longleftrightarrow> n < 64 \<and> 0 < n \<and> n \<le> m \<and> bit a (n - 1)"
    unfolding b_def bit_push_bit_iff bit_mbits using assms by auto
  show ?thesis
    unfolding dehash_def Let_def b_def [symmetric]
    using b assms by (auto simp: bit_insertBits_at bit_xor_iff bit_bits_at)
qed

text \<open>Values of \<open>m + 1\<close> bits.\<close>

definition nbit :: "nat \<Rightarrow> addr \<Rightarrow> bool" where
  "nbit m a \<longleftrightarrow> (\<forall>n. bit a n \<longrightarrow> n \<le> m)"

lemma nbit_eqI: "nbit m a \<Longrightarrow> nbit m b \<Longrightarrow> (\<And>n. n \<le> m \<Longrightarrow> bit a n = bit b n) \<Longrightarrow> a = b"
  by (rule bit_word_eqI) (auto simp: nbit_def)

lemma nbit_hash: "m < 64 \<Longrightarrow> nbit m a \<Longrightarrow> nbit m (hash m a)"
  by (auto simp: nbit_def bit_hash split: if_splits)

lemma nbit_dehash: "0 < m \<Longrightarrow> m < 64 \<Longrightarrow> nbit m (dehash m a)"
  by (auto simp: nbit_def bit_dehash)

lemma nbit_xor: "nbit m a \<Longrightarrow> nbit m b \<Longrightarrow> nbit m (a XOR b)"
  by (auto simp: nbit_def bit_xor_iff)

lemma nbit_hash_pow: "m < 64 \<Longrightarrow> nbit m a \<Longrightarrow> nbit m ((hash m ^^ t) a)"
  by (induction t) (auto simp: nbit_hash)

lemma dehash_hash:
  assumes "0 < m" "m < 64" "nbit m a"
  shows "dehash m (hash m a) = a"
proof (rule nbit_eqI [OF nbit_dehash [OF assms(1,2)] assms(3)])
  fix n
  assume "n \<le> m"
  then show "bit (dehash m (hash m a)) n = bit a n"
    using assms(1,2) by (cases n) (auto simp: bit_dehash bit_hash)
qed

lemma hash_dehash:
  assumes "0 < m" "m < 64" "nbit m a"
  shows "hash m (dehash m a) = a"
proof (rule nbit_eqI [OF nbit_hash [OF assms(2) nbit_dehash [OF assms(1,2)]] assms(3)])
  fix n
  assume "n \<le> m"
  then show "bit (hash m (dehash m a)) n = bit a n"
    using assms(1,2) by (auto simp: bit_dehash bit_hash)
qed

lemma hash_xor: "m < 64 \<Longrightarrow> hash m (a XOR b) = hash m a XOR hash m b"
  by (rule word64_eqI) (auto simp: bit_hash bit_xor_iff)

lemma hash_pow_xor: "m < 64 \<Longrightarrow> (hash m ^^ t) (a XOR b) = (hash m ^^ t) a XOR (hash m ^^ t) b"
  by (induction t) (simp_all add: hash_xor)

text \<open>The hash shifts a register with feedback: bit \<open>i\<close> of a value is bit 0 after \<open>i\<close> steps.\<close>

lemma bit_hash_pow: "m < 64 \<Longrightarrow> i \<le> m \<Longrightarrow> bit b i \<longleftrightarrow> bit ((hash m ^^ i) b) 0"
proof (induction i arbitrary: b)
  case (Suc i)
  from Suc.prems have "bit b (Suc i) \<longleftrightarrow> bit (hash m b) i" by (auto simp: bit_hash)
  also have "\<dots> \<longleftrightarrow> bit ((hash m ^^ i) (hash m b)) 0"
    using Suc.prems by (intro Suc.IH) simp_all
  finally show ?case by (simp only: funpow_Suc_right comp_apply)
qed simp

lemma hash_feedback:
  assumes "m < 64" "nbit m a"
  shows "(hash m ^^ (m + 1)) a XOR (hash m ^^ m) a = a"
proof (rule nbit_eqI [OF nbit_xor assms(2)])
  have top: "bit ((hash m ^^ (m + 1)) b) 0 \<longleftrightarrow> bit b 0 \<noteq> bit ((hash m ^^ m) b) 0" for b
  proof -
    have "bit ((hash m ^^ (m + 1)) b) 0 \<longleftrightarrow> bit (hash m b) m"
      using bit_hash_pow [OF assms(1), of m "hash m b"]
      by (simp only: Suc_eq_plus1 [symmetric] funpow_Suc_right comp_apply order_refl)
    also have "\<dots> \<longleftrightarrow> bit b m \<noteq> bit b 0" using assms(1) by (simp add: bit_hash)
    finally show ?thesis using bit_hash_pow [OF assms(1), of m b] by auto
  qed
  fix i
  assume i: "i \<le> m"
  have swap: "(hash m ^^ i) ((hash m ^^ t) a) = (hash m ^^ t) ((hash m ^^ i) a)" for t
  proof -
    have "(hash m ^^ i) ((hash m ^^ t) a) = (hash m ^^ (i + t)) a"
      "(hash m ^^ t) ((hash m ^^ i) a) = (hash m ^^ (t + i)) a"
      by (simp_all only: funpow_add comp_apply)
    then show ?thesis by (simp only: add.commute [of i t])
  qed
  show "bit ((hash m ^^ (m + 1)) a XOR (hash m ^^ m) a) i = bit a i"
    unfolding bit_xor_iff unfolding bit_hash_pow [OF assms(1) i, of "(hash m ^^ (m + 1)) a"]
      bit_hash_pow [OF assms(1) i, of "(hash m ^^ m) a"] bit_hash_pow [OF assms(1) i, of a] swap
    by (simp only: top) blast
qed (use assms nbit_hash_pow in blast)+

section \<open>Skewing is undone\<close>

lemma xor_cancel:
  "(x XOR y XOR z) XOR y XOR z = x" "(x XOR y XOR z) XOR y = x XOR z" for x y z :: u64
  by (rule bit_word_eqI; auto simp: bit_xor_iff)+

lemma nbit_bits: "nbit m (bits a (int l + int m) l)"
  by (auto simp: nbit_def bit_bits)

lemma dehash_hash_pow:
  "0 < m \<Longrightarrow> m < 64 \<Longrightarrow> nbit m a \<Longrightarrow> (dehash m ^^ t) ((hash m ^^ t) a) = a"
proof (induction t)
  case (Suc t)
  have "(dehash m ^^ Suc t) ((hash m ^^ Suc t) a) = (dehash m ^^ t) (dehash m (hash m ((hash m ^^ t) a)))"
    using funpow_swap1 [of "dehash m" t] by simp
  also have "\<dots> = (dehash m ^^ t) ((hash m ^^ t) a)"
    using Suc.prems by (simp only: dehash_hash nbit_hash_pow)
  finally show ?case using Suc by simp
qed simp

text \<open>The two ways in which \<open>deskew\<close> gets the set bits back: inverting the hash, or running the shift
  register on until it has fed them back.\<close>

lemma unmix_hash:
  assumes "m < 64" "nbit m a"
  shows "(hash m ^^ m) (hash m a XOR a) = a"
proof -
  have "(hash m ^^ m) (hash m a) = (hash m ^^ (m + 1)) a"
    by (simp only: Suc_eq_plus1 [symmetric] funpow_Suc_right comp_apply)
  then show ?thesis using hash_feedback [OF assms] by (simp only: hash_pow_xor [OF assms(1)])
qed

lemma unmix_dehash:
  assumes "0 < m" "m < 64" "nbit m a"
  shows "(hash m ^^ (m + 1)) (dehash m a XOR a) = a"
proof -
  have "(hash m ^^ (m + 1)) (dehash m a) = (hash m ^^ m) a"
    by (simp only: Suc_eq_plus1 [symmetric] funpow_Suc_right comp_apply hash_dehash [OF assms])
  then have "(hash m ^^ (m + 1)) (dehash m a XOR a) = (hash m ^^ m) a XOR (hash m ^^ (m + 1)) a"
    by (simp only: hash_pow_xor [OF assms(2)])
  also have "\<dots> = (hash m ^^ (m + 1)) a XOR (hash m ^^ m) a" by (rule xor.commute)
  finally show ?thesis using hash_feedback [OF assms(2,3)] by simp
qed

lemma deskew_skew:
  assumes m: "0 < m" "m < 32"
    and y: "bits y (int m) 0 = skew m x way"
      "bits y (2 * (int m + 1) - 1) (m + 1) = bits x (2 * (int m + 1) - 1) (m + 1)"
  shows "deskew m y way = bits x (int m) 0"
proof -
  let ?a1 = "bits x (int m) 0"
  define a2 where "a2 = bits x (2 * (int m + 1) - 1) (m + 1)"
  have m64: "m < 64" using m by simp
  have n1: "nbit m ?a1" and n2: "nbit m a2" by (auto simp: nbit_def bit_bits a2_def)
  note n = nbit_hash [OF m64 n1] nbit_hash [OF m64 n2] nbit_dehash [OF m(1) m64] n1 n2
  have "way mod 8 < 8" by simp
  then consider "way mod 8 = 0" | "way mod 8 = 1" | "way mod 8 = 2" | "way mod 8 = 3"
    | "way mod 8 = 4" | "way mod 8 = 5" | "way mod 8 = 6" | "way mod 8 = 7" by linarith
  note ways = this
  define s where "s = (if way mod 8 = 0 then hash m ?a1 XOR hash m a2 XOR a2
               else if way mod 8 = 1 then hash m ?a1 XOR hash m a2 XOR ?a1
               else if way mod 8 = 2 then hash m ?a1 XOR dehash m a2 XOR a2
               else if way mod 8 = 3 then hash m ?a1 XOR dehash m a2 XOR ?a1
               else if way mod 8 = 4 then dehash m ?a1 XOR hash m a2 XOR a2
               else if way mod 8 = 5 then dehash m ?a1 XOR hash m a2 XOR ?a1
               else if way mod 8 = 6 then dehash m ?a1 XOR dehash m a2 XOR a2
               else dehash m ?a1 XOR dehash m a2 XOR ?a1)"
  have "nbit m s" unfolding s_def by (simp add: nbit_xor n)
  then have "(dehash m ^^ (way div 8)) ((hash m ^^ (way div 8)) s) = s"
    by (rule dehash_hash_pow [OF m(1) m64])
  moreover have "skew m x way = (hash m ^^ (way div 8)) s"
    unfolding skew_def Let_def NUM_SKEWING_FUNCTIONS_def s_def a2_def by (rule refl)
  ultimately have un: "(if way \<ge> 8 then (dehash m ^^ (way div 8)) (bits y (int m) 0) else bits y (int m) 0) = s"
    using y(1) by simp
  show ?thesis
    unfolding deskew_def Let_def NUM_SKEWING_FUNCTIONS_def un y(2) a2_def [symmetric] s_def
    using ways
    by cases (simp_all only: xor_cancel dehash_hash [OF m(1) m64 n1] hash_dehash [OF m(1) m64 n1]
        unmix_hash [OF m64 n1] unmix_dehash [OF m(1) m64 n1] if_True if_False simp_thms, simp_all add:
        xor_cancel dehash_hash [OF m(1) m64 n1] hash_dehash [OF m(1) m64 n1]
        unmix_hash [OF m64 n1] unmix_dehash [OF m(1) m64 n1, simplified])
qed

section \<open>The geometry the constructors establish\<close>

definition ip_wf :: "IndexingPolicy \<Rightarrow> nat \<Rightarrow> bool" where
  "ip_wf ip k \<longleftrightarrow> k < 32 \<and> ip_numSets ip = 2 ^ k \<and> ip_setMask ip = mask k
     \<and> ip_tagShift ip = ip_setShift ip + k \<and> ip_setShift ip < 32
     \<and> 0 < ip_assoc ip \<and> ip_assoc ip < 2 ^ 32
     \<and> length (ip_sets ip) = 2 ^ k \<and> (\<forall>row \<in> set (ip_sets ip). length row = ip_assoc ip)"

lemma floorLog2_narrow:
  assumes "unat x < 2 ^ 32"
  shows "floorLog2 4 x = floorLog2 8 x"
proof -
  have "x AND 0xffffffff00000000 = 0"
  proof (rule bit_word_eqI)
    fix n assume "n < LENGTH(64)"
    have "\<not> bit x n" if "32 \<le> n"
    proof -
      have "unat x < 2 ^ n" using assms power_increasing [OF that, of "2 :: nat"] by linarith
      then have "drop_bit n x = 0" 
        unfolding word_unat_eq_iff unat_drop_bit_eq unfolding drop_bit_eq_div by simp
      then have "\<not> bit (drop_bit n x) 0" by simp
      then show ?thesis by (simp add: bit_drop_bit_eq)
    qed
    then show "bit (x AND 0xffffffff00000000) n = bit 0 n"
      unfolding search_masks(1) by (auto simp: bit_and_iff bit_mbits)
  qed
  then have "shift_step (\<lambda>ux. 8 \<le> (8 :: nat) \<and> ux AND 0xffffffff00000000 \<noteq> 0) 32 (0, x)
      = shift_step (\<lambda>ux. 8 \<le> (4 :: nat) \<and> ux AND 0xffffffff00000000 \<noteq> 0) 32 (0, x)"
    by (simp add: shift_step_def)
  then show ?thesis unfolding floorLog2_def Let_def by simp
qed

lemma floorLog2_small:
  assumes "unat x < 2 ^ 32" "floorLog2 4 x = Inr y"
  shows "2 ^ y \<le> unat x" "unat x < 2 ^ (y + 1)" "y < 32"
proof -
  have x: "x \<noteq> 0" using assms(2) by (auto simp: floorLog2_def)
  then have d: "drop_bit y x = 1"
    using floorLog2_drop_bit [OF x] assms by (simp add: floorLog2_narrow)
  note b = drop_bit_one_bounds [OF d]
  show "2 ^ y \<le> unat x" "unat x < 2 ^ (y + 1)" by (fact b)+
  have "(2 :: nat) ^ y < 2 ^ 32" using b(1) assms(1) by linarith
  then show "y < 32" using power_less_imp_less_exp [of "2 :: nat" y 32] by simp
qed

lemma log_unique: "(2 :: nat) ^ y \<le> 2 ^ k \<Longrightarrow> (2 :: nat) ^ k < 2 ^ (y + 1) \<Longrightarrow> y = k"
  using power_le_imp_le_exp [of "2 :: nat" y k] power_less_imp_less_exp [of "2 :: nat" k "y + 1"] by simp

lemma unat_ucast_u32: "unat (ucast (x :: u32) :: u64) = unat x" "unat (ucast (x :: u32) :: u64) < 2 ^ 32"
proof -
  show "unat (ucast (x :: u32) :: u64) = unat x" by (simp add: unsigned_ucast_eq take_bit_nat_eq_self_iff order.strict_trans [OF unsigned_less])
  then show "unat (ucast (x :: u32) :: u64) < 2 ^ 32" using unsigned_less [of x] by simp
qed

lemma isPowerOf2_u32:
  assumes "isPowerOf2 (ucast (x :: u32))" "floorLog2 4 (ucast x) = Inr y"
  shows "y < 32 \<and> x = 2 ^ y \<and> unat x = 2 ^ y"
proof -
  obtain k where k: "k < 64" "ucast x = (2 ^ k :: u64)" using assms(1) by (auto simp: isPowerOf2_iff)
  have u: "unat x = 2 ^ k" using arg_cong [OF k(2), of unat] k(1) by (simp add: unat_ucast_u32 unat_exp64)
  note f = floorLog2_small [OF unat_ucast_u32(2) assms(2)]
  have y: "y = k" using f(1,2) u unat_ucast_u32(1) [of x] log_unique by simp
  have "x = of_nat (2 ^ k)" unfolding u [symmetric] by simp
  with y u f(3) show ?thesis by simp
qed

lemma BaseIndexingPolicy_new_wf:
  assumes "BaseIndexingPolicy_new sz es assoc = Inr ip"
  shows "\<exists>k. ip_wf ip k \<and> floorLog2 4 (ucast (ip_numSets ip)) = Inr k \<and> 2 ^ ip_setShift ip \<le> unat es"
proof -
  define n :: u32 where "n = ucast (sz div ucast (es * assoc))"
  obtain sh k where r: "floorLog2 4 (ucast es) = Inr sh" "floorLog2 4 (ucast n) = Inr k"
      "isPowerOf2 (ucast n)" "assoc > 0"
      "ip = \<lparr>ip_assoc = unat assoc, ip_numSets = n, ip_setShift = sh, ip_setMask = n - 1,
             ip_sets = replicate (unat n) (replicate (unat assoc) None), ip_tagShift = sh + k\<rparr>"
    using assms unfolding BaseIndexingPolicy_new_def Let_def n_def [symmetric]
    by (auto simp: bindR_Inr_iff word_gt_0 split: if_splits)
  note n = isPowerOf2_u32 [OF r(3,2)]
  note es = floorLog2_small [OF unat_ucast_u32(2) r(1)]
  have "n - 1 = mask k" using n by (simp add: mask_eq_exp_minus_1)
  moreover have "unat assoc < 2 ^ 32" using unsigned_less [of assoc] by simp
  ultimately have "ip_wf ip k"
    using n es(3) r(4) unat_gt_0 [of assoc] unfolding ip_wf_def r(5) by (auto simp only: IndexingPolicy.simps
        length_replicate set_replicate_conv_if word_gt_0 split: if_splits)
  then show ?thesis using r(2,5) es(1) unat_ucast_u32(1) [of es] by auto
qed

lemma BaseIndexingPolicy_new_params:
  assumes "BaseIndexingPolicy_new sz es assoc = Inr ip"
  shows "floorLog2 4 (ucast es) = Inr (ip_setShift ip)" "ip_assoc ip = unat assoc"
  using assms unfolding BaseIndexingPolicy_new_def Let_def by (auto simp: bindR_Inr_iff split: if_splits)

section \<open>The contract with the tag store\<close>

text \<open>A tag store keeps of a block only its tag and its place. It relies on the policy to place every
  address of a block at one set per way, inside the table, and to give the block's address back from
  the tag and the place. \<open>conf\<close> is the object of the policy, \<open>base\<close> its base-class part.\<close>

locale indexing_policy =
  fixes wf :: "'p \<Rightarrow> bool"
    and base :: "'p \<Rightarrow> IndexingPolicy"
    and extractSet :: "'p \<Rightarrow> addr \<Rightarrow> u32 \<Rightarrow> u32"
    and regenerateAddr :: "'p \<Rightarrow> addr \<Rightarrow> u32 \<Rightarrow> u32 \<Rightarrow> addr"
    and getPossibleEntries :: "'p \<Rightarrow> addr \<Rightarrow> nat option list result"
  assumes regenerate: "wf p \<Longrightarrow>
      regenerateAddr p (extractTag (base p) a) (extractSet p a w) w = a AND NOT (mask (ip_setShift (base p)))"
    and set_of_block: "wf p \<Longrightarrow>
      extractSet p (a AND NOT (mask (ip_setShift (base p)))) w = extractSet p a w"
    and tag_above: "wf p \<Longrightarrow> ip_setShift (base p) \<le> ip_tagShift (base p)"
    and set_in_table: "wf p \<Longrightarrow> unat (extractSet p a w) < length (ip_sets (base p))"
    and possible: "wf p \<Longrightarrow> getPossibleEntries p a =
      Inr (map (\<lambda>w. ip_sets (base p) ! unat (extractSet p a (of_nat w)) ! w) [0..<ip_assoc (base p)])"
begin

definition block_addr :: "'p \<Rightarrow> addr \<Rightarrow> addr" where
  "block_addr p a = a AND NOT (mask (ip_setShift (base p)))"

lemma tag_of_block: "wf p \<Longrightarrow> extractTag (base p) (block_addr p a) = extractTag (base p) a"
  by (rule bit_word_eqI)
    (auto simp: extractTag_def block_addr_def bit_simps dest: tag_above bit_word64_imp_less)

lemma same_place_same_block:
  assumes "wf p" "extractTag (base p) a = extractTag (base p) b" "extractSet p a w = extractSet p b w"
  shows "block_addr p a = block_addr p b"
  using regenerate [OF assms(1), of a w] regenerate [OF assms(1), of b w] assms(2,3)
  by (simp add: block_addr_def)

lemma same_block_same_place:
  assumes "wf p" "block_addr p a = block_addr p b"
  shows "extractTag (base p) a = extractTag (base p) b" "extractSet p a w = extractSet p b w"
  using assms(2) tag_of_block [OF assms(1), of a] tag_of_block [OF assms(1), of b]
    set_of_block [OF assms(1), of a w] set_of_block [OF assms(1), of b w]
  by (auto simp: block_addr_def)

lemma place_iff:
  "wf p \<Longrightarrow> extractTag (base p) a = extractTag (base p) b \<and> extractSet p a w = extractSet p b w
     \<longleftrightarrow> block_addr p a = block_addr p b"
  using same_place_same_block same_block_same_place by blast

end

lemma bit_ucast_mask: "k \<le> 32 \<Longrightarrow> bit (ucast (mask k :: u32) :: u64) n \<longleftrightarrow> n < k"
  by (auto simp: bit_simps)

definition SA_wf :: "IndexingPolicy \<Rightarrow> bool" where
  "SA_wf ip \<longleftrightarrow> (\<exists>k \<le> 31. ip_wf ip k) \<and> ip_tagShift ip \<le> 32"

lemma bit_SA_extractSet:
  "ip_wf ip k \<Longrightarrow> bit (SA_extractSet ip a) n \<longleftrightarrow> n < k \<and> bit a (ip_setShift ip + n)"
  by (auto simp: SA_extractSet_def ip_wf_def bit_simps)

lemma SA_regenerate_extract:
  assumes "SA_wf ip"
  shows "SA_regenerateAddr ip (extractTag ip a) (SA_extractSet ip a) w = a AND NOT (mask (ip_setShift ip))"
proof (rule bit_word_eqI)
  fix n assume "n < LENGTH(64)"
  obtain k where k: "ip_wf ip k" "ip_setShift ip + k \<le> 32" "ip_tagShift ip = ip_setShift ip + k"
    using assms by (auto simp: SA_wf_def ip_wf_def)
  have r: "bit (ucast (push_bit (ip_setShift ip) (SA_extractSet ip a)) :: u64) n
      \<longleftrightarrow> ip_setShift ip \<le> n \<and> n < ip_setShift ip + k \<and> bit a n"
    using k(2) bit_SA_extractSet [OF k(1), of a "n - ip_setShift ip"] \<open>n < LENGTH(64)\<close>
    by (auto simp: bit_simps)
  show "bit (SA_regenerateAddr ip (extractTag ip a) (SA_extractSet ip a) w) n
      = bit (a AND NOT (mask (ip_setShift ip))) n"
    unfolding SA_regenerateAddr_def bit_or_iff r using k(2,3) \<open>n < LENGTH(64)\<close>
    by (cases "n < ip_tagShift ip") (auto simp: extractTag_def bit_simps)
qed

lemma u32_less_exp: "(\<And>n. k \<le> n \<Longrightarrow> \<not> bit (x :: u32) n) \<Longrightarrow> unat x < 2 ^ k"
proof -
  assume "\<And>n. k \<le> n \<Longrightarrow> \<not> bit x n"
  then have "take_bit k x = x" by (intro bit_word_eqI) (metis bit_take_bit_iff not_le)
  then have "take_bit k (unat x) = unat x" by (metis unsigned_take_bit_eq)
  then show ?thesis by (simp add: take_bit_nat_eq_self_iff)
qed

lemma SA_set_bound: "SA_wf ip \<Longrightarrow> unat (SA_extractSet ip a) < length (ip_sets ip)"
proof -
  assume "SA_wf ip"
  then obtain k where k: "ip_wf ip k" by (auto simp: SA_wf_def)
  have "unat (SA_extractSet ip a) < 2 ^ k" by (rule u32_less_exp) (simp add: bit_SA_extractSet [OF k])
  with k show ?thesis by (simp add: ip_wf_def)
qed

interpretation sa: indexing_policy SA_wf "\<lambda>ip. ip" "\<lambda>ip a w. SA_extractSet ip a"
  SA_regenerateAddr SA_getPossibleEntries
proof
  fix ip a w assume wf: "SA_wf ip"
  then obtain k where k: "ip_wf ip k" by (auto simp: SA_wf_def)
  show "SA_regenerateAddr ip (extractTag ip a) (SA_extractSet ip a) w = a AND NOT (mask (ip_setShift ip))"
    by (rule SA_regenerate_extract [OF wf])
  show "SA_extractSet ip (a AND NOT (mask (ip_setShift ip))) = SA_extractSet ip a"
    by (rule bit_word_eqI) (auto simp: bit_SA_extractSet [OF k] bit_simps dest: bit_word64_imp_less)
  show "ip_setShift ip \<le> ip_tagShift ip" using k by (simp add: ip_wf_def)
  show b: "unat (SA_extractSet ip a) < length (ip_sets ip)" by (rule SA_set_bound [OF wf])
  have "length (ip_sets ip ! unat (SA_extractSet ip a)) = ip_assoc ip"
    using k b by (auto simp: ip_wf_def)
  then show "SA_getPossibleEntries ip a =
      Inr (map (\<lambda>w. ip_sets ip ! unat (SA_extractSet ip a) ! w) [0..<ip_assoc ip])"
    using b by (simp add: SA_getPossibleEntries_def Let_def list_eq_iff_nth_eq)
qed

subsection \<open>The skewed policy\<close>

text \<open>What the constructor of the skewed policy establishes: more than two sets, and room for twice the
  bits of a set index above the block offset.\<close>

definition SK_wf :: "IndexingPolicy \<times> nat \<Rightarrow> bool" where
  "SK_wf p \<longleftrightarrow> ip_wf (fst p) (snd p + 1) \<and> 0 < snd p \<and> ip_setShift (fst p) + 2 * (snd p + 1) \<le> 64"

lemma nbit_skew:
  assumes "0 < m" "m < 64"
  shows "nbit m (skew m a way)"
proof -
  have n: "nbit m (bits a (int m) 0)" "nbit m (bits a (2 * (int m + 1) - 1) (m + 1))"
    by (auto simp: nbit_def bit_bits)
  show ?thesis unfolding skew_def Let_def
    by (intro nbit_hash_pow assms) (simp only: nbit_xor n nbit_hash [OF assms(2)] nbit_dehash [OF assms] split: if_split; simp)
qed

lemma skew_cong:
  assumes "bits a (int m) 0 = bits b (int m) 0"
    and "bits a (2 * (int m + 1) - 1) (m + 1) = bits b (2 * (int m + 1) - 1) (m + 1)"
  shows "skew m a w = skew m b w"
  unfolding skew_def assms by (rule refl)

lemma SK_extractSet_skew:
  assumes "SK_wf (ip, m)"
  shows "ucast (SK_extractSet ip m a w) = skew m (drop_bit (ip_setShift ip) a) (unat w)"
proof (rule bit_word_eqI)
  fix n assume n: "n < LENGTH(64)"
  have m: "0 < m" "m < 31" "ip_setMask ip = mask (m + 1)" using assms by (auto simp: SK_wf_def ip_wf_def)
  have "nbit m (skew m (drop_bit (ip_setShift ip) a) (unat w))" using m nbit_skew by simp
  then show "bit (ucast (SK_extractSet ip m a w) :: u64) n = bit (skew m (drop_bit (ip_setShift ip) a) (unat w)) n"
    using m(2) n unfolding SK_extractSet_def m(3) by (auto simp: nbit_def bit_simps)
qed

lemma SK_regenerate_extract:
  assumes wf: "SK_wf (ip, m)"
  shows "SK_regenerateAddr ip m (extractTag ip a) (SK_extractSet ip m a w) w = a AND NOT (mask (ip_setShift ip))"
proof -
  let ?x = "drop_bit (ip_setShift ip) a"
  define y where "y = push_bit (m + 1) (extractTag ip a) OR ucast (SK_extractSet ip m a w)"
  have m: "0 < m" "m < 31" "ip_setMask ip = mask (m + 1)" "ip_tagShift ip = ip_setShift ip + (m + 1)"
      "ip_setShift ip + 2 * (m + 1) \<le> 64"
    using wf by (auto simp: SK_wf_def ip_wf_def)
  have sk: "\<And>n. bit (skew m ?x (unat w)) n \<Longrightarrow> n \<le> m"
    using nbit_skew [of m ?x "unat w"] m by (auto simp: nbit_def)
  have "deskew m y (unat w) = bits ?x (int m) 0"
  proof (rule deskew_skew)
    show "bits y (int m) 0 = skew m ?x (unat w)"
      by (rule bit_word_eqI) (auto simp: y_def bit_bits bit_or_iff bit_push_bit_iff SK_extractSet_skew [OF wf]
          simp del: push_bit_Suc dest: sk)
    show "bits y (2 * (int m + 1) - 1) (m + 1) = bits ?x (2 * (int m + 1) - 1) (m + 1)"
      by (rule bit_word_eqI) (use m in \<open>auto simp: y_def bit_bits bit_or_iff bit_push_bit_iff
          SK_extractSet_skew [OF wf] extractTag_def bit_drop_bit_eq ac_simps
          simp del: push_bit_Suc dest!: sk\<close>)
  qed (use m in auto)
  then have "SK_regenerateAddr ip m (extractTag ip a) (SK_extractSet ip m a w) w =
      push_bit (ip_tagShift ip) (extractTag ip a) OR
      push_bit (ip_setShift ip) (bits ?x (int m) 0 AND ucast (mask (m + 1) :: u32))"
    unfolding SK_regenerateAddr_def Let_def y_def [symmetric] m(3) by simp
  also have "\<dots> = a AND NOT (mask (ip_setShift ip))"
  proof (rule bit_word_eqI)
    fix n assume "n < LENGTH(64)"
    then show "bit (push_bit (ip_tagShift ip) (extractTag ip a) OR
        push_bit (ip_setShift ip) (bits ?x (int m) 0 AND ucast (mask (m + 1) :: u32))) n
        = bit (a AND NOT (mask (ip_setShift ip))) n"
      using m(2,4) by (cases "n < ip_tagShift ip")
        (auto simp: extractTag_def bit_bits bit_simps simp del: push_bit_Suc)
  qed
  finally show ?thesis .
qed

lemma SkewedAssociative_new_wf:
  assumes "SkewedAssociative_new sz es assoc = Inr p"
  shows "SK_wf p"
proof -
  obtain l where l: "BaseIndexingPolicy_new sz es assoc = Inr (fst p)"
      "floorLog2 4 (ucast (ip_numSets (fst p))) = Inr l" "snd p = l - 1"
      "int (ip_setShift (fst p)) + 2 * (int l - 1 + 1) \<le> 64" "2 < ip_numSets (fst p)"
    using assms by (auto simp: SkewedAssociative_new_def bindR_Inr_iff not_le not_less split: if_splits)
  obtain k where k: "ip_wf (fst p) k" "k = l" using BaseIndexingPolicy_new_wf [OF l(1)] l(2) by auto
  have "1 < l"
  proof (rule ccontr)
    assume "\<not> 1 < l"
    then have "l = 0 \<or> l = 1" by auto
    then have "ip_numSets (fst p) \<le> 2" using k by (auto simp: ip_wf_def word_le_nat_alt)
    with l(5) show False by simp
  qed
  then show ?thesis using k l(3,4) by (simp add: SK_wf_def)
qed

lemma SK_possible:
  assumes "SK_wf (ip, m)" "\<And>w. unat (SK_extractSet ip m a w) < length (ip_sets ip)"
  shows "SK_getPossibleEntries ip m a =
      Inr (map (\<lambda>w. ip_sets ip ! unat (SK_extractSet ip m a (of_nat w)) ! w) [0..<ip_assoc ip])"
proof -
  have row: "\<And>i. i < length (ip_sets ip) \<Longrightarrow> length (ip_sets ip ! i) = ip_assoc ip"
    using assms(1) by (auto simp: SK_wf_def ip_wf_def)
  have "foldR (\<lambda>way es. bindR (getEntry ip (unat (SK_extractSet ip m a (of_nat way))) way) (\<lambda>e. Inr (es @ [e])))
        ws acc = Inr (acc @ map (\<lambda>w. ip_sets ip ! unat (SK_extractSet ip m a (of_nat w)) ! w) ws)"
    if "set ws \<subseteq> {..<ip_assoc ip}" for ws acc
    using that by (induction ws arbitrary: acc) (auto simp: getEntry_def row assms(2))
  from this [of "[0..<ip_assoc ip]" "[]"] show ?thesis
    unfolding SK_getPossibleEntries_def by (simp add: atLeast0LessThan)
qed

interpretation sk: indexing_policy SK_wf fst "\<lambda>p. SK_extractSet (fst p) (snd p)"
  "\<lambda>p. SK_regenerateAddr (fst p) (snd p)" "\<lambda>p. SK_getPossibleEntries (fst p) (snd p)"
proof
  fix p a w assume wf: "SK_wf p"
  then have wf': "SK_wf (fst p, snd p)" by simp
  define ip m where "ip = fst p" and "m = snd p"
  have m: "0 < m" "m < 31" "ip_wf ip (m + 1)" using wf by (auto simp: SK_wf_def ip_wf_def ip_def m_def)
  show "SK_regenerateAddr (fst p) (snd p) (extractTag (fst p) a) (SK_extractSet (fst p) (snd p) a w) w
      = a AND NOT (mask (ip_setShift (fst p)))"
    by (rule SK_regenerate_extract [OF wf'])
  have "drop_bit (ip_setShift ip) (a AND NOT (mask (ip_setShift ip))) = drop_bit (ip_setShift ip) a"
    by (rule bit_word_eqI) (auto simp: bit_simps dest: bit_word64_imp_less)
  then show "SK_extractSet (fst p) (snd p) (a AND NOT (mask (ip_setShift (fst p)))) w = SK_extractSet (fst p) (snd p) a w"
    by (simp add: SK_extractSet_def ip_def)
  show "ip_setShift (fst p) \<le> ip_tagShift (fst p)" using m(3) by (simp add: ip_wf_def ip_def)
  have "unat (SK_extractSet ip m b v) < 2 ^ (m + 1)" for b v
    by (rule u32_less_exp) (use m in \<open>auto simp: SK_extractSet_def ip_wf_def bit_simps\<close>)
  then have b: "unat (SK_extractSet (fst p) (snd p) b v) < length (ip_sets (fst p))" for b v
    using m(3) by (simp only: ip_wf_def ip_def m_def)
  then show "unat (SK_extractSet (fst p) (snd p) a w) < length (ip_sets (fst p))" .
  show "SK_getPossibleEntries (fst p) (snd p) a =
      Inr (map (\<lambda>w. ip_sets (fst p) ! unat (SK_extractSet (fst p) (snd p) a (of_nat w)) ! w) [0..<ip_assoc (fst p)])"
    by (rule SK_possible [OF wf' b])
qed

section \<open>Properties\<close>

text \<open>C4: Skewing loses no information. For every skewed-associative policy the constructor accepts, every
  address and every way (also those above the eight skewing functions, which are hashed again), the tag and
  the set the way is given for the address regenerate the address of its block.\<close>

theorem skewed_regenerates:
  assumes "SkewedAssociative_new sz es assoc = Inr (ip, m)"
  shows "SK_regenerateAddr ip m (extractTag ip a) (SK_extractSet ip m a w) w = a AND NOT (mask (ip_setShift ip))"
  using sk.regenerate [OF SkewedAssociative_new_wf [OF assms], of a w] by simp

definition skew_demo :: "IndexingPolicy \<times> nat" where
  "skew_demo = (\<lparr>ip_assoc = 2, ip_numSets = 4, ip_setShift = 6, ip_setMask = 3,
     ip_sets = replicate 4 (replicate 2 None), ip_tagShift = 8\<rparr>, 1)"

lemma skew_demo_new: "SkewedAssociative_new 512 64 2 = Inr skew_demo"
  by code_simp

theorem skewed_regenerates_witness:
  "SK_regenerateAddr (fst skew_demo) 1 (extractTag (fst skew_demo) 0x12345) (SK_extractSet (fst skew_demo) 1 0x12345 9) 9
     = 0x12345 AND NOT (mask (ip_setShift (fst skew_demo)))"
  by (rule skewed_regenerates [of 512 64 2]) (simp add: skew_demo_new skew_demo_def)

text \<open>C32: In a set-associative cache whose tag starts within the first 32 address bits (the set index is shifted
  as a 32-bit value), two addresses have the same tag and the same set exactly when they lie in one block.\<close>

theorem set_assoc_place_identifies_block:
  assumes "BaseIndexingPolicy_new sz es assoc = Inr ip" "ip_tagShift ip \<le> 32"
  shows "extractTag ip a = extractTag ip b \<and> SA_extractSet ip a = SA_extractSet ip b
     \<longleftrightarrow> a AND NOT (mask (ip_setShift ip)) = b AND NOT (mask (ip_setShift ip))"
proof -
  obtain k where "ip_wf ip k" using BaseIndexingPolicy_new_wf [OF assms(1)] by auto
  then have "SA_wf ip" using assms(2) by (auto simp: SA_wf_def ip_wf_def intro!: exI [of _ k])
  from sa.place_iff [OF this] show ?thesis by (simp add: sa.block_addr_def)
qed

theorem set_assoc_place_identifies_block_witness:
  "extractTag (fst skew_demo) 0x12345 = extractTag (fst skew_demo) 0x12346
     \<and> SA_extractSet (fst skew_demo) 0x12345 = SA_extractSet (fst skew_demo) 0x12346
   \<longleftrightarrow> 0x12345 AND NOT (mask (ip_setShift (fst skew_demo))) = (0x12346 :: addr) AND NOT (mask (ip_setShift (fst skew_demo)))"
proof (rule set_assoc_place_identifies_block)
  show "BaseIndexingPolicy_new 512 64 2 = Inr (fst skew_demo)" by code_simp
qed (simp add: skew_demo_def)

end
