(* ===== verification/CacheTags.thy ===== *)
theory CacheTags
  imports Indexing ReplacementPolicies
begin

text \<open>
  \<open>mem/cache/tags/base.hh\<close>, \<open>base.cc\<close>, \<open>base_set_assoc.hh\<close> and \<open>base_set_assoc.cc\<close>: the tag store of a
  cache. It owns the blocks, finds them through its indexing policy and replaces them with the help of
  its replacement policy. The store does not keep the address of a block, only its tag and its place;
  shown here is that it nevertheless behaves as a partial map from block addresses and security
  states to blocks, whatever the policies.
\<close>

section \<open>The policies of a store\<close>

text \<open>The indexing policy is an object of one of the two subclasses; the calls dispatch on it.\<close>

datatype IndexKind = SetAssociative | SkewedAssociative nat

definition idx_getPossibleEntries :: "IndexKind \<Rightarrow> IndexingPolicy \<Rightarrow> addr \<Rightarrow> nat option list result" where
  "idx_getPossibleEntries k ip a =
     (case k of SetAssociative \<Rightarrow> SA_getPossibleEntries ip a
      | SkewedAssociative m \<Rightarrow> SK_getPossibleEntries ip m a)"

definition idx_regenerateAddr :: "IndexKind \<Rightarrow> IndexingPolicy \<Rightarrow> addr \<Rightarrow> u32 \<Rightarrow> u32 \<Rightarrow> addr" where
  "idx_regenerateAddr k ip =
     (case k of SetAssociative \<Rightarrow> SA_regenerateAddr ip | SkewedAssociative m \<Rightarrow> SK_regenerateAddr ip m)"

definition idx_new :: "bool \<Rightarrow> u64 \<Rightarrow> u32 \<Rightarrow> u32 \<Rightarrow> (IndexKind \<times> IndexingPolicy) result" where
  "idx_new skewed sz entry_size assoc =
     (if skewed
      then bindR (SkewedAssociative_new sz entry_size assoc) (\<lambda>(ip, m). Inr (SkewedAssociative m, ip))
      else bindR (BaseIndexingPolicy_new sz entry_size assoc) (\<lambda>ip. Inr (SetAssociative, ip)))"

text \<open>The virtual methods of a replacement policy, whose data of all blocks is \<open>'d\<close>. A method is told the
  current tick.\<close>

record 'd ReplPolicy =
  rp_instantiateEntry :: "entry \<Rightarrow> 'd \<Rightarrow> 'd"
  rp_touch :: "tick \<Rightarrow> entry \<Rightarrow> 'd \<Rightarrow> 'd result"
  rp_reset :: "tick \<Rightarrow> entry \<Rightarrow> 'd \<Rightarrow> 'd result"
  rp_invalidate :: "entry \<Rightarrow> 'd \<Rightarrow> 'd result"
  rp_getVictim :: "tick \<Rightarrow> 'd \<Rightarrow> entry list \<Rightarrow> (entry \<times> 'd) result"

section \<open>The store\<close>

record TagStats =
  tagsInUse :: int
  totalRefs :: nat
  sampledRefs :: nat
  warmupCycle :: tick
  occupancies :: "int \<Rightarrow> int"
  occupanciesTaskId :: "u32 \<Rightarrow> nat"
  ageTaskId :: "u32 \<Rightarrow> nat \<Rightarrow> nat"
  tagAccesses :: nat
  dataAccesses :: nat

record 'd Tags =
  t_blkSize :: u32
  t_blkMask :: addr
  t_lookupLatency :: nat
  t_maxMasters :: int
  t_kind :: IndexKind
  t_ip :: IndexingPolicy
  t_warmupBound :: nat
  t_warmedUp :: bool
  t_numBlocks :: nat
  t_stats :: TagStats
  t_allocAssoc :: nat
  t_blks :: "CacheBlk list"
  t_sequentialAccess :: bool
  t_data :: 'd

text \<open>The request of a fill, as far as the store reads it.\<close>

record FillPkt =
  pkt_addr :: addr
  pkt_secure :: bool
  pkt_masterId :: int
  pkt_taskId :: u32

definition upd_stats :: "(TagStats \<Rightarrow> TagStats) \<Rightarrow> 'd Tags \<Rightarrow> 'd Tags" where
  "upd_stats f st = st\<lparr>t_stats := f (t_stats st)\<rparr>"

definition upd_blk :: "nat \<Rightarrow> (CacheBlk \<Rightarrow> CacheBlk) \<Rightarrow> 'd Tags \<Rightarrow> 'd Tags" where
  "upd_blk i f st = st\<lparr>t_blks := (t_blks st)[i := f (t_blks st ! i)]\<rparr>"

text \<open>A new block is an invalidated one whose position and insertion time are not set yet.\<close>

definition CacheBlk_new :: CacheBlk where
  "CacheBlk_new = blk_invalidate \<lparr>blk_set = 0, blk_way = 0, blk_task_id = 0, blk_tag = 0, blk_status = 0,
     blk_whenReady = 0, blk_refCount = 0, blk_srcMasterId = 0, blk_tickInserted = 0, blk_lockList = []\<rparr>"

definition TagStats_zero :: TagStats where
  "TagStats_zero = \<lparr>tagsInUse = 0, totalRefs = 0, sampledRefs = 0, warmupCycle = 0, occupancies = (\<lambda>_. 0),
     occupanciesTaskId = (\<lambda>_. 0), ageTaskId = (\<lambda>_ _. 0), tagAccesses = 0, dataAccesses = 0\<rparr>"

text \<open>The bound on the number of tags in use after which the cache is warm is computed in floating point;
  it is an argument.\<close>

definition BaseSetAssoc_new ::
    "u64 \<Rightarrow> u32 \<Rightarrow> nat \<Rightarrow> bool \<Rightarrow> nat \<Rightarrow> nat \<Rightarrow> int \<Rightarrow> IndexKind \<Rightarrow> IndexingPolicy \<Rightarrow> 'd \<Rightarrow> 'd Tags result" where
  "BaseSetAssoc_new sz blk_size assoc sequential warmup latency masters k ip d =
     (if blk_size = 0 then Inl Undefined
      else let numBlocks = unat (ucast (sz div ucast blk_size) :: u32)
           in if blk_size < 4 \<or> \<not> isPowerOf2 (ucast blk_size) then Inl Fatal
              else Inr \<lparr>t_blkSize = blk_size, t_blkMask = ucast (blk_size - 1), t_lookupLatency = latency,
                t_maxMasters = masters, t_kind = k, t_ip = ip, t_warmupBound = warmup, t_warmedUp = False,
                t_numBlocks = numBlocks, t_stats = TagStats_zero, t_allocAssoc = assoc,
                t_blks = replicate (unat (sz div ucast blk_size)) CacheBlk_new,
                t_sequentialAccess = sequential, t_data = d\<rparr>)"

definition tagsInit_step :: "'d ReplPolicy \<Rightarrow> nat \<Rightarrow> 'd Tags \<Rightarrow> 'd Tags result" where
  "tagsInit_step pol blk_index st =
     bindR (setEntry blk_index blk_index (t_ip st)) (\<lambda>(ip, s, w).
       Inr ((upd_blk blk_index (\<lambda>b. b\<lparr>blk_set := s, blk_way := w\<rparr>) st)
              \<lparr>t_ip := ip, t_data := rp_instantiateEntry pol blk_index (t_data st)\<rparr>))"

definition tagsInit :: "'d ReplPolicy \<Rightarrow> 'd Tags \<Rightarrow> 'd Tags result" where
  "tagsInit pol st = foldR (tagsInit_step pol) [0..<t_numBlocks st] st"

definition blkAlign :: "'d Tags \<Rightarrow> addr \<Rightarrow> addr" where
  "blkAlign st a = a AND NOT (t_blkMask st)"

definition extractBlkOffset :: "'d Tags \<Rightarrow> addr \<Rightarrow> int" where
  "extractBlkOffset st a = sint (ucast (a AND t_blkMask st) :: u32)"

definition findBlockBySetAndWay :: "'d Tags \<Rightarrow> nat \<Rightarrow> nat \<Rightarrow> nat option result" where
  "findBlockBySetAndWay st s w = getEntry (t_ip st) s w"

definition tags_extractTag :: "'d Tags \<Rightarrow> addr \<Rightarrow> addr" where
  "tags_extractTag st a = extractTag (t_ip st) a"

text \<open>An entry that no block was linked to is a null pointer.\<close>

fun find_location :: "CacheBlk list \<Rightarrow> addr \<Rightarrow> bool \<Rightarrow> nat option list \<Rightarrow> nat option result" where
  "find_location blks tag is_secure [] = Inr None"
| "find_location blks tag is_secure (None # ls) = Inl Undefined"
| "find_location blks tag is_secure (Some i # ls) =
     (if blk_tag (blks ! i) = tag \<and> isValid (blks ! i) \<and> isSecure (blks ! i) = is_secure
      then Inr (Some i) else find_location blks tag is_secure ls)"

definition findBlock :: "'d Tags \<Rightarrow> addr \<Rightarrow> bool \<Rightarrow> nat option result" where
  "findBlock st a is_secure =
     (let tag = tags_extractTag st a
      in bindR (idx_getPossibleEntries (t_kind st) (t_ip st) a) (find_location (t_blks st) tag is_secure))"

definition accessBlock ::
    "'d ReplPolicy \<Rightarrow> tick \<Rightarrow> addr \<Rightarrow> bool \<Rightarrow> 'd Tags \<Rightarrow> ('d Tags \<times> nat option \<times> nat) result" where
  "accessBlock pol curTick a is_secure st =
     bindR (findBlock st a is_secure) (\<lambda>blk.
       let st1 = upd_stats (\<lambda>s. s\<lparr>tagAccesses := tagAccesses s + t_allocAssoc st\<rparr>) st;
           st2 = (if t_sequentialAccess st
                  then (if blk \<noteq> None then upd_stats (\<lambda>s. s\<lparr>dataAccesses := dataAccesses s + 1\<rparr>) st1 else st1)
                  else upd_stats (\<lambda>s. s\<lparr>dataAccesses := dataAccesses s + t_allocAssoc st\<rparr>) st1)
       in case blk of
            None \<Rightarrow> Inr (st2, None, t_lookupLatency st)
          | Some i \<Rightarrow>
              let st3 = upd_blk i (\<lambda>b. b\<lparr>blk_refCount := blk_refCount b + 1\<rparr>) st2
              in bindR (rp_touch pol curTick i (t_data st3)) (\<lambda>d.
                   Inr (st3\<lparr>t_data := d\<rparr>, Some i, t_lookupLatency st)))"

text \<open>The victim is the only block to evict; a null candidate would be dereferenced by the policy.\<close>

definition findVictim :: "'d ReplPolicy \<Rightarrow> tick \<Rightarrow> addr \<Rightarrow> 'd Tags \<Rightarrow> ('d Tags \<times> nat \<times> nat list) result" where
  "findVictim pol curTick a st =
     bindR (idx_getPossibleEntries (t_kind st) (t_ip st) a) (\<lambda>entries.
       if None \<in> set entries then Inl Undefined
       else bindR (rp_getVictim pol curTick (t_data st) (map the entries)) (\<lambda>(victim, d).
              Inr (st\<lparr>t_data := d\<rparr>, victim, [victim])))"

definition BaseTags_insertBlock :: "tick \<Rightarrow> FillPkt \<Rightarrow> nat \<Rightarrow> 'd Tags \<Rightarrow> 'd Tags result" where
  "BaseTags_insertBlock curTick pkt i st =
     bindR (assertR (\<not> isValid (t_blks st ! i))) (\<lambda>_.
     bindR (assertR (pkt_masterId pkt < t_maxMasters st)) (\<lambda>_.
     let m = pkt_masterId pkt;
         st1 = upd_stats (\<lambda>s. s\<lparr>occupancies := (occupancies s)(m := occupancies s m + 1)\<rparr>) st
     in bindR (blk_insert curTick (tags_extractTag st (pkt_addr pkt)) (pkt_secure pkt) m (pkt_taskId pkt)
                 (t_blks st ! i)) (\<lambda>b.
        let st2 = upd_blk i (\<lambda>_. b) st1;
            st3 = (if \<not> t_warmedUp st2 \<and> tagsInUse (t_stats st2) \<ge> int (t_warmupBound st2)
                   then upd_stats (\<lambda>s. s\<lparr>warmupCycle := curTick\<rparr>) (st2\<lparr>t_warmedUp := True\<rparr>) else st2)
        in Inr (upd_stats (\<lambda>s. s\<lparr>tagAccesses := tagAccesses s + 1, dataAccesses := dataAccesses s + 1\<rparr>) st3))))"

definition insertBlock :: "'d ReplPolicy \<Rightarrow> tick \<Rightarrow> FillPkt \<Rightarrow> nat \<Rightarrow> 'd Tags \<Rightarrow> 'd Tags result" where
  "insertBlock pol curTick pkt i st =
     bindR (BaseTags_insertBlock curTick pkt i st) (\<lambda>st1.
       let st2 = upd_stats (\<lambda>s. s\<lparr>tagsInUse := tagsInUse s + 1\<rparr>) st1
       in bindR (rp_reset pol curTick i (t_data st2)) (\<lambda>d. Inr (st2\<lparr>t_data := d\<rparr>)))"

definition BaseTags_invalidate :: "nat \<Rightarrow> 'd Tags \<Rightarrow> 'd Tags result" where
  "BaseTags_invalidate i st =
     (let b = t_blks st ! i in
      bindR (assertR (isValid b)) (\<lambda>_.
        let m = blk_srcMasterId b;
            st1 = upd_stats (\<lambda>s. s\<lparr>occupancies := (occupancies s)(m := occupancies s m - 1),
                               totalRefs := totalRefs s + unat (blk_refCount b),
                               sampledRefs := sampledRefs s + 1\<rparr>) st
        in Inr (upd_blk i blk_invalidate st1)))"

definition tags_invalidate :: "'d ReplPolicy \<Rightarrow> nat \<Rightarrow> 'd Tags \<Rightarrow> 'd Tags result" where
  "tags_invalidate pol i st =
     bindR (BaseTags_invalidate i st) (\<lambda>st1.
       let st2 = upd_stats (\<lambda>s. s\<lparr>tagsInUse := tagsInUse s - 1\<rparr>) st1
       in bindR (rp_invalidate pol i (t_data st2)) (\<lambda>d. Inr (st2\<lparr>t_data := d\<rparr>)))"

definition setWayAllocationMax :: "int \<Rightarrow> 'd Tags \<Rightarrow> 'd Tags result" where
  "setWayAllocationMax ways st = (if ways < 1 then Inl Fatal else Inr (st\<lparr>t_allocAssoc := nat ways\<rparr>))"

definition getWayAllocationMax :: "'d Tags \<Rightarrow> nat" where
  "getWayAllocationMax st = t_allocAssoc st"

definition regenerateBlkAddr :: "'d Tags \<Rightarrow> nat \<Rightarrow> addr" where
  "regenerateBlkAddr st i =
     (let b = t_blks st ! i in idx_regenerateAddr (t_kind st) (t_ip st) (blk_tag b) (blk_set b) (blk_way b))"

definition anyBlk :: "(CacheBlk \<Rightarrow> bool) \<Rightarrow> 'd Tags \<Rightarrow> bool" where
  "anyBlk visitor st \<longleftrightarrow> list_ex visitor (t_blks st)"

definition cleanupRefsVisitor :: "CacheBlk \<Rightarrow> TagStats \<Rightarrow> TagStats" where
  "cleanupRefsVisitor b s =
     (if isValid b then s\<lparr>totalRefs := totalRefs s + unat (blk_refCount b), sampledRefs := sampledRefs s + 1\<rparr>
      else s)"

definition cleanupRefs :: "'d Tags \<Rightarrow> 'd Tags" where
  "cleanupRefs st = upd_stats (fold cleanupRefsVisitor (t_blks st)) st"

definition NumTaskId :: u32 where "NumTaskId = 1025"

text \<open>\<open>us\<close> and \<open>ms\<close> are the ticks of a micro- and a millisecond.\<close>

definition computeStatsVisitor :: "tick \<Rightarrow> tick \<Rightarrow> tick \<Rightarrow> CacheBlk \<Rightarrow> TagStats \<Rightarrow> TagStats result" where
  "computeStatsVisitor us ms curTick b s =
     (if isValid b
      then bindR (assertR (blk_task_id b < NumTaskId)) (\<lambda>_.
           let t = blk_task_id b;
               s1 = s\<lparr>occupanciesTaskId := (occupanciesTaskId s)(t := occupanciesTaskId s t + 1)\<rparr>
           in bindR (assertR (blk_tickInserted b \<le> curTick)) (\<lambda>_.
              if us = 0 \<or> ms = 0 then Inl Undefined
              else let age = curTick - blk_tickInserted b;
                       age_index = (if age div us < 10 then 0 else if age div us < 100 then 1
                                    else if age div ms < 1 then 2 else if age div ms < 10 then 3 else 4)
                   in Inr (s1\<lparr>ageTaskId := (ageTaskId s1)(t := (ageTaskId s1 t)(age_index := ageTaskId s1 t age_index + 1))\<rparr>)))
      else Inr s)"

definition computeStats :: "tick \<Rightarrow> tick \<Rightarrow> tick \<Rightarrow> 'd Tags \<Rightarrow> 'd Tags result" where
  "computeStats us ms curTick st =
     bindR (foldR (computeStatsVisitor us ms curTick) (t_blks st)
       ((t_stats st)\<lparr>occupanciesTaskId := (\<lambda>i. if i < NumTaskId then 0 else occupanciesTaskId (t_stats st) i),
          ageTaskId := (\<lambda>i j. if i < NumTaskId \<and> j < 5 then 0 else ageTaskId (t_stats st) i j)\<rparr>))
     (\<lambda>s. Inr (st\<lparr>t_stats := s\<rparr>))"

section \<open>The indexing contract for a store\<close>

definition idx_wf :: "IndexKind \<times> IndexingPolicy \<Rightarrow> bool" where
  "idx_wf p \<longleftrightarrow> (case fst p of SetAssociative \<Rightarrow> SA_wf (snd p) | SkewedAssociative m \<Rightarrow> SK_wf (snd p, m))"

definition idx_extractSet :: "IndexKind \<times> IndexingPolicy \<Rightarrow> addr \<Rightarrow> u32 \<Rightarrow> u32" where
  "idx_extractSet p a w =
     (case fst p of SetAssociative \<Rightarrow> SA_extractSet (snd p) a
      | SkewedAssociative m \<Rightarrow> SK_extractSet (snd p) m a w)"

interpretation ix: indexing_policy idx_wf snd idx_extractSet
  "\<lambda>p. idx_regenerateAddr (fst p) (snd p)" "\<lambda>p. idx_getPossibleEntries (fst p) (snd p)"
proof
  fix p :: "IndexKind \<times> IndexingPolicy" and a :: addr and w :: u32
  obtain k ip where p: "p = (k, ip)" by (cases p)
  assume wf: "idx_wf p"
  note defs = p idx_wf_def idx_extractSet_def idx_regenerateAddr_def idx_getPossibleEntries_def
  note sks = sk.regenerate [of "(ip, _)"] sk.set_of_block [of "(ip, _)"] sk.tag_above [of "(ip, _)"]
    sk.set_in_table [of "(ip, _)"] sk.possible [of "(ip, _)"]
  show "idx_regenerateAddr (fst p) (snd p) (extractTag (snd p) a) (idx_extractSet p a w) w
      = a AND NOT (mask (ip_setShift (snd p)))"
    using wf sa.regenerate [of ip a w] sks(1) [of _ a w] by (auto simp: defs split: IndexKind.splits)
  show "idx_extractSet p (a AND NOT (mask (ip_setShift (snd p)))) w = idx_extractSet p a w"
    using wf sa.set_of_block [of ip a] sks(2) [of _ a w] by (auto simp: defs split: IndexKind.splits)
  show "ip_setShift (snd p) \<le> ip_tagShift (snd p)"
    using wf sa.tag_above [of ip] sks(3) by (auto simp: defs split: IndexKind.splits)
  show "unat (idx_extractSet p a w) < length (ip_sets (snd p))"
    using wf sa.set_in_table [of ip a] sks(4) [of _ a w] by (auto simp: defs split: IndexKind.splits)
  show "idx_getPossibleEntries (fst p) (snd p) a =
      Inr (map (\<lambda>w. ip_sets (snd p) ! unat (idx_extractSet p a (of_nat w)) ! w) [0..<ip_assoc (snd p)])"
    using wf sa.possible [of ip a] sks(5) [of _ a] by (auto simp: defs split: IndexKind.splits)
qed

lemma idx_wf_geometry:
  assumes "idx_wf (k, ip)"
  shows "0 < ip_assoc ip" "ip_assoc ip < 2 ^ 32" "length (ip_sets ip) < 2 ^ 32" "ip_setShift ip < 32"
proof -
  obtain j where j: "ip_wf ip j"
    using assms by (auto simp: idx_wf_def SA_wf_def SK_wf_def split: IndexKind.splits)
  then show "0 < ip_assoc ip" "ip_assoc ip < 2 ^ 32" "ip_setShift ip < 32" by (auto simp: ip_wf_def)
  show "length (ip_sets ip) < 2 ^ 32"
    using j power_strict_increasing [of j 32 "2 :: nat"] by (auto simp: ip_wf_def)
qed

section \<open>The invariant of a store\<close>

text \<open>Every slot of the table points to its block, and the block knows its place.\<close>

definition tags_linked :: "'d Tags \<Rightarrow> bool" where
  "tags_linked st \<longleftrightarrow>
     (let ip = t_ip st; A = ip_assoc ip in
      idx_wf (t_kind st, ip) \<and> length (t_blks st) = length (ip_sets ip) * A
      \<and> t_blkMask st = mask (ip_setShift ip)
      \<and> (\<forall>s < length (ip_sets ip). \<forall>w < A. ip_sets ip ! s ! w = Some (s * A + w)
           \<and> blk_set (t_blks st ! (s * A + w)) = of_nat s \<and> blk_way (t_blks st ! (s * A + w)) = of_nat w))"

text \<open>A valid block sits where the policy puts some address with its tag.\<close>

definition placed :: "'d Tags \<Rightarrow> nat \<Rightarrow> bool" where
  "placed st i \<longleftrightarrow>
     (\<exists>a. blk_tag (t_blks st ! i) = extractTag (t_ip st) a
        \<and> blk_set (t_blks st ! i) = idx_extractSet (t_kind st, t_ip st) a (blk_way (t_blks st ! i)))"

definition tags_inv :: "'d Tags \<Rightarrow> bool" where
  "tags_inv st \<longleftrightarrow> tags_linked st
     \<and> (\<forall>i < length (t_blks st). isValid (t_blks st ! i) \<longrightarrow> placed st i)
     \<and> (\<forall>i < length (t_blks st). \<not> isValid (t_blks st ! i) \<longrightarrow> blk_status (t_blks st ! i) = 0)
     \<and> (\<forall>i < length (t_blks st). \<forall>j < length (t_blks st).
          isValid (t_blks st ! i) \<and> isValid (t_blks st ! j)
          \<and> regenerateBlkAddr st i = regenerateBlkAddr st j
          \<and> isSecure (t_blks st ! i) = isSecure (t_blks st ! j) \<longrightarrow> i = j)"

text \<open>What a block holds.\<close>

definition holds :: "'d Tags \<Rightarrow> addr \<Rightarrow> bool \<Rightarrow> nat \<Rightarrow> bool" where
  "holds st a s i \<longleftrightarrow> i < length (t_blks st) \<and> isValid (t_blks st ! i) \<and> isSecure (t_blks st ! i) = s
     \<and> regenerateBlkAddr st i = blkAlign st a"

definition candidates :: "'d Tags \<Rightarrow> addr \<Rightarrow> nat list" where
  "candidates st a =
     map (\<lambda>w. unat (idx_extractSet (t_kind st, t_ip st) a (of_nat w)) * ip_assoc (t_ip st) + w)
       [0..<ip_assoc (t_ip st)]"

lemma unat_of_nat32: "n < 2 ^ 32 \<Longrightarrow> unat (of_nat n :: u32) = n"
  by (simp add: unat_of_nat take_bit_nat_eq_self)

lemma slot_bound: "s < N \<Longrightarrow> w < A \<Longrightarrow> s * A + w < N * A" for s N w A :: nat
  using mult_le_mono1 [of "Suc s" N A] by simp

lemma possible_candidates:
  assumes "tags_linked st"
  shows "idx_getPossibleEntries (t_kind st) (t_ip st) a = Inr (map Some (candidates st a))"
proof -
  have wf: "idx_wf (t_kind st, t_ip st)" using assms by (simp add: tags_linked_def Let_def)
  show ?thesis
    using ix.possible [OF wf, of a] ix.set_in_table [OF wf, of a] assms
    by (auto simp: candidates_def tags_linked_def Let_def)
qed

lemma block_place:
  assumes "tags_linked st" "i < length (t_blks st)"
  shows "i div ip_assoc (t_ip st) < length (ip_sets (t_ip st))"
    "blk_set (t_blks st ! i) = of_nat (i div ip_assoc (t_ip st))"
    "blk_way (t_blks st ! i) = of_nat (i mod ip_assoc (t_ip st))"
    "unat (blk_set (t_blks st ! i)) = i div ip_assoc (t_ip st)"
    "i mod ip_assoc (t_ip st) < ip_assoc (t_ip st)"
proof -
  let ?A = "ip_assoc (t_ip st)"
  have wf: "idx_wf (t_kind st, t_ip st)" and len: "length (t_blks st) = length (ip_sets (t_ip st)) * ?A"
    using assms(1) by (auto simp: tags_linked_def Let_def)
  note g = idx_wf_geometry [OF wf]
  show d: "i div ?A < length (ip_sets (t_ip st))"
    using assms(2) len g(1) by (simp add: less_mult_imp_div_less)
  show m: "i mod ?A < ?A" using g(1) by simp
  have i: "i div ?A * ?A + i mod ?A = i" by simp
  show set: "blk_set (t_blks st ! i) = of_nat (i div ?A)" and "blk_way (t_blks st ! i) = of_nat (i mod ?A)"
    using assms(1) d m unfolding tags_linked_def Let_def by (metis i)+
  show "unat (blk_set (t_blks st ! i)) = i div ?A"
    unfolding set by (rule unat_of_nat32) (use d g(3) in linarith)
qed

lemma candidate_iff:
  assumes "tags_linked st"
  shows "i \<in> set (candidates st a) \<longleftrightarrow> i < length (t_blks st) \<and>
     blk_set (t_blks st ! i) = idx_extractSet (t_kind st, t_ip st) a (blk_way (t_blks st ! i))"
proof -
  let ?A = "ip_assoc (t_ip st)" and ?e = "\<lambda>w. idx_extractSet (t_kind st, t_ip st) a (of_nat w)"
  have wf: "idx_wf (t_kind st, t_ip st)" and len: "length (t_blks st) = length (ip_sets (t_ip st)) * ?A"
    using assms by (auto simp: tags_linked_def Let_def)
  show ?thesis
  proof
    assume "i \<in> set (candidates st a)"
    then obtain w where w: "w < ?A" "i = unat (?e w) * ?A + w" by (auto simp: candidates_def)
    have b: "unat (?e w) < length (ip_sets (t_ip st))" by (rule ix.set_in_table [OF wf, simplified])
    then have "i < length (t_blks st)" using w len slot_bound by simp
    moreover have "blk_set (t_blks st ! i) = of_nat (unat (?e w))" "blk_way (t_blks st ! i) = of_nat w"
      using assms b w by (simp_all add: tags_linked_def Let_def)
    ultimately show "i < length (t_blks st) \<and>
        blk_set (t_blks st ! i) = idx_extractSet (t_kind st, t_ip st) a (blk_way (t_blks st ! i))" by simp
  next
    assume i: "i < length (t_blks st) \<and>
        blk_set (t_blks st ! i) = idx_extractSet (t_kind st, t_ip st) a (blk_way (t_blks st ! i))"
    note p = block_place [OF assms conjunct1 [OF i]]
    have "i = unat (?e (i mod ?A)) * ?A + i mod ?A" using i p(3,4) by simp
    then show "i \<in> set (candidates st a)" using p(5) unfolding candidates_def by auto
  qed
qed

section \<open>Finding a block\<close>

lemma find_location_find:
  "find_location blks tag sec (map Some cs) =
     Inr (find (\<lambda>i. blk_tag (blks ! i) = tag \<and> isValid (blks ! i) \<and> isSecure (blks ! i) = sec) cs)"
  by (induction cs) auto

lemma findBlock_find:
  assumes "tags_linked st"
  shows "findBlock st a sec = Inr (find (\<lambda>i. blk_tag (t_blks st ! i) = extractTag (t_ip st) a
     \<and> isValid (t_blks st ! i) \<and> isSecure (t_blks st ! i) = sec) (candidates st a))"
  by (simp add: findBlock_def Let_def possible_candidates [OF assms] find_location_find tags_extractTag_def)

lemma linked_wf: "tags_linked st \<Longrightarrow> idx_wf (t_kind st, t_ip st)"
  by (simp add: tags_linked_def Let_def)

lemma blkAlign_block: "tags_linked st \<Longrightarrow> blkAlign st a = ix.block_addr (t_kind st, t_ip st) a"
  by (simp add: blkAlign_def tags_linked_def Let_def ix.block_addr_def)

text \<open>A block at a place of the address with the tag of the address has the address of its block, and
  conversely.\<close>

lemma regenerate_at:
  assumes "tags_linked st" "blk_tag (t_blks st ! i) = extractTag (t_ip st) a"
    "blk_set (t_blks st ! i) = idx_extractSet (t_kind st, t_ip st) a (blk_way (t_blks st ! i))"
  shows "regenerateBlkAddr st i = blkAlign st a"
  using ix.regenerate [OF linked_wf [OF assms(1)], of a "blk_way (t_blks st ! i)"] assms
  by (simp add: regenerateBlkAddr_def Let_def blkAlign_block ix.block_addr_def)

lemma placed_at:
  assumes "tags_linked st" "placed st i" "regenerateBlkAddr st i = blkAlign st a"
  shows "blk_tag (t_blks st ! i) = extractTag (t_ip st) a"
    "blk_set (t_blks st ! i) = idx_extractSet (t_kind st, t_ip st) a (blk_way (t_blks st ! i))"
proof -
  obtain b where b: "blk_tag (t_blks st ! i) = extractTag (t_ip st) b"
      "blk_set (t_blks st ! i) = idx_extractSet (t_kind st, t_ip st) b (blk_way (t_blks st ! i))"
    using assms(2) by (auto simp: placed_def)
  have "ix.block_addr (t_kind st, t_ip st) b = ix.block_addr (t_kind st, t_ip st) a"
    using regenerate_at [OF assms(1) b] assms(3) blkAlign_block [OF assms(1)] by simp
  note same = ix.same_block_same_place [OF linked_wf [OF assms(1)] this]
  show "blk_tag (t_blks st ! i) = extractTag (t_ip st) a"
    "blk_set (t_blks st ! i) = idx_extractSet (t_kind st, t_ip st) a (blk_way (t_blks st ! i))"
    using b same by simp_all
qed

lemma find_Some_unique:
  assumes "\<And>i. i \<in> set cs \<and> P i \<longleftrightarrow> Q i" "\<And>i j. Q i \<Longrightarrow> Q j \<Longrightarrow> i = j"
  shows "find P cs = Some i \<longleftrightarrow> Q i"
proof
  assume "find P cs = Some i"
  then show "Q i" using assms(1) by (auto simp: find_Some_iff in_set_conv_nth)
next
  assume "Q i"
  then have "i \<in> set cs" "P i" using assms(1) by auto
  then obtain j where "find P cs = Some j" by (cases "find P cs") (auto simp: find_None_iff)
  moreover from this have "Q j" using assms(1) by (auto simp: find_Some_iff in_set_conv_nth)
  ultimately show "find P cs = Some i" using \<open>Q i\<close> assms(2) by auto
qed

lemma findBlock_holds:
  assumes inv: "tags_inv st"
  shows "\<exists>r. findBlock st a sec = Inr r \<and> (\<forall>i. r = Some i \<longleftrightarrow> holds st a sec i)"
proof -
  have l: "tags_linked st" using inv by (simp add: tags_inv_def)
  have "find (\<lambda>i. blk_tag (t_blks st ! i) = extractTag (t_ip st) a
     \<and> isValid (t_blks st ! i) \<and> isSecure (t_blks st ! i) = sec) (candidates st a) = Some i
     \<longleftrightarrow> holds st a sec i" for i
  proof (rule find_Some_unique)
    fix i show "i \<in> set (candidates st a) \<and> blk_tag (t_blks st ! i) = extractTag (t_ip st) a
     \<and> isValid (t_blks st ! i) \<and> isSecure (t_blks st ! i) = sec \<longleftrightarrow> holds st a sec i"
      using regenerate_at [OF l, of i a] placed_at [OF l, of i a] inv
      unfolding candidate_iff [OF l] holds_def tags_inv_def by blast
  next
    fix i j assume "holds st a sec i" "holds st a sec j"
    then show "i = j" using inv by (simp add: holds_def tags_inv_def)
  qed
  then show ?thesis using findBlock_find [OF l] by blast
qed

section \<open>Changes\<close>

text \<open>Two stores with the same policy object and blocks at the same places.\<close>

definition same_frame :: "'d Tags \<Rightarrow> 'e Tags \<Rightarrow> bool" where
  "same_frame st st' \<longleftrightarrow> t_kind st' = t_kind st \<and> t_ip st' = t_ip st \<and> t_blkMask st' = t_blkMask st
     \<and> map blk_set (t_blks st') = map blk_set (t_blks st) \<and> map blk_way (t_blks st') = map blk_way (t_blks st)"

lemma same_frame_length: "same_frame st st' \<Longrightarrow> length (t_blks st') = length (t_blks st)"
  unfolding same_frame_def by (metis length_map)

lemma same_frame_place:
  "same_frame st st' \<Longrightarrow> i < length (t_blks st) \<Longrightarrow>
     blk_set (t_blks st' ! i) = blk_set (t_blks st ! i) \<and> blk_way (t_blks st' ! i) = blk_way (t_blks st ! i)"
  using same_frame_length [of st st'] unfolding same_frame_def by (metis nth_map)

lemma same_frame_linked:
  assumes "tags_linked st" "same_frame st st'"
  shows "tags_linked st'"
proof -
  have "s * ip_assoc (t_ip st) + w < length (t_blks st)"
    if "s < length (ip_sets (t_ip st))" "w < ip_assoc (t_ip st)" for s w
    using that assms(1) slot_bound by (simp add: tags_linked_def Let_def)
  then show ?thesis
    using assms same_frame_length [OF assms(2)] same_frame_place [OF assms(2)]
    unfolding tags_linked_def Let_def same_frame_def by simp
qed

lemma same_frame_align: "same_frame st st' \<Longrightarrow> blkAlign st' = blkAlign st"
  by (auto simp: same_frame_def blkAlign_def)

text \<open>A step that keeps the frame and the contents of all blocks but one keeps what these hold.\<close>

lemma same_content:
  assumes "same_frame st st'" "i < length (t_blks st)" "blk_tag (t_blks st' ! i) = blk_tag (t_blks st ! i)"
    "isValid (t_blks st' ! i) = isValid (t_blks st ! i)" "isSecure (t_blks st' ! i) = isSecure (t_blks st ! i)"
  shows "regenerateBlkAddr st' i = regenerateBlkAddr st i" "placed st' i = placed st i"
    "holds st' a s i = holds st a s i"
  using assms same_frame_place [OF assms(1,2)] same_frame_align [OF assms(1)] same_frame_length [OF assms(1)]
  by (auto simp: regenerateBlkAddr_def Let_def placed_def holds_def same_frame_def)

text \<open>A step that changes at most the contents of block \<open>v\<close>.\<close>

definition changes_at :: "nat \<Rightarrow> 'd Tags \<Rightarrow> 'e Tags \<Rightarrow> bool" where
  "changes_at v st st' \<longleftrightarrow> same_frame st st' \<and> (\<forall>i < length (t_blks st). i \<noteq> v \<longrightarrow>
     blk_tag (t_blks st' ! i) = blk_tag (t_blks st ! i) \<and> blk_status (t_blks st' ! i) = blk_status (t_blks st ! i))"

lemma changes_at_content:
  assumes "changes_at v st st'" "i < length (t_blks st)" "i \<noteq> v"
  shows "isValid (t_blks st' ! i) = isValid (t_blks st ! i)" "isSecure (t_blks st' ! i) = isSecure (t_blks st ! i)"
    "regenerateBlkAddr st' i = regenerateBlkAddr st i" "placed st' i = placed st i"
    "holds st' a s i = holds st a s i" "blk_status (t_blks st' ! i) = blk_status (t_blks st ! i)"
  using assms same_content [of st st' i] by (auto simp: changes_at_def isValid_def isSecure_def)

lemma changes_at_invalid:
  assumes inv: "tags_inv st" and ch: "changes_at v st st'" and v: "blk_status (t_blks st' ! v) = 0"
  shows "tags_inv st'" "holds st' a s i \<longleftrightarrow> holds st a s i \<and> i \<noteq> v"
proof -
  have f: "same_frame st st'" using ch by (simp add: changes_at_def)
  have nv: "\<not> isValid (t_blks st' ! v)" using v by (simp add: isValid_def)
  note c = changes_at_content [OF ch] same_frame_length [OF f]
  have valid: "i \<noteq> v" if "isValid (t_blks st' ! i)" for i using that nv by auto
  show "tags_inv st'"
    using inv same_frame_linked [OF _ f] c v nv unfolding tags_inv_def
    by (intro conjI allI impI) (metis valid)+
  show "holds st' a s i \<longleftrightarrow> holds st a s i \<and> i \<noteq> v"
    using c(5) [of i a s] c(7) nv by (cases "i = v") (auto simp: holds_def)
qed

lemma changes_at_same:
  assumes inv: "tags_inv st" and ch: "changes_at v st st'"
    and v: "blk_tag (t_blks st' ! v) = blk_tag (t_blks st ! v)" "isValid (t_blks st' ! v) = isValid (t_blks st ! v)"
      "isSecure (t_blks st' ! v) = isSecure (t_blks st ! v)"
      "\<not> isValid (t_blks st' ! v) \<Longrightarrow> blk_status (t_blks st' ! v) = blk_status (t_blks st ! v)"
  shows "tags_inv st'" "holds st' a s i \<longleftrightarrow> holds st a s i"
proof -
  have f: "same_frame st st'" using ch by (simp add: changes_at_def)
  have b: "isValid (t_blks st' ! i) = isValid (t_blks st ! i)" "isSecure (t_blks st' ! i) = isSecure (t_blks st ! i)"
    "blk_tag (t_blks st' ! i) = blk_tag (t_blks st ! i)"
    "\<not> isValid (t_blks st' ! i) \<Longrightarrow> blk_status (t_blks st' ! i) = blk_status (t_blks st ! i)"
    if "i < length (t_blks st)" for i
    using that v ch changes_at_content(1,2,6) [OF ch that] by (cases "i = v"; simp add: changes_at_def)+
  note c = same_content [OF f _ b(3) b(1) b(2)]
  show "tags_inv st'"
    using inv same_frame_linked [OF _ f] b c same_frame_length [OF f] unfolding tags_inv_def by simp
  show "holds st' a s i \<longleftrightarrow> holds st a s i"
    using c(3) [of i a s] same_frame_length [OF f] by (auto simp: holds_def)
qed

lemma changes_at_filled:
  assumes inv: "tags_inv st" and ch: "changes_at v st st'" and v: "v \<in> set (candidates st a)"
    and new: "blk_tag (t_blks st' ! v) = extractTag (t_ip st) a" "isValid (t_blks st' ! v)"
      "isSecure (t_blks st' ! v) = sec"
    and miss: "\<And>i. holds st a sec i \<Longrightarrow> i = v"
  shows "tags_inv st'"
    "holds st' b s i \<longleftrightarrow> (if i = v then blkAlign st b = blkAlign st a \<and> s = sec else holds st b s i)"
proof -
  have f: "same_frame st st'" using ch by (simp add: changes_at_def)
  have l: "tags_linked st" using inv by (simp add: tags_inv_def)
  note l' = same_frame_linked [OF l f]
  have vlen: "v < length (t_blks st)" and at: "blk_set (t_blks st ! v) =
      idx_extractSet (t_kind st, t_ip st) a (blk_way (t_blks st ! v))"
    using v candidate_iff [OF l] by auto
  have at': "blk_set (t_blks st' ! v) = idx_extractSet (t_kind st', t_ip st') a (blk_way (t_blks st' ! v))"
    and tag': "blk_tag (t_blks st' ! v) = extractTag (t_ip st') a"
    using at new(1) f same_frame_place [OF f vlen] by (auto simp: same_frame_def)
  have reg: "regenerateBlkAddr st' v = blkAlign st a"
    using regenerate_at [OF l' tag' at'] same_frame_align [OF f] by simp
  have pl: "placed st' v" using at' tag' by (auto simp: placed_def)
  note c = changes_at_content [OF ch] and len = same_frame_length [OF f]
  show holds: "holds st' b s i \<longleftrightarrow> (if i = v then blkAlign st b = blkAlign st a \<and> s = sec else holds st b s i)"
    for b s i
    using c(5) [of i b s] len vlen new(2,3) reg same_frame_align [OF f] by (auto simp: holds_def)
  have only: "\<not> (isValid (t_blks st ! j) \<and> regenerateBlkAddr st j = blkAlign st a \<and> isSecure (t_blks st ! j) = sec)"
    if "j < length (t_blks st)" "j \<noteq> v" for j
    using miss [of j] that by (auto simp: holds_def)
  have "i = j" if "i < length (t_blks st)" "j < length (t_blks st)"
    "isValid (t_blks st' ! i) \<and> isValid (t_blks st' ! j)" "regenerateBlkAddr st' i = regenerateBlkAddr st' j"
    "isSecure (t_blks st' ! i) = isSecure (t_blks st' ! j)" for i j
  proof (cases "i = v \<or> j = v")
    case True
    then show ?thesis using that reg new c only by metis
  next
    case False
    then show ?thesis using that c inv unfolding tags_inv_def by simp
  qed
  then have unique: "\<forall>i < length (t_blks st'). \<forall>j < length (t_blks st'). isValid (t_blks st' ! i) \<and> isValid (t_blks st' ! j)
      \<and> regenerateBlkAddr st' i = regenerateBlkAddr st' j
      \<and> isSecure (t_blks st' ! i) = isSecure (t_blks st' ! j) \<longrightarrow> i = j" using len by simp
  have "placed st' i" if "i < length (t_blks st')" "isValid (t_blks st' ! i)" for i
    using that pl c(1,4) [of i] inv len unfolding tags_inv_def by (cases "i = v") simp_all
  moreover have "blk_status (t_blks st' ! i) = 0" if "i < length (t_blks st')" "\<not> isValid (t_blks st' ! i)" for i
    using that new(2) c(1,6) [of i] inv len unfolding tags_inv_def by (cases "i = v") simp_all
  ultimately show "tags_inv st'" using l' unique unfolding tags_inv_def by blast
qed

section \<open>The operations\<close>

lemma status_bits:
  "isValid (b\<lparr>blk_status := BlkValid\<rparr>)" "\<not> isSecure (b\<lparr>blk_status := BlkValid\<rparr>)"
  "isValid (b\<lparr>blk_status := BlkSecure OR BlkValid\<rparr>)" "isSecure (b\<lparr>blk_status := BlkSecure OR BlkValid\<rparr>)"
  by (simp_all add: isValid_def isSecure_def blk_bits)

lemma upd_stats_fields [simp]:
  "t_blks (upd_stats f st) = t_blks st" "t_ip (upd_stats f st) = t_ip st" "t_kind (upd_stats f st) = t_kind st"
  "t_blkMask (upd_stats f st) = t_blkMask st" "t_data (upd_stats f st) = t_data st"
  by (simp_all add: upd_stats_def)

lemma upd_blk_fields [simp]:
  "t_ip (upd_blk i g st) = t_ip st" "t_kind (upd_blk i g st) = t_kind st"
  "t_blkMask (upd_blk i g st) = t_blkMask st" "t_data (upd_blk i g st) = t_data st"
  "t_blks (upd_blk i g st) = (t_blks st)[i := g (t_blks st ! i)]"
  by (simp_all add: upd_blk_def)

lemma changes_atI:
  assumes "t_kind st' = t_kind st" "t_ip st' = t_ip st" "t_blkMask st' = t_blkMask st"
    "t_blks st' = (t_blks st)[v := b]" "blk_set b = blk_set (t_blks st ! v)" "blk_way b = blk_way (t_blks st ! v)"
  shows "changes_at v st st'"
  using assms unfolding changes_at_def same_frame_def
  by (simp add: map_update list_update_same_conv nth_list_update)
    (metis list_update_id map_update nth_map list_update_beyond not_le)

lemma blk_insert_result:
  assumes "blk_insert t tag sec m task b = Inr b'"
  shows "blk_tag b' = tag" "isValid b'" "isSecure b' = sec" "blk_set b' = blk_set b" "blk_way b' = blk_way b"
    "\<not> isDirty b'"
  using assms
  by (auto simp: blk_insert_def setValid_def setSecure_def Let_def bindR_Inr_iff isValid_def isSecure_def isDirty_def
      blk_bits split: if_splits)

lemma insertBlock_changes:
  assumes "insertBlock pol t pkt v st = Inr st'" "v < length (t_blks st)"
  shows "changes_at v st st'" "blk_tag (t_blks st' ! v) = extractTag (t_ip st) (pkt_addr pkt)"
    "isValid (t_blks st' ! v)" "isSecure (t_blks st' ! v) = pkt_secure pkt" "\<not> isDirty (t_blks st' ! v)"
proof -
  obtain b where b: "blk_insert t (extractTag (t_ip st) (pkt_addr pkt)) (pkt_secure pkt) (pkt_masterId pkt) (pkt_taskId pkt)
      (t_blks st ! v) = Inr b" and f: "t_kind st' = t_kind st" "t_ip st' = t_ip st" "t_blkMask st' = t_blkMask st"
      "t_blks st' = (t_blks st)[v := b]"
    using assms(1) unfolding insertBlock_def BaseTags_insertBlock_def Let_def tags_extractTag_def bindR_Inr_iff
    by (auto split: if_splits)
  note r = blk_insert_result [OF b]
  show "changes_at v st st'" by (rule changes_atI [OF f r(4,5)])
  show "blk_tag (t_blks st' ! v) = extractTag (t_ip st) (pkt_addr pkt)"
    "isValid (t_blks st' ! v)" "isSecure (t_blks st' ! v) = pkt_secure pkt" "\<not> isDirty (t_blks st' ! v)"
    using r f(4) assms(2) by simp_all
qed

lemma tags_invalidate_changes:
  assumes "tags_invalidate pol v st = Inr st'"
  shows "changes_at v st st'" "v < length (t_blks st) \<Longrightarrow> blk_status (t_blks st' ! v) = 0"
proof -
  have f: "t_kind st' = t_kind st" "t_ip st' = t_ip st" "t_blkMask st' = t_blkMask st"
      "t_blks st' = (t_blks st)[v := blk_invalidate (t_blks st ! v)]"
    using assms by (auto simp: tags_invalidate_def BaseTags_invalidate_def Let_def bindR_Inr_iff)
  show "changes_at v st st'" by (rule changes_atI [OF f]) (simp_all add: blk_invalidate_def)
  show "v < length (t_blks st) \<Longrightarrow> blk_status (t_blks st' ! v) = 0"
    using f(4) by (simp add: blk_invalidate_def)
qed

lemma accessBlock_result:
  assumes "tags_linked st" "accessBlock pol t a sec st = Inr (st', r, lat)"
  shows "findBlock st a sec = Inr r" "lat = t_lookupLatency st" "\<exists>v. changes_at v st st' \<and>
     blk_tag (t_blks st' ! v) = blk_tag (t_blks st ! v) \<and> blk_status (t_blks st' ! v) = blk_status (t_blks st ! v)"
proof -
  obtain r' where r': "findBlock st a sec = Inr r'" using findBlock_find [OF assms(1)] by blast
  have fr: "r' = r" "lat = t_lookupLatency st"
    using assms(2) r' by (auto simp: accessBlock_def Let_def bindR_Inr_iff split: option.splits)
  have f: "t_kind st' = t_kind st" "t_ip st' = t_ip st" "t_blkMask st' = t_blkMask st"
    using assms(2) r' by (auto simp: accessBlock_def Let_def bindR_Inr_iff split: option.splits if_splits)
  show "findBlock st a sec = Inr r" "lat = t_lookupLatency st" using fr r' by auto
  show "\<exists>v. changes_at v st st' \<and> blk_tag (t_blks st' ! v) = blk_tag (t_blks st ! v)
      \<and> blk_status (t_blks st' ! v) = blk_status (t_blks st ! v)"
  proof (cases r')
    case None
    then have "t_blks st' = t_blks st"
      using assms(2) r' by (auto simp: accessBlock_def Let_def split: if_splits)
    then show ?thesis using f by (auto simp: changes_at_def same_frame_def)
  next
    case (Some i)
    let ?b = "(t_blks st ! i)\<lparr>blk_refCount := blk_refCount (t_blks st ! i) + 1\<rparr>"
    have b: "t_blks st' = (t_blks st)[i := ?b]"
      using assms(2) r' Some by (auto simp: accessBlock_def Let_def bindR_Inr_iff split: if_splits)
    have "changes_at i st st'" by (rule changes_atI [OF f b]) simp_all
    moreover have "t_blks st' ! i = ?b \<or> t_blks st' ! i = t_blks st ! i"
      using b by (cases "i < length (t_blks st)") (simp_all add: list_update_beyond)
    ultimately show ?thesis by fastforce
  qed
qed

lemma accessBlock_inv:
  assumes "tags_inv st" "accessBlock pol t a sec st = Inr (st', r, lat)"
  shows "tags_inv st'" "holds st' b s i \<longleftrightarrow> holds st b s i"
proof -
  have l: "tags_linked st" using assms(1) by (simp add: tags_inv_def)
  obtain v where v: "changes_at v st st'" "blk_tag (t_blks st' ! v) = blk_tag (t_blks st ! v)"
      "blk_status (t_blks st' ! v) = blk_status (t_blks st ! v)"
    using accessBlock_result(3) [OF l assms(2)] by blast
  note same = changes_at_same [OF assms(1) v(1,2)]
  show "tags_inv st'" "holds st' b s i \<longleftrightarrow> holds st b s i"
    by (rule same; simp add: v(3) isValid_def isSecure_def)+
qed

text \<open>A write marks the block it hits as dirty.\<close>

definition markDirty :: "nat \<Rightarrow> 'd Tags \<Rightarrow> 'd Tags" where
  "markDirty i st = upd_blk i (\<lambda>b. b\<lparr>blk_status := blk_status b OR BlkDirty\<rparr>) st"

lemma dirty_bits:
  "isValid (b\<lparr>blk_status := blk_status b OR BlkDirty\<rparr>) = isValid b"
  "isSecure (b\<lparr>blk_status := blk_status b OR BlkDirty\<rparr>) = isSecure b"
  "isDirty (b\<lparr>blk_status := blk_status b OR BlkDirty\<rparr>)"
proof -
  have [simp]: "bit (8 :: u32) 0 = False" "bit (8 :: u32) 6 = False" "bit (8 :: u32) 3 = True" by code_simp+
  have eqs: "x AND 1 \<noteq> 0 \<longleftrightarrow> bit x 0" "x AND 0x40 \<noteq> 0 \<longleftrightarrow> bit x 6" "x AND 8 \<noteq> 0 \<longleftrightarrow> bit x 3" for x :: u32
    using and_exp_eq_0_iff_not_bit [of x 0] and_exp_eq_0_iff_not_bit [of x 6] and_exp_eq_0_iff_not_bit [of x 3]
    by simp_all
  show "isValid (b\<lparr>blk_status := blk_status b OR BlkDirty\<rparr>) = isValid b"
    "isSecure (b\<lparr>blk_status := blk_status b OR BlkDirty\<rparr>) = isSecure b"
    "isDirty (b\<lparr>blk_status := blk_status b OR BlkDirty\<rparr>)"
    by (simp_all only: isValid_def isSecure_def isDirty_def blk_bits eqs CacheBlk.select_convs CacheBlk.surjective
        CacheBlk.update_convs) (simp_all add: bit_or_iff)
qed

lemma markDirty_inv:
  assumes "tags_inv st" "i < length (t_blks st)" "isValid (t_blks st ! i)"
  shows "tags_inv (markDirty i st)"
proof -
  have "changes_at i st (markDirty i st)"
    by (rule changes_atI [where b = "(t_blks st ! i)\<lparr>blk_status := blk_status (t_blks st ! i) OR BlkDirty\<rparr>"])
      (simp_all add: markDirty_def)
  then show ?thesis
    by (rule changes_at_same(1) [OF assms(1)]) (use assms(2,3) in \<open>simp_all add: markDirty_def dirty_bits\<close>)
qed

lemma findVictim_result:
  assumes "tags_linked st" "replacement_policy ok (rp_getVictim pol t)" "findVictim pol t a st = Inr (st', v, ev)"
  shows "v \<in> set (candidates st a)" "ev = [v]" "\<exists>d. st' = st\<lparr>t_data := d\<rparr>"
  using assms(3) replacement_policy.member [OF assms(2)]
  by (auto simp: findVictim_def possible_candidates [OF assms(1)] bindR_Inr_iff o_def)

lemma findVictim_returns:
  assumes "tags_linked st" "replacement_policy ok (rp_getVictim pol t)" "ok (t_data st) (candidates st a)"
  shows "\<exists>st' v. findVictim pol t a st = Inr (st', v, [v])"
proof -
  have "candidates st a \<noteq> []" using idx_wf_geometry(1) [OF linked_wf [OF assms(1)]] by (simp add: candidates_def)
  then obtain v d where "rp_getVictim pol t (t_data st) (candidates st a) = Inr (v, d)"
    using replacement_policy.returns [OF assms(2,3)] by blast
  then show ?thesis
    by (simp add: findVictim_def possible_candidates [OF assms(1)] o_def image_iff)
qed

section \<open>Initialisation\<close>

lemma idx_wf_sets:
  assumes "idx_wf (k, ip)" "length S = length (ip_sets ip)" "\<forall>row \<in> set S. length row = ip_assoc ip"
  shows "idx_wf (k, ip\<lparr>ip_sets := S\<rparr>)"
  using assms by (auto simp: idx_wf_def SA_wf_def SK_wf_def ip_wf_def split: IndexKind.splits)

lemma idx_wf_rows: "idx_wf (k, ip) \<Longrightarrow> row \<in> set (ip_sets ip) \<Longrightarrow> length row = ip_assoc ip"
  "idx_wf (k, ip) \<Longrightarrow> unat (ip_numSets ip) = length (ip_sets ip)"
proof -
  assume "idx_wf (k, ip)"
  then obtain j where j: "ip_wf ip j"
    by (auto simp: idx_wf_def SA_wf_def SK_wf_def split: IndexKind.splits)
  then show "row \<in> set (ip_sets ip) \<Longrightarrow> length row = ip_assoc ip" by (simp add: ip_wf_def)
  show "unat (ip_numSets ip) = length (ip_sets ip)"
    using j unat_of_nat32 [of "2 ^ j"] power_strict_increasing [of j 32 "2 :: nat"]
    by (auto simp: ip_wf_def)
qed

text \<open>The store after the first \<open>n\<close> blocks were linked.\<close>

definition linked_upto :: "nat \<Rightarrow> 'd Tags \<Rightarrow> 'd Tags \<Rightarrow> bool" where
  "linked_upto n st0 st \<longleftrightarrow>
     (let ip = t_ip st; A = ip_assoc ip in
      t_kind st = t_kind st0 \<and> t_blkMask st = t_blkMask st0 \<and> idx_wf (t_kind st, ip)
      \<and> ip = (t_ip st0)\<lparr>ip_sets := ip_sets ip\<rparr> \<and> length (ip_sets ip) = length (ip_sets (t_ip st0))
      \<and> length (t_blks st) = length (t_blks st0) \<and> map blk_status (t_blks st) = map blk_status (t_blks st0)
      \<and> (\<forall>s < length (ip_sets ip). \<forall>w < A. s * A + w < n \<longrightarrow> ip_sets ip ! s ! w = Some (s * A + w)
           \<and> blk_set (t_blks st ! (s * A + w)) = of_nat s \<and> blk_way (t_blks st ! (s * A + w)) = of_nat w))"

lemma setEntry_ok:
  assumes "idx_wf (k, ip)" "n < length (ip_sets ip) * ip_assoc ip"
  shows "setEntry n n ip = Inr (ip\<lparr>ip_sets := (ip_sets ip)[n div ip_assoc ip :=
            (ip_sets ip ! (n div ip_assoc ip))[n mod ip_assoc ip := Some n]]\<rparr>,
            of_nat (n div ip_assoc ip), of_nat (n mod ip_assoc ip))"
proof -
  note g = idx_wf_geometry [OF assms(1)] and r = idx_wf_rows [OF assms(1)]
  have d: "n div ip_assoc ip < length (ip_sets ip)" using assms(2) g(1) by (simp add: less_mult_imp_div_less)
  have m: "n mod ip_assoc ip < ip_assoc ip" using g(1) by simp
  have u: "unat (of_nat (n div ip_assoc ip) :: u32) = n div ip_assoc ip"
    "unat (of_nat (n mod ip_assoc ip) :: u32) = n mod ip_assoc ip"
    using order.strict_trans [OF d g(3)] order.strict_trans [OF m g(2)] by (auto intro: unat_of_nat32)
  have "length (ip_sets ip ! (n div ip_assoc ip)) = ip_assoc ip" using r(1) d by simp
  moreover have "(of_nat (n div ip_assoc ip) :: u32) < ip_numSets ip"
    using d r(2) u(1) by (simp add: word_less_nat_alt)
  ultimately show ?thesis using d m u by (simp add: setEntry_def Let_def)
qed

lemma div_slot: "w < A \<Longrightarrow> (s * A + w) div A = s \<and> (s * A + w) mod A = w" for s A w :: nat
  by simp

lemma tagsInit_step_linked:
  assumes up: "linked_upto n st0 st" and n: "n < length (t_blks st0)"
    and len: "length (t_blks st0) = length (ip_sets (t_ip st0)) * ip_assoc (t_ip st0)"
  shows "\<exists>st'. tagsInit_step pol n st = Inr st' \<and> linked_upto (Suc n) st0 st'"
proof -
  define ip A where "ip = t_ip st" and "A = ip_assoc (t_ip st)"
  have wf: "idx_wf (t_kind st, ip)" and same: "t_kind st = t_kind st0" "t_blkMask st = t_blkMask st0"
      "ip = (t_ip st0)\<lparr>ip_sets := ip_sets ip\<rparr>" "length (ip_sets ip) = length (ip_sets (t_ip st0))"
      "length (t_blks st) = length (t_blks st0)" "map blk_status (t_blks st) = map blk_status (t_blks st0)"
    and old: "\<And>s w. s < length (ip_sets ip) \<Longrightarrow> w < A \<Longrightarrow> s * A + w < n \<Longrightarrow> ip_sets ip ! s ! w = Some (s * A + w)
           \<and> blk_set (t_blks st ! (s * A + w)) = of_nat s \<and> blk_way (t_blks st ! (s * A + w)) = of_nat w"
    using up unfolding linked_upto_def Let_def ip_def A_def by blast+
  have A: "A = ip_assoc (t_ip st0)" "A = ip_assoc ip"
    using same(3) by (simp_all add: A_def ip_def) (metis IndexingPolicy.select_convs(1) IndexingPolicy.update_convs(5) IndexingPolicy.surjective)
  have nA: "n < length (ip_sets ip) * A" using n len same(4) A(1) by simp
  have d: "n div A < length (ip_sets ip)" and m: "n mod A < A"
    using nA idx_wf_geometry(1) [OF wf] A(2) by (simp_all add: less_mult_imp_div_less)
  define S where "S = (ip_sets ip)[n div A := (ip_sets ip ! (n div A))[n mod A := Some n]]"
  define b where "b = (t_blks st ! n)\<lparr>blk_set := of_nat (n div A), blk_way := of_nat (n mod A)\<rparr>"
  define st' where "st' = st\<lparr>t_ip := ip\<lparr>ip_sets := S\<rparr>, t_blks := (t_blks st)[n := b],
      t_data := rp_instantiateEntry pol n (t_data st)\<rparr>"
  have "tagsInit_step pol n st = Inr st'"
    using setEntry_ok [OF wf] nA A(2)
    by (simp add: tagsInit_step_def ip_def [symmetric] st'_def S_def b_def upd_blk_def)
  moreover have "linked_upto (Suc n) st0 st'"
  proof -
    have row: "length r = A" if "r \<in> set (ip_sets ip)" for r using idx_wf_rows(1) [OF wf that] A(2) by simp
    then have rows: "\<forall>r \<in> set S. length r = A"
      using d set_update_subset_insert [of "ip_sets ip" "n div A" "(ip_sets ip ! (n div A))[n mod A := Some n]"]
      by (auto simp: S_def)
    have lenS: "length S = length (ip_sets ip)" by (simp add: S_def)
    have wf': "idx_wf (t_kind st, ip\<lparr>ip_sets := S\<rparr>)"
      using rows A(2) by (intro idx_wf_sets wf) (simp_all add: S_def)
    have slot: "S ! s ! w = Some (s * A + w) \<and> blk_set ((t_blks st)[n := b] ! (s * A + w)) = of_nat s
        \<and> blk_way ((t_blks st)[n := b] ! (s * A + w)) = of_nat w"
      if sw: "s < length (ip_sets ip)" "w < A" "s * A + w < Suc n" for s w
    proof (cases "s * A + w = n")
      case True
      then have "n div A = s" "n mod A = w" using div_slot [OF sw(2), of s] by auto
      then show ?thesis using True sw d row n same(5) by (simp add: S_def b_def)
    next
      case False
      then have less: "s * A + w < n" using sw(3) by simp
      have "s \<noteq> n div A \<or> w \<noteq> n mod A" using False by auto
      then have "S ! s ! w = ip_sets ip ! s ! w"
        using sw(1) by (cases "s = n div A") (auto simp: S_def)
      then show ?thesis using old [OF sw(1,2) less] less by simp
    qed
    have st: "map blk_status ((t_blks st)[n := b]) = map blk_status (t_blks st)"
      by (simp add: map_update b_def list_update_same_conv n same(5))
    have ipeq: "ip\<lparr>ip_sets := S\<rparr> = (t_ip st0)\<lparr>ip_sets := S\<rparr>" using same(3)
      by (metis IndexingPolicy.update_convs(5) IndexingPolicy.surjective)
    show ?thesis
      unfolding linked_upto_def Let_def st'_def
      using same(1,2,4-6) slot wf' st ipeq by (simp add: A [symmetric] lenS)
  qed
  ultimately show ?thesis by blast
qed

lemma tagsInit_linked:
  assumes "idx_wf (t_kind st0, t_ip st0)" "t_blkMask st0 = mask (ip_setShift (t_ip st0))"
    "length (t_blks st0) = length (ip_sets (t_ip st0)) * ip_assoc (t_ip st0)"
    "t_numBlocks st0 = length (t_blks st0)"
  shows "\<exists>st. tagsInit pol st0 = Inr st \<and> tags_linked st \<and> map blk_status (t_blks st) = map blk_status (t_blks st0)"
proof -
  have "\<exists>st. foldR (tagsInit_step pol) [0..<n] st0 = Inr st \<and> linked_upto n st0 st"
    if "n \<le> length (t_blks st0)" for n
    using that
  proof (induction n)
    case 0
    have "linked_upto 0 st0 st0" using assms(1) by (simp add: linked_upto_def Let_def)
    then show ?case by simp
  next
    case (Suc n)
    then obtain st where st: "foldR (tagsInit_step pol) [0..<n] st0 = Inr st" "linked_upto n st0 st" by auto
    obtain st' where "tagsInit_step pol n st = Inr st'" "linked_upto (Suc n) st0 st'"
      using tagsInit_step_linked [OF st(2) _ assms(3)] Suc.prems by fastforce
    then show ?case using st(1) by (simp add: foldR_append)
  qed
  then obtain st where st: "tagsInit pol st0 = Inr st" "linked_upto (length (t_blks st0)) st0 st"
    using assms(4) by (auto simp: tagsInit_def)
  have eq: "t_ip st = (t_ip st0)\<lparr>ip_sets := ip_sets (t_ip st)\<rparr>" using st(2) by (simp add: linked_upto_def Let_def)
  have "ip_assoc (t_ip st) = ip_assoc (t_ip st0)" "ip_setShift (t_ip st) = ip_setShift (t_ip st0)"
    by (subst eq, simp)+
  then have "tags_linked st"
    using st(2) assms slot_bound unfolding linked_upto_def Let_def tags_linked_def by auto
  then show ?thesis using st by (auto simp: linked_upto_def Let_def)
qed

lemma fresh_inv: "tags_linked st \<Longrightarrow> \<forall>b \<in> set (t_blks st). blk_status b = 0 \<Longrightarrow> tags_inv st \<and> \<not> holds st a s i"
  by (auto simp: tags_inv_def holds_def isValid_def)

lemma idx_new_wf:
  assumes "idx_new skewed sz es assoc = Inr (k, ip)" "\<not> skewed \<Longrightarrow> ip_tagShift ip \<le> 32"
  shows "idx_wf (k, ip)" "floorLog2 4 (ucast es) = Inr (ip_setShift ip)" "ip_assoc ip = unat assoc"
proof -
  have base: "BaseIndexingPolicy_new sz es assoc = Inr ip"
    using assms(1) by (auto simp: idx_new_def SkewedAssociative_new_def bindR_Inr_iff split: if_splits)
  show "floorLog2 4 (ucast es) = Inr (ip_setShift ip)" "ip_assoc ip = unat assoc"
    by (fact BaseIndexingPolicy_new_params [OF base])+
  show "idx_wf (k, ip)"
  proof (cases skewed)
    case True
    then show ?thesis using assms(1) by (auto simp: idx_new_def idx_wf_def bindR_Inr_iff dest: SkewedAssociative_new_wf)
  next
    case False
    obtain j where j: "ip_wf ip j" using BaseIndexingPolicy_new_wf [OF base] by auto
    then have "j \<le> 31" by (simp add: ip_wf_def)
    then show ?thesis using False assms j by (auto simp: idx_new_def idx_wf_def SA_wf_def bindR_Inr_iff)
  qed
qed

lemma BaseSetAssoc_new_fields:
  assumes "BaseSetAssoc_new sz bs assoc sq wu lat mm k ip d = Inr st0" "floorLog2 4 (ucast bs) = Inr sh"
  shows "t_blkMask st0 = mask sh" "t_kind st0 = k" "t_ip st0 = ip" "\<forall>b \<in> set (t_blks st0). blk_status b = 0"
    "length (t_blks st0) = unat (sz div ucast bs)" "t_numBlocks st0 = unat (ucast (sz div ucast bs) :: u32)"
proof -
  have p: "isPowerOf2 (ucast bs)" and st0: "t_blkMask st0 = ucast (bs - 1)"
      "t_blks st0 = replicate (unat (sz div ucast bs)) CacheBlk_new"
      "t_kind st0 = k" "t_ip st0 = ip" "t_numBlocks st0 = unat (ucast (sz div ucast bs) :: u32)"
    using assms(1) by (auto simp: BaseSetAssoc_new_def Let_def split: if_splits)
  have bs: "sh < 32" "bs = 2 ^ sh" using isPowerOf2_u32 [OF p assms(2)] by auto
  have "bs - 1 = mask sh" using bs(2) by (simp add: mask_eq_exp_minus_1)
  moreover have "ucast (mask sh :: u32) = (mask sh :: addr)"
    by (rule bit_word_eqI) (use bs(1) in \<open>auto simp: bit_simps\<close>)
  ultimately show "t_blkMask st0 = mask sh" using st0(1) by simp
  show "t_kind st0 = k" "t_ip st0 = ip" "\<forall>b \<in> set (t_blks st0). blk_status b = 0"
    "length (t_blks st0) = unat (sz div ucast bs)" "t_numBlocks st0 = unat (ucast (sz div ucast bs) :: u32)"
    using st0(2-5) by (simp_all add: CacheBlk_new_def blk_invalidate_def)
qed

lemma init_inv:
  assumes "idx_new skewed sz bs assoc = Inr (k, ip)" "\<not> skewed \<Longrightarrow> ip_tagShift ip \<le> 32"
    "BaseSetAssoc_new sz bs ways sq wu lat mm k ip d = Inr st0"
    "unat (sz div ucast bs) = length (ip_sets ip) * ip_assoc ip" "unat (sz div ucast bs) < 2 ^ 32"
  shows "\<exists>st. tagsInit pol st0 = Inr st \<and> tags_inv st \<and> (\<forall>a s i. \<not> holds st a s i)"
proof -
  note w = idx_new_wf [OF assms(1,2)] and f = BaseSetAssoc_new_fields [OF assms(3) idx_new_wf(2) [OF assms(1,2)]]
  have "unat (ucast (sz div ucast bs) :: u32) = unat (sz div ucast bs)"
    using assms(5) by (simp add: unsigned_ucast_eq take_bit_nat_eq_self)
  then obtain st where st: "tagsInit pol st0 = Inr st" "tags_linked st"
      "map blk_status (t_blks st) = map blk_status (t_blks st0)"
    using tagsInit_linked [of st0 pol] w f assms(4) by auto
  have "\<forall>b \<in> set (t_blks st). blk_status b = 0"
    using st(3) f(4) by (metis (no_types, lifting) imageE imageI list.set_map)
  then show ?thesis using fresh_inv [OF st(2)] st(1) by blast
qed

section \<open>Properties\<close>

text \<open>C33: \<open>findBlock\<close> is exact. In every store that satisfies the invariant the search returns, without
  touching a null entry, a block if and only if that block is valid, has the security state asked for and its
  regenerated address is the address of the block asked for; so there is at most one such block.\<close>

theorem findBlock_exact:
  assumes "tags_inv st"
  shows "\<exists>r. findBlock st a sec = Inr r \<and>
     (\<forall>i. r = Some i \<longleftrightarrow> i < length (t_blks st) \<and> isValid (t_blks st ! i) \<and> isSecure (t_blks st ! i) = sec
        \<and> regenerateBlkAddr st i = blkAlign st a)"
  using findBlock_holds [OF assms] unfolding holds_def by blast

text \<open>C34: Initialisation. When the constructors of the indexing policy and of the tag store accept a geometry whose
  blocks fill the table exactly (fewer than \<open>2^32\<close> blocks; for the set-associative policy a tag that starts within
  the first 32 address bits), \<open>tagsInit\<close> succeeds and gives an empty store that satisfies the invariant: every
  search misses.\<close>

theorem tagsInit_empty:
  assumes "idx_new skewed sz bs assoc = Inr (k, ip)" "\<not> skewed \<Longrightarrow> ip_tagShift ip \<le> 32"
    "BaseSetAssoc_new sz bs ways sq wu lat mm k ip d = Inr st0"
    "unat (sz div ucast bs) = length (ip_sets ip) * ip_assoc ip" "unat (sz div ucast bs) < 2 ^ 32"
  shows "\<exists>st. tagsInit pol st0 = Inr st \<and> tags_inv st \<and> (\<forall>a s. findBlock st a s = Inr None)"
proof -
  obtain st where st: "tagsInit pol st0 = Inr st" "tags_inv st" "\<forall>a s i. \<not> holds st a s i"
    using init_inv [OF assms] by blast
  then have "findBlock st a s = Inr None" for a s
    using findBlock_holds [OF st(2), of a s] by (metis not_Some_eq)
  with st show ?thesis by blast
qed

section \<open>Witnesses\<close>

definition lru_policy :: "(entry \<Rightarrow> LRUReplData) ReplPolicy" where
  "lru_policy = \<lparr>rp_instantiateEntry = (\<lambda>e d. d(e := LRU_instantiateEntry)),
     rp_touch = (\<lambda>t e d. Inr (LRU_touch t e d)), rp_reset = (\<lambda>t e d. Inr (LRU_reset t e d)),
     rp_invalidate = (\<lambda>e d. Inr (LRU_invalidate e d)), rp_getVictim = (\<lambda>t. keep LRU_getVictim)\<rparr>"

definition demo_tags0 :: "(entry \<Rightarrow> LRUReplData) Tags" where
  "demo_tags0 = projr (BaseSetAssoc_new 512 64 2 False 0 1 4 (SkewedAssociative 1) (fst skew_demo) (\<lambda>_. LRU_instantiateEntry))"

definition demo_tags :: "(entry \<Rightarrow> LRUReplData) Tags" where
  "demo_tags = projr (tagsInit lru_policy demo_tags0)"

lemma demo_tags0_new:
  "idx_new True 512 64 2 = Inr (SkewedAssociative 1, fst skew_demo)"
  "BaseSetAssoc_new 512 64 2 False 0 1 4 (SkewedAssociative 1) (fst skew_demo) (\<lambda>_. LRU_instantiateEntry) = Inr demo_tags0"
  "unat (512 div ucast (64 :: u32) :: u64) = length (ip_sets (fst skew_demo)) * ip_assoc (fst skew_demo)"
  "unat (512 div ucast (64 :: u32) :: u64) < 2 ^ 32"
proof -
  show "idx_new True 512 64 2 = Inr (SkewedAssociative 1, fst skew_demo)"
    by (simp add: idx_new_def skew_demo_new skew_demo_def)
  have "isPowerOf2 64" by (simp add: isPowerOf2_iff) (rule exI [of _ 6], simp)
  then show "BaseSetAssoc_new 512 64 2 False 0 1 4 (SkewedAssociative 1) (fst skew_demo) (\<lambda>_. LRU_instantiateEntry) = Inr demo_tags0"
    unfolding demo_tags0_def BaseSetAssoc_new_def by simp
qed (simp_all add: skew_demo_def)

lemma demo_tags_inv: "tagsInit lru_policy demo_tags0 = Inr demo_tags" "tags_inv demo_tags" "\<not> holds demo_tags a s i"
  using init_inv [OF demo_tags0_new(1) _ demo_tags0_new(2-4), of lru_policy] by (auto simp: demo_tags_def)

theorem tagsInit_empty_witness:
  "\<exists>st. tagsInit lru_policy demo_tags0 = Inr st \<and> tags_inv st \<and> (\<forall>a s. findBlock st a s = Inr None)"
  by (rule tagsInit_empty [OF demo_tags0_new(1) _ demo_tags0_new(2-4)]) simp

theorem findBlock_exact_witness:
  "\<exists>r. findBlock demo_tags 0x12345 False = Inr r \<and>
     (\<forall>i. r = Some i \<longleftrightarrow> i < length (t_blks demo_tags) \<and> isValid (t_blks demo_tags ! i)
        \<and> isSecure (t_blks demo_tags ! i) = False \<and> regenerateBlkAddr demo_tags i = blkAlign demo_tags 0x12345)"
  by (rule findBlock_exact [OF demo_tags_inv(2)])

end
