(* ===== verification/CacheFill.thy ===== *)
theory CacheFill
  imports CacheTags
begin

text \<open>
  The replacement path of a cache, \<open>mem/cache/base.cc\<close>, \<open>mem/cache/cache.cc\<close> and the search of
  \<open>mem/cache/queue.hh\<close>: \<open>allocateBlock\<close> asks the tag store for a victim, gives up if a miss for the
  victim is outstanding, writes the victim back or announces its eviction, and installs the new block.
  The cache has no compressor, and its data array and the packet payloads are not modelled.
\<close>

section \<open>Model\<close>

datatype WbCmd = WritebackDirty | WritebackClean | CleanEvict

record WbPkt =
  wb_cmd :: WbCmd
  wb_addr :: addr
  wb_secure :: bool
  wb_taskId :: u32
  wb_hasSharers :: bool

text \<open>An outstanding miss, as far as the replacement path reads it.\<close>

record MSHR =
  mshr_blkAddr :: addr
  mshr_isSecure :: bool
  mshr_isUncacheable :: bool
  mshr_needsWritable :: bool
  mshr_isCleaning :: bool

record 'd BaseCache =
  c_tags :: "'d Tags"
  c_mshrQueue :: "MSHR list"
  c_writebackClean :: bool
  c_isReadOnly :: bool
  c_replacements :: nat
  c_unusedPrefetches :: nat
  c_writebacks :: nat

definition matchBlockAddr :: "addr \<Rightarrow> bool \<Rightarrow> MSHR \<Rightarrow> bool" where
  "matchBlockAddr a is_secure m \<longleftrightarrow> mshr_blkAddr m = a \<and> mshr_isSecure m = is_secure"

fun findMatch :: "addr \<Rightarrow> bool \<Rightarrow> bool \<Rightarrow> MSHR list \<Rightarrow> MSHR option" where
  "findMatch a is_secure ignore_uncacheable [] = None"
| "findMatch a is_secure ignore_uncacheable (m # ms) =
     (if \<not> (ignore_uncacheable \<and> mshr_isUncacheable m) \<and> matchBlockAddr a is_secure m then Some m
      else findMatch a is_secure ignore_uncacheable ms)"

definition writebackBlk :: "nat \<Rightarrow> 'd BaseCache \<Rightarrow> ('d BaseCache \<times> WbPkt) result" where
  "writebackBlk i c =
     (let b = t_blks (c_tags c) ! i in
      if c_isReadOnly c \<and> \<not> c_writebackClean c then Inl Panic
      else bindR (assertR (isValid b \<and> (isDirty b \<or> c_writebackClean c))) (\<lambda>_.
        let pkt = \<lparr>wb_cmd = (if isDirty b then WritebackDirty else WritebackClean),
                   wb_addr = regenerateBlkAddr (c_tags c) i, wb_secure = isSecure b,
                   wb_taskId = blk_task_id b, wb_hasSharers = \<not> isWritable b\<rparr>;
            b1 = (if isWritable b then b\<lparr>blk_status := blk_status b AND NOT BlkWritable\<rparr> else b);
            b2 = b1\<lparr>blk_status := blk_status b1 AND NOT BlkDirty\<rparr>
        in Inr (c\<lparr>c_tags := upd_blk i (\<lambda>_. b2) (c_tags c), c_writebacks := c_writebacks c + 1\<rparr>, pkt)))"

definition cleanEvictBlk :: "nat \<Rightarrow> 'd BaseCache \<Rightarrow> WbPkt result" where
  "cleanEvictBlk i c =
     (let b = t_blks (c_tags c) ! i in
      bindR (assertR (\<not> c_writebackClean c)) (\<lambda>_.
      bindR (assertR (isValid b \<and> \<not> isDirty b)) (\<lambda>_.
        Inr \<lparr>wb_cmd = CleanEvict, wb_addr = regenerateBlkAddr (c_tags c) i, wb_secure = isSecure b,
             wb_taskId = blk_task_id b, wb_hasSharers = False\<rparr>)))"

text \<open>The blocks passed here are blocks of the tag store, never the temporary block.\<close>

definition invalidateBlock :: "'d ReplPolicy \<Rightarrow> nat \<Rightarrow> 'd BaseCache \<Rightarrow> 'd BaseCache result" where
  "invalidateBlock pol i c =
     (let c1 = (if wasPrefetched (t_blks (c_tags c) ! i)
                then c\<lparr>c_unusedPrefetches := c_unusedPrefetches c + 1\<rparr> else c)
      in bindR (tags_invalidate pol i (c_tags c1)) (\<lambda>t. Inr (c1\<lparr>c_tags := t\<rparr>)))"

definition Cache_evictBlock :: "'d ReplPolicy \<Rightarrow> nat \<Rightarrow> 'd BaseCache \<Rightarrow> ('d BaseCache \<times> WbPkt) result" where
  "Cache_evictBlock pol i c =
     bindR (if isDirty (t_blks (c_tags c) ! i) \<or> c_writebackClean c then writebackBlk i c
            else bindR (cleanEvictBlk i c) (\<lambda>pkt. Inr (c, pkt))) (\<lambda>(c1, pkt).
     bindR (invalidateBlock pol i c1) (\<lambda>c2. Inr (c2, pkt)))"

definition evictBlock ::
    "'d ReplPolicy \<Rightarrow> nat \<Rightarrow> 'd BaseCache \<times> WbPkt list \<Rightarrow> ('d BaseCache \<times> WbPkt list) result" where
  "evictBlock pol i cw =
     bindR (Cache_evictBlock pol i (fst cw)) (\<lambda>(c1, pkt). Inr (c1, snd cw @ [pkt]))"

text \<open>The first loop of \<open>handleEvictions\<close>: \<open>None\<close> when a block with an outstanding miss is found, otherwise
  whether some block is valid.\<close>

fun check_evictions :: "'d BaseCache \<Rightarrow> nat list \<Rightarrow> bool \<Rightarrow> bool option result" where
  "check_evictions c [] replacement = Inr (Some replacement)"
| "check_evictions c (i # is) replacement =
     (let b = t_blks (c_tags c) ! i in
      if isValid b
      then (case findMatch (regenerateBlkAddr (c_tags c) i) (isSecure b) True (c_mshrQueue c) of
              Some mshr \<Rightarrow>
                bindR (assertR (\<not> isWritable b \<and> mshr_needsWritable mshr \<or> mshr_isCleaning mshr))
                  (\<lambda>_. Inr None)
            | None \<Rightarrow> check_evictions c is True)
      else check_evictions c is replacement)"

definition handleEvictions ::
    "'d ReplPolicy \<Rightarrow> nat list \<Rightarrow> 'd BaseCache \<times> WbPkt list \<Rightarrow> (('d BaseCache \<times> WbPkt list) \<times> bool) result" where
  "handleEvictions pol evict_blks cw =
     bindR (check_evictions (fst cw) evict_blks False) (\<lambda>r.
       case r of
         None \<Rightarrow> Inr (cw, False)
       | Some replacement \<Rightarrow>
           if replacement
           then bindR (foldR (\<lambda>i cw. if isValid (t_blks (c_tags (fst cw)) ! i) then evictBlock pol i cw else Inr cw)
                         evict_blks ((fst cw)\<lparr>c_replacements := c_replacements (fst cw) + 1\<rparr>, snd cw))
                  (\<lambda>cw. Inr (cw, True))
           else Inr (cw, True))"

definition allocateBlock ::
    "'d ReplPolicy \<Rightarrow> tick \<Rightarrow> FillPkt \<Rightarrow> 'd BaseCache \<times> WbPkt list \<Rightarrow> (('d BaseCache \<times> WbPkt list) \<times> nat option) result"
  where
  "allocateBlock pol curTick pkt cw =
     bindR (findVictim pol curTick (pkt_addr pkt) (c_tags (fst cw))) (\<lambda>(t1, victim, evict_blks).
     bindR (handleEvictions pol evict_blks ((fst cw)\<lparr>c_tags := t1\<rparr>, snd cw)) (\<lambda>(cw1, ok).
       if \<not> ok then Inr (cw1, None)
       else bindR (insertBlock pol curTick pkt victim (c_tags (fst cw1))) (\<lambda>t2.
              Inr (((fst cw1)\<lparr>c_tags := t2\<rparr>, snd cw1), Some victim))))"

section \<open>Lemmas\<close>

lemma changes_at_trans:
  assumes "changes_at v st1 st2" "changes_at v st2 st3"
  shows "changes_at v st1 st3"
proof -
  have "length (t_blks st2) = length (t_blks st1)"
    using assms(1) same_frame_length by (auto simp: changes_at_def)
  then show ?thesis using assms by (simp add: changes_at_def same_frame_def)
qed

lemma writebackBlk_result:
  assumes "writebackBlk i c = Inr (c', pkt)"
  shows "changes_at i (c_tags c) (c_tags c')" "wb_addr pkt = regenerateBlkAddr (c_tags c) i"
    "wb_secure pkt = isSecure (t_blks (c_tags c) ! i)"
    "wb_cmd pkt = WritebackDirty \<longleftrightarrow> isDirty (t_blks (c_tags c) ! i)"
proof -
  obtain b where b: "t_blks (c_tags c') = (t_blks (c_tags c))[i := b]" "blk_set b = blk_set (t_blks (c_tags c) ! i)"
      "blk_way b = blk_way (t_blks (c_tags c) ! i)"
    and f: "t_kind (c_tags c') = t_kind (c_tags c)" "t_ip (c_tags c') = t_ip (c_tags c)"
      "t_blkMask (c_tags c') = t_blkMask (c_tags c)"
    using assms by (auto simp: writebackBlk_def Let_def bindR_Inr_iff split: if_splits)
  show "changes_at i (c_tags c) (c_tags c')" by (rule changes_atI [OF f b])
  show "wb_addr pkt = regenerateBlkAddr (c_tags c) i" "wb_secure pkt = isSecure (t_blks (c_tags c) ! i)"
    "wb_cmd pkt = WritebackDirty \<longleftrightarrow> isDirty (t_blks (c_tags c) ! i)"
    using assms by (auto simp: writebackBlk_def Let_def bindR_Inr_iff split: if_splits)
qed

lemma invalidateBlock_result:
  assumes "invalidateBlock pol i c = Inr c'" "i < length (t_blks (c_tags c))"
  shows "changes_at i (c_tags c) (c_tags c')" "blk_status (t_blks (c_tags c') ! i) = 0"
proof -
  have "tags_invalidate pol i (c_tags c) = Inr (c_tags c')"
    using assms(1) by (auto simp: invalidateBlock_def Let_def bindR_Inr_iff split: if_splits)
  from tags_invalidate_changes [OF this] assms(2)
  show "changes_at i (c_tags c) (c_tags c')" "blk_status (t_blks (c_tags c') ! i) = 0" by simp_all
qed

lemma changes_at_length: "changes_at v st st' \<Longrightarrow> length (t_blks st') = length (t_blks st)"
  using same_frame_length by (auto simp: changes_at_def)

lemma evictBlock_result:
  assumes "evictBlock pol i (c, wbs) = Inr (c', wbs')" "i < length (t_blks (c_tags c))"
  shows "changes_at i (c_tags c) (c_tags c')" "blk_status (t_blks (c_tags c') ! i) = 0"
    "\<exists>pkt. wbs' = wbs @ [pkt] \<and> wb_addr pkt = regenerateBlkAddr (c_tags c) i \<and>
       wb_secure pkt = isSecure (t_blks (c_tags c) ! i) \<and>
       (wb_cmd pkt = WritebackDirty \<longleftrightarrow> isDirty (t_blks (c_tags c) ! i))"
proof -
  obtain pkt where e: "Cache_evictBlock pol i c = Inr (c', pkt)" and w: "wbs' = wbs @ [pkt]"
    using assms(1) by (auto simp: evictBlock_def bindR_Inr_iff)
  obtain c1 where c1: "(if isDirty (t_blks (c_tags c) ! i) \<or> c_writebackClean c then writebackBlk i c
      else bindR (cleanEvictBlk i c) (\<lambda>pkt. Inr (c, pkt))) = Inr (c1, pkt)"
    and inv: "invalidateBlock pol i c1 = Inr c'"
    using e by (auto simp: Cache_evictBlock_def bindR_Inr_iff simp del: if_split)
  have p: "changes_at i (c_tags c) (c_tags c1) \<and> wb_addr pkt = regenerateBlkAddr (c_tags c) i \<and>
      wb_secure pkt = isSecure (t_blks (c_tags c) ! i) \<and> (wb_cmd pkt = WritebackDirty \<longleftrightarrow> isDirty (t_blks (c_tags c) ! i))"
  proof (cases "isDirty (t_blks (c_tags c) ! i) \<or> c_writebackClean c")
    case True
    then show ?thesis using c1 writebackBlk_result [of i c c1 pkt] by simp
  next
    case False
    then show ?thesis using c1
      by (auto simp: cleanEvictBlk_def Let_def bindR_Inr_iff changes_at_def same_frame_def)
  qed
  have len: "i < length (t_blks (c_tags c1))" using p assms(2) changes_at_length by metis
  note r = invalidateBlock_result [OF inv len]
  show "changes_at i (c_tags c) (c_tags c')" using changes_at_trans p r(1) by blast
  show "blk_status (t_blks (c_tags c') ! i) = 0" by (rule r(2))
  show "\<exists>pkt. wbs' = wbs @ [pkt] \<and> wb_addr pkt = regenerateBlkAddr (c_tags c) i \<and>
       wb_secure pkt = isSecure (t_blks (c_tags c) ! i) \<and>
       (wb_cmd pkt = WritebackDirty \<longleftrightarrow> isDirty (t_blks (c_tags c) ! i))" using p w by blast
qed

text \<open>The evictions for one victim: nothing happens when a miss for it is outstanding or it is invalid,
  otherwise it is evicted.\<close>

lemma handleEvictions_single:
  assumes h: "handleEvictions pol [v] (c, wbs) = Inr ((c', wbs'), ok)" and v: "v < length (t_blks (c_tags c))"
  obtains (busy) "\<not> ok" "c' = c" "wbs' = wbs"
    | (free) "ok" "c' = c" "wbs' = wbs" "\<not> isValid (t_blks (c_tags c) ! v)"
    | (evicted) pkt where "ok" "isValid (t_blks (c_tags c) ! v)" "changes_at v (c_tags c) (c_tags c')" "blk_status (t_blks (c_tags c') ! v) = 0"
       "wbs' = wbs @ [pkt]" "wb_addr pkt = regenerateBlkAddr (c_tags c) v"
       "wb_secure pkt = isSecure (t_blks (c_tags c) ! v)"
       "wb_cmd pkt = WritebackDirty \<longleftrightarrow> isDirty (t_blks (c_tags c) ! v)"
proof (cases "isValid (t_blks (c_tags c) ! v)")
  case False
  then show ?thesis using h free by (auto simp: handleEvictions_def)
next
  case valid: True
  show ?thesis
  proof (cases "findMatch (regenerateBlkAddr (c_tags c) v) (isSecure (t_blks (c_tags c) ! v)) True (c_mshrQueue c)")
    case (Some m)
    then have "\<not> ok \<and> c' = c \<and> wbs' = wbs" using h valid by (auto simp: handleEvictions_def bindR_Inr_iff)
    then show ?thesis using busy by blast
  next
    case None
    let ?c = "c\<lparr>c_replacements := c_replacements c + 1\<rparr>"
    have e: "evictBlock pol v (?c, wbs) = Inr (c', wbs')" and ok
      using h valid None by (auto simp: handleEvictions_def bindR_Inr_iff)
    note r = evictBlock_result [OF e]
    show ?thesis using r v evicted \<open>ok\<close> valid by (fastforce simp: changes_at_def same_frame_def)
  qed
qed

text \<open>What an allocation does: it fails and leaves the store as it is, or it empties the victim, if that is
  valid, and fills it.\<close>

lemma allocateBlock_cases:
  assumes l: "tags_linked (c_tags c)" and pol: "replacement_policy ok (rp_getVictim pol t)"
    and a: "allocateBlock pol t pkt (c, wbs) = Inr ((c', wbs'), r)"
  obtains (failed) "r = None" "\<exists>d. c_tags c' = (c_tags c)\<lparr>t_data := d\<rparr>" "wbs' = wbs"
    | (filled) v st where "r = Some v" "v \<in> set (candidates (c_tags c) (pkt_addr pkt))"
       "changes_at v (c_tags c) st" "insertBlock pol t pkt v st = Inr (c_tags c')"
       "isValid (t_blks (c_tags c) ! v) \<Longrightarrow> blk_status (t_blks st ! v) = 0 \<and>
          (\<exists>p. wbs' = wbs @ [p] \<and> wb_addr p = regenerateBlkAddr (c_tags c) v
             \<and> wb_secure p = isSecure (t_blks (c_tags c) ! v)
             \<and> (wb_cmd p = WritebackDirty \<longleftrightarrow> isDirty (t_blks (c_tags c) ! v)))"
       "\<not> isValid (t_blks (c_tags c) ! v) \<Longrightarrow> t_blks st = t_blks (c_tags c)"
proof -
  obtain t1 v ev where v: "findVictim pol t (pkt_addr pkt) (c_tags c) = Inr (t1, v, ev)"
    using a by (cases "findVictim pol t (pkt_addr pkt) (c_tags c)") (auto simp: allocateBlock_def)
  obtain c1 w1 ok' where h: "handleEvictions pol ev (c\<lparr>c_tags := t1\<rparr>, wbs) = Inr ((c1, w1), ok')"
    using a v by (cases "handleEvictions pol ev (c\<lparr>c_tags := t1\<rparr>, wbs)") (auto simp: allocateBlock_def)
  have r: "(if \<not> ok' then Inr ((c1, w1), None) else bindR (insertBlock pol t pkt v (c_tags c1)) (\<lambda>t2.
              Inr ((c1\<lparr>c_tags := t2\<rparr>, w1), Some v))) = Inr ((c', wbs'), r)"
    using a v h by (cases ok') (simp_all add: allocateBlock_def)
  obtain d where ev: "v \<in> set (candidates (c_tags c) (pkt_addr pkt))" "ev = [v]" "t1 = (c_tags c)\<lparr>t_data := d\<rparr>"
    using findVictim_result [OF l pol v] by auto
  have t1: "changes_at v (c_tags c) t1" "t_blks t1 = t_blks (c_tags c)"
      "regenerateBlkAddr t1 v = regenerateBlkAddr (c_tags c) v"
    using ev(3) by (simp_all add: changes_at_def same_frame_def regenerateBlkAddr_def)
  have "v < length (t_blks (c_tags (c\<lparr>c_tags := t1\<rparr>)))" using candidate_iff [OF l] ev(1) t1(2) by auto
  from h [unfolded ev(2)] this show ?thesis
  proof (cases rule: handleEvictions_single)
    case busy
    then show ?thesis using r ev(3) by (intro failed) auto
  next
    case free
    then show ?thesis using r ev t1 by (intro filled [of v "c_tags c1"]) (auto simp: bindR_Inr_iff)
  next
    case (evicted p)
    then show ?thesis using r ev t1 changes_at_trans [OF t1(1), of "c_tags c1"]
      by (intro filled [of v "c_tags c1"]) (auto simp: bindR_Inr_iff)
  qed
qed

lemma allocateBlock_holds:
  assumes inv: "tags_inv (c_tags c)" and pol: "replacement_policy ok (rp_getVictim pol t)"
    and miss: "\<And>i. \<not> holds (c_tags c) (pkt_addr pkt) (pkt_secure pkt) i"
    and a: "allocateBlock pol t pkt (c, wbs) = Inr ((c', wbs'), Some v)"
  shows "tags_inv (c_tags c')" "holds (c_tags c') b s i \<longleftrightarrow>
     (if i = v then blkAlign (c_tags c) b = blkAlign (c_tags c) (pkt_addr pkt) \<and> s = pkt_secure pkt
      else holds (c_tags c) b s i)"
proof -
  have l: "tags_linked (c_tags c)" using inv by (simp add: tags_inv_def)
  obtain st where v: "v \<in> set (candidates (c_tags c) (pkt_addr pkt))"
      and ch: "changes_at v (c_tags c) st" and ins: "insertBlock pol t pkt v st = Inr (c_tags c')"
  proof (cases rule: allocateBlock_cases [OF l pol a])
    case (2 w st)
    then have "w = v" by simp
    then show ?thesis using that 2(2-4) by simp
  qed simp
  have f: "same_frame (c_tags c) st" using ch by (simp add: changes_at_def)
  have vl: "v < length (t_blks st)" using candidate_iff [OF l] v same_frame_length [OF f] by auto
  note r = insertBlock_changes [OF ins vl]
  have "blk_tag (t_blks (c_tags c') ! v) = extractTag (t_ip (c_tags c)) (pkt_addr pkt)"
    using r(2) f by (simp add: same_frame_def)
  note fill = changes_at_filled [OF inv changes_at_trans [OF ch r(1)] v this r(3,4)]
  show "tags_inv (c_tags c')" by (rule fill(1)) (use miss in blast)
  show "holds (c_tags c') b s i \<longleftrightarrow>
     (if i = v then blkAlign (c_tags c) b = blkAlign (c_tags c) (pkt_addr pkt) \<and> s = pkt_secure pkt
      else holds (c_tags c) b s i)" by (rule fill(2)) (use miss in blast)
qed

subsection \<open>Success\<close>

lemma clear_keeps_valid:
  "isValid (b\<lparr>blk_status := blk_status b AND NOT BlkWritable\<rparr>) = isValid b"
  "isValid (b\<lparr>blk_status := blk_status b AND NOT BlkDirty\<rparr>) = isValid b"
proof -
  have [simp]: "bit (8 :: u32) 0 = False" "bit (2 :: u32) 0 = False" by code_simp+
  have eq: "x AND 1 \<noteq> 0 \<longleftrightarrow> bit x 0" for x :: u32 using and_exp_eq_0_iff_not_bit [of x 0] by simp
  show "isValid (b\<lparr>blk_status := blk_status b AND NOT BlkWritable\<rparr>) = isValid b"
    "isValid (b\<lparr>blk_status := blk_status b AND NOT BlkDirty\<rparr>) = isValid b"
    by (simp_all only: isValid_def blk_bits eq CacheBlk.select_convs CacheBlk.surjective CacheBlk.update_convs)
      (simp_all add: bit_and_iff bit_not_iff)
qed

text \<open>A policy whose updates always return, as all but the tree policy's do.\<close>

definition policy_total :: "'d ReplPolicy \<Rightarrow> bool" where
  "policy_total pol \<longleftrightarrow> (\<forall>t e d. \<exists>d'. rp_reset pol t e d = Inr d') \<and> (\<forall>e d. \<exists>d'. rp_invalidate pol e d = Inr d')"

lemma tags_invalidate_returns:
  assumes "policy_total pol" "isValid (t_blks st ! i)"
  shows "\<exists>st'. tags_invalidate pol i st = Inr st'"
proof -
  obtain st1 where "BaseTags_invalidate i st = Inr st1" using assms(2) by (simp add: BaseTags_invalidate_def Let_def)
  moreover obtain d where "rp_invalidate pol i (t_data st1) = Inr d" using assms(1) unfolding policy_total_def by blast
  ultimately show ?thesis by (simp add: tags_invalidate_def Let_def)
qed

lemma invalidateBlock_returns:
  assumes "policy_total pol" "isValid (t_blks (c_tags c) ! i)"
  shows "\<exists>c'. invalidateBlock pol i c = Inr c'"
  using tags_invalidate_returns [OF assms] by (auto simp: invalidateBlock_def Let_def)

lemma Cache_evictBlock_returns:
  assumes pol: "policy_total pol" and v: "isValid (t_blks (c_tags c) ! i)" "i < length (t_blks (c_tags c))"
    and ro: "c_isReadOnly c \<Longrightarrow> c_writebackClean c"
  shows "\<exists>c' pkt. Cache_evictBlock pol i c = Inr (c', pkt)"
proof (cases "isDirty (t_blks (c_tags c) ! i) \<or> c_writebackClean c")
  case True
  have "\<exists>c1 pkt. writebackBlk i c = Inr (c1, pkt) \<and> isValid (t_blks (c_tags c1) ! i)"
    using True v ro by (auto simp: writebackBlk_def Let_def clear_keeps_valid)
  then obtain c1 pkt where "writebackBlk i c = Inr (c1, pkt)" "isValid (t_blks (c_tags c1) ! i)" by blast
  then show ?thesis using invalidateBlock_returns [OF pol, of c1 i] True by (auto simp: Cache_evictBlock_def)
next
  case False
  then show ?thesis using invalidateBlock_returns [OF pol v(1)] v
    by (auto simp: Cache_evictBlock_def cleanEvictBlk_def Let_def)
qed

lemma insertBlock_returns:
  assumes "policy_total pol" "blk_status (t_blks st ! i) = 0" "pkt_masterId pkt < t_maxMasters st"
  shows "\<exists>st'. insertBlock pol t pkt i st = Inr st'"
proof -
  have nv: "\<not> isValid (t_blks st ! i)" using assms(2) by (simp add: isValid_def)
  have "\<exists>b. blk_insert t (tags_extractTag st (pkt_addr pkt)) (pkt_secure pkt) (pkt_masterId pkt) (pkt_taskId pkt)
      (t_blks st ! i) = Inr b"
    using assms(2) by (auto simp: blk_insert_def setValid_def setSecure_def Let_def isValid_def blk_bits)
  then obtain b where b: "blk_insert t (tags_extractTag st (pkt_addr pkt)) (pkt_secure pkt) (pkt_masterId pkt) (pkt_taskId pkt)
      (t_blks st ! i) = Inr b" by blast
  have "\<exists>st1. BaseTags_insertBlock t pkt i st = Inr st1"
    using nv b assms(3) by (simp add: BaseTags_insertBlock_def Let_def)
  then obtain st1 where "BaseTags_insertBlock t pkt i st = Inr st1" by blast
  moreover obtain d where "rp_reset pol t i (t_data st1) = Inr d" using assms(1) unfolding policy_total_def by blast
  ultimately show ?thesis by (simp add: insertBlock_def Let_def)
qed

lemma tags_masters:
  "tags_invalidate pol i st = Inr st' \<Longrightarrow> t_maxMasters st' = t_maxMasters st"
  by (auto simp: tags_invalidate_def BaseTags_invalidate_def Let_def bindR_Inr_iff upd_stats_def upd_blk_def)

lemma Cache_evictBlock_masters:
  assumes "Cache_evictBlock pol i c = Inr (c', pkt)"
  shows "t_maxMasters (c_tags c') = t_maxMasters (c_tags c)"
  using assms
  by (auto simp: Cache_evictBlock_def writebackBlk_def invalidateBlock_def Let_def bindR_Inr_iff upd_blk_def
      split: if_splits dest!: tags_masters)

lemma handleEvictions_succeeds:
  assumes pol: "policy_total pol" and v: "v < length (t_blks (c_tags c))"
    and mshr: "findMatch (regenerateBlkAddr (c_tags c) v) (isSecure (t_blks (c_tags c) ! v)) True (c_mshrQueue c) = None"
    and ro: "c_isReadOnly c \<Longrightarrow> c_writebackClean c"
    and st: "\<not> isValid (t_blks (c_tags c) ! v) \<Longrightarrow> blk_status (t_blks (c_tags c) ! v) = 0"
  shows "\<exists>c' wbs'. handleEvictions pol [v] (c, wbs) = Inr ((c', wbs'), True) \<and>
     blk_status (t_blks (c_tags c') ! v) = 0 \<and> t_maxMasters (c_tags c') = t_maxMasters (c_tags c)"
proof (cases "isValid (t_blks (c_tags c) ! v)")
  case False
  then show ?thesis using st by (simp add: handleEvictions_def)
next
  case True
  let ?c = "c\<lparr>c_replacements := c_replacements c + 1\<rparr>"
  obtain c' pkt where e: "Cache_evictBlock pol v ?c = Inr (c', pkt)"
    using Cache_evictBlock_returns [OF pol, of ?c v] True v ro by auto
  then have e': "evictBlock pol v (?c, wbs) = Inr (c', wbs @ [pkt])" by (simp add: evictBlock_def)
  have "blk_status (t_blks (c_tags c') ! v) = 0" using evictBlock_result(2) [OF e'] v by simp
  moreover have "t_maxMasters (c_tags c') = t_maxMasters (c_tags c)" using Cache_evictBlock_masters [OF e] by simp
  moreover have "handleEvictions pol [v] (c, wbs) = Inr ((c', wbs @ [pkt]), True)"
    using True mshr e' by (simp add: handleEvictions_def)
  ultimately show ?thesis by blast
qed

lemma allocateBlock_returns:
  assumes inv: "tags_inv (c_tags c)" and pol: "replacement_policy ok (rp_getVictim pol t)" "policy_total pol"
    and ok: "ok (t_data (c_tags c)) (candidates (c_tags c) (pkt_addr pkt))"
    and mshr: "\<forall>i < length (t_blks (c_tags c)). findMatch (regenerateBlkAddr (c_tags c) i)
        (isSecure (t_blks (c_tags c) ! i)) True (c_mshrQueue c) = None"
    and ro: "c_isReadOnly c \<Longrightarrow> c_writebackClean c" and mm: "pkt_masterId pkt < t_maxMasters (c_tags c)"
  shows "\<exists>c' wbs' v. allocateBlock pol t pkt (c, wbs) = Inr ((c', wbs'), Some v)"
proof -
  have l: "tags_linked (c_tags c)" using inv by (simp add: tags_inv_def)
  obtain t1 v where v: "findVictim pol t (pkt_addr pkt) (c_tags c) = Inr (t1, v, [v])"
    using findVictim_returns [OF l pol(1) ok] by blast
  obtain d where t1: "t1 = (c_tags c)\<lparr>t_data := d\<rparr>" and cand: "v \<in> set (candidates (c_tags c) (pkt_addr pkt))"
    using findVictim_result [OF l pol(1) v] by blast
  have vl: "v < length (t_blks (c_tags c))" using cand candidate_iff [OF l] by blast
  let ?c = "c\<lparr>c_tags := t1\<rparr>"
  have "\<exists>c' wbs'. handleEvictions pol [v] (?c, wbs) = Inr ((c', wbs'), True) \<and>
     blk_status (t_blks (c_tags c') ! v) = 0 \<and> t_maxMasters (c_tags c') = t_maxMasters (c_tags ?c)"
  proof (rule handleEvictions_succeeds [OF pol(2)])
    show "findMatch (regenerateBlkAddr (c_tags ?c) v) (isSecure (t_blks (c_tags ?c) ! v)) True (c_mshrQueue ?c) = None"
      using mshr vl by (simp add: t1 regenerateBlkAddr_def)
    show "\<not> isValid (t_blks (c_tags ?c) ! v) \<Longrightarrow> blk_status (t_blks (c_tags ?c) ! v) = 0"
      using inv vl by (simp add: t1 tags_inv_def)
  qed (use vl ro t1 in auto)
  then obtain c' wbs' where h: "handleEvictions pol [v] (?c, wbs) = Inr ((c', wbs'), True)"
    "blk_status (t_blks (c_tags c') ! v) = 0" "t_maxMasters (c_tags c') = t_maxMasters (c_tags c)" using t1 by auto
  then obtain t2 where "insertBlock pol t pkt v (c_tags c') = Inr t2"
    using insertBlock_returns [OF pol(2) h(2)] mm by auto
  then show ?thesis using v h(1) by (simp add: allocateBlock_def)
qed

section \<open>Properties\<close>

text \<open>C5: A fill updates the cache as a map. When the block of a request is not in the cache and
  \<open>allocateBlock\<close> succeeds, then afterwards a search for that block finds the victim's entry, a search for the
  block the victim held misses, every other search has the result it had before, and the invariant holds again;
  for both indexing policies and for every replacement policy that answers with one of its candidates.\<close>

theorem allocateBlock_updates:
  assumes "tags_inv (c_tags c)" "replacement_policy ok (rp_getVictim pol t)"
    "findBlock (c_tags c) (pkt_addr pkt) (pkt_secure pkt) = Inr None"
    "allocateBlock pol t pkt (c, wbs) = Inr ((c', wbs'), Some v)"
  shows "tags_inv (c_tags c') \<and> findBlock (c_tags c') b s =
     (if blkAlign (c_tags c) b = blkAlign (c_tags c) (pkt_addr pkt) \<and> s = pkt_secure pkt then Inr (Some v)
      else if findBlock (c_tags c) b s = Inr (Some v) then Inr None else findBlock (c_tags c) b s)"
proof -
  have miss: "\<not> holds (c_tags c) (pkt_addr pkt) (pkt_secure pkt) i" for i
    using findBlock_holds [OF assms(1), of "pkt_addr pkt" "pkt_secure pkt"] assms(3) by auto
  note h = allocateBlock_holds [OF assms(1,2) miss assms(4)]
  obtain r where r: "findBlock (c_tags c) b s = Inr r" "\<And>i. r = Some i \<longleftrightarrow> holds (c_tags c) b s i"
    using findBlock_holds [OF assms(1), of b s] by blast
  obtain r' where r': "findBlock (c_tags c') b s = Inr r'" "\<And>i. r' = Some i \<longleftrightarrow> holds (c_tags c') b s i"
    using findBlock_holds [OF h(1), of b s] by blast
  have "r' = (if blkAlign (c_tags c) b = blkAlign (c_tags c) (pkt_addr pkt) \<and> s = pkt_secure pkt then Some v
      else if r = Some v then None else r)"
  proof (cases "blkAlign (c_tags c) b = blkAlign (c_tags c) (pkt_addr pkt) \<and> s = pkt_secure pkt")
    case True
    then have "r' = Some v" using r'(2) [of v] h(2) [of b s v] by (simp only: if_True simp_thms)
    then show ?thesis using True by (simp only: if_True simp_thms)
  next
    case False
    then have "r' = Some i \<longleftrightarrow> i \<noteq> v \<and> r = Some i" for i
      using r'(2) [of i] r(2) [of i] h(2) [of b s i] by (cases "i = v") (simp_all only: if_True if_False simp_thms)
    then have "r' = (if r = Some v then None else r)" by (cases r; cases r') fastforce+
    then show ?thesis using False by (simp only: if_False)
  qed
  then show ?thesis using h(1) unfolding r(1) r'(1) by (simp only: sum.inject if_distrib [of Inr])
qed

text \<open>C6: No dirty data is lost by an allocation. Whatever \<open>allocateBlock\<close> returns, a block that was valid and
  dirty before is still in the cache with its address, or a writeback of dirty data for its address and security
  state is among the packets to send.\<close>

theorem allocateBlock_keeps_dirty:
  assumes "tags_inv (c_tags c)" "replacement_policy ok (rp_getVictim pol t)"
    "allocateBlock pol t pkt (c, wbs) = Inr ((c', wbs'), r)"
    "i < length (t_blks (c_tags c))" "isValid (t_blks (c_tags c) ! i)" "isDirty (t_blks (c_tags c) ! i)"
  shows "isValid (t_blks (c_tags c') ! i) \<and> isDirty (t_blks (c_tags c') ! i)
       \<and> isSecure (t_blks (c_tags c') ! i) = isSecure (t_blks (c_tags c) ! i)
       \<and> regenerateBlkAddr (c_tags c') i = regenerateBlkAddr (c_tags c) i
     \<or> (\<exists>p \<in> set wbs'. wb_cmd p = WritebackDirty \<and> wb_addr p = regenerateBlkAddr (c_tags c) i
          \<and> wb_secure p = isSecure (t_blks (c_tags c) ! i))"
proof -
  have l: "tags_linked (c_tags c)" using assms(1) by (simp add: tags_inv_def)
  from l assms(2,3) show ?thesis
  proof (cases rule: allocateBlock_cases)
    case failed
    then show ?thesis using assms(5,6) by (auto simp: regenerateBlkAddr_def)
  next
    case (filled v st)
    show ?thesis
    proof (cases "i = v")
      case True
      then show ?thesis using filled(5) assms(5,6) by auto
    next
      case False
      have "v < length (t_blks st)"
        using filled(2) candidate_iff [OF l] changes_at_length [OF filled(3)] by auto
      note ch = changes_at_trans [OF filled(3) insertBlock_changes(1) [OF filled(4) this]]
      note c = changes_at_content [OF ch assms(4) False]
      then have "isDirty (t_blks (c_tags c') ! i)" using assms(6) by (simp add: isDirty_def)
      then show ?thesis using c assms(5) by simp
    qed
  qed
qed


section \<open>Witnesses\<close>

definition demo_cache :: "(entry \<Rightarrow> LRUReplData) BaseCache" where
  "demo_cache = \<lparr>c_tags = demo_tags, c_mshrQueue = [], c_writebackClean = False, c_isReadOnly = False,
     c_replacements = 0, c_unusedPrefetches = 0, c_writebacks = 0\<rparr>"

definition demo_pkt :: FillPkt where
  "demo_pkt = \<lparr>pkt_addr = 0x12345, pkt_secure = False, pkt_masterId = 1, pkt_taskId = 7\<rparr>"

text \<open>The cache after one fill, with the filled block written to.\<close>

definition demo_filled :: "(entry \<Rightarrow> LRUReplData) BaseCache" where
  "demo_filled = fst (fst (projr (allocateBlock lru_policy 0 demo_pkt (demo_cache, []))))"

definition demo_dirty :: "(entry \<Rightarrow> LRUReplData) BaseCache" where
  "demo_dirty = demo_filled\<lparr>c_tags := markDirty 0 (c_tags demo_filled), c_mshrQueue := []\<rparr>"

lemma demo_alloc: "allocateBlock lru_policy 0 demo_pkt (demo_cache, []) = Inr ((demo_filled, []), Some 0)"
proof -
  let ?r = "allocateBlock lru_policy 0 demo_pkt (demo_cache, [])"
  have "\<not> isl ?r" "snd (projr ?r) = Some 0" "snd (fst (projr ?r)) = []" by code_simp+
  then show ?thesis by (cases ?r) (auto simp: demo_filled_def prod_eq_iff)
qed

lemma lru_contract: "replacement_policy (\<lambda>_ _. True) (rp_getVictim lru_policy t)" "policy_total lru_policy"
  using lru.replacement_policy_axioms by (simp_all add: lru_policy_def policy_total_def)

lemma demo_cache_inv: "tags_inv (c_tags demo_cache)" "findBlock (c_tags demo_cache) (pkt_addr demo_pkt) (pkt_secure demo_pkt) = Inr None"
proof -
  show inv: "tags_inv (c_tags demo_cache)" using demo_tags_inv(2) by (simp add: demo_cache_def)
  obtain r where "findBlock (c_tags demo_cache) (pkt_addr demo_pkt) (pkt_secure demo_pkt) = Inr r"
      "\<forall>i. r \<noteq> Some i"
    using findBlock_holds [OF inv, of "pkt_addr demo_pkt" "pkt_secure demo_pkt"] demo_tags_inv(3)
    by (auto simp: demo_cache_def)
  then show "findBlock (c_tags demo_cache) (pkt_addr demo_pkt) (pkt_secure demo_pkt) = Inr None" by (cases r) auto
qed

lemma demo_dirty_inv: "tags_inv (c_tags demo_dirty)" "0 < length (t_blks (c_tags demo_dirty))"
  "isValid (t_blks (c_tags demo_dirty) ! 0)" "isDirty (t_blks (c_tags demo_dirty) ! 0)"
proof -
  have nh: "\<not> holds (c_tags demo_cache) (pkt_addr demo_pkt) (pkt_secure demo_pkt) i" for i
    using demo_tags_inv(3) by (simp add: demo_cache_def)
  note a = allocateBlock_holds [OF demo_cache_inv(1) lru_contract(1) nh demo_alloc]
  have h: "holds (c_tags demo_filled) (pkt_addr demo_pkt) (pkt_secure demo_pkt) 0" using a(2) by simp
  then have v: "0 < length (t_blks (c_tags demo_filled))" "isValid (t_blks (c_tags demo_filled) ! 0)"
    by (auto simp: holds_def)
  show "tags_inv (c_tags demo_dirty)" using markDirty_inv [OF a(1) v] by (simp add: demo_dirty_def)
  show "0 < length (t_blks (c_tags demo_dirty))"
    "isValid (t_blks (c_tags demo_dirty) ! 0)" "isDirty (t_blks (c_tags demo_dirty) ! 0)"
    using v by (simp_all add: demo_dirty_def markDirty_def dirty_bits)
qed

theorem allocateBlock_updates_witness:
  "tags_inv (c_tags demo_filled) \<and> findBlock (c_tags demo_filled) 0x12345 False =
     (if blkAlign (c_tags demo_cache) 0x12345 = blkAlign (c_tags demo_cache) (pkt_addr demo_pkt)
         \<and> False = pkt_secure demo_pkt then Inr (Some 0)
      else if findBlock (c_tags demo_cache) 0x12345 False = Inr (Some 0) then Inr None
      else findBlock (c_tags demo_cache) 0x12345 False)"
  by (rule allocateBlock_updates [OF demo_cache_inv(1) lru_contract(1) demo_cache_inv(2) demo_alloc])


theorem allocateBlock_keeps_dirty_witness:
  "\<exists>c' wbs' r. allocateBlock lru_policy 9 demo_pkt (demo_dirty, []) = Inr ((c', wbs'), r) \<and>
     (isValid (t_blks (c_tags c') ! 0) \<and> isDirty (t_blks (c_tags c') ! 0)
        \<and> isSecure (t_blks (c_tags c') ! 0) = isSecure (t_blks (c_tags demo_dirty) ! 0)
        \<and> regenerateBlkAddr (c_tags c') 0 = regenerateBlkAddr (c_tags demo_dirty) 0
      \<or> (\<exists>p \<in> set wbs'. wb_cmd p = WritebackDirty \<and> wb_addr p = regenerateBlkAddr (c_tags demo_dirty) 0
           \<and> wb_secure p = isSecure (t_blks (c_tags demo_dirty) ! 0)))"
proof -
  have "t_maxMasters (c_tags demo_dirty) = 4" "c_isReadOnly demo_dirty = False" by code_simp+
  then obtain c' wbs' v where "allocateBlock lru_policy 9 demo_pkt (demo_dirty, []) = Inr ((c', wbs'), Some v)"
    using allocateBlock_returns [OF demo_dirty_inv(1) lru_contract TrueI, of demo_pkt 9 "[]"]
    by (auto simp: demo_dirty_def demo_pkt_def)
  with allocateBlock_keeps_dirty [OF demo_dirty_inv(1) lru_contract(1) this demo_dirty_inv(2-4)]
  show ?thesis by blast
qed

end
