(* ===== verification/NetDest.thy ===== *)
theory NetDest
  imports Bitfield
begin

text \<open>
  \<open>mem/ruby/common/Set.hh\<close>, \<open>NetDest.hh\<close> and \<open>NetDest.cc\<close>: sets of network destinations. A \<open>Set\<close> is a bit
  set of \<open>NUMBER_BITS_PER_SET\<close> bits (64, the default of the build) of which the first \<open>m_nSize\<close> are in use; a
  \<open>NetDest\<close> has one for every machine type. A machine is a pair of the index of its type (the generated
  \<open>MachineType_base_level\<close>) and its number; how many machines a type has (the generated
  \<open>MachineType_base_count\<close>) is an argument. Shown: the operations are those of sets of machines.
\<close>

section \<open>Sets\<close>

record NodeSet =
  ns_size :: nat
  ns_bits :: u64

definition Set_default :: NodeSet where "Set_default = \<lparr>ns_size = 0, ns_bits = 0\<rparr>"

definition Set_new :: "nat \<Rightarrow> NodeSet result" where
  "Set_new sz = (if sz > 64 then Inl Fatal else Inr \<lparr>ns_size = sz, ns_bits = 0\<rparr>)"

text \<open>\<open>bitset::set\<close>, \<open>reset\<close> and \<open>test\<close> throw for a position outside the set.\<close>

definition ns_add :: "nat \<Rightarrow> NodeSet \<Rightarrow> NodeSet result" where
  "ns_add i s = (if i < 64 then Inr (s\<lparr>ns_bits := set_bit i (ns_bits s)\<rparr>) else Inl Exception)"

definition ns_addSet :: "NodeSet \<Rightarrow> NodeSet \<Rightarrow> NodeSet result" where
  "ns_addSet obj s = bindR (assertR (ns_size s = ns_size obj)) (\<lambda>_. Inr (s\<lparr>ns_bits := ns_bits s OR ns_bits obj\<rparr>))"

definition ns_remove :: "nat \<Rightarrow> NodeSet \<Rightarrow> NodeSet result" where
  "ns_remove i s = (if i < 64 then Inr (s\<lparr>ns_bits := unset_bit i (ns_bits s)\<rparr>) else Inl Exception)"

definition ns_removeSet :: "NodeSet \<Rightarrow> NodeSet \<Rightarrow> NodeSet result" where
  "ns_removeSet obj s =
     bindR (assertR (ns_size s = ns_size obj)) (\<lambda>_. Inr (s\<lparr>ns_bits := ns_bits s AND NOT (ns_bits obj)\<rparr>))"

definition ns_clear :: "NodeSet \<Rightarrow> NodeSet" where "ns_clear s = s\<lparr>ns_bits := 0\<rparr>"

definition ns_broadcast :: "NodeSet \<Rightarrow> NodeSet" where
  "ns_broadcast s = s\<lparr>ns_bits := fold (\<lambda>j b. unset_bit j b) [ns_size s..<64] (- 1)\<rparr>"

definition ns_count :: "NodeSet \<Rightarrow> nat" where "ns_count s = popCount (ns_bits s)"

definition ns_isEqual :: "NodeSet \<Rightarrow> NodeSet \<Rightarrow> bool result" where
  "ns_isEqual obj s = bindR (assertR (ns_size s = ns_size obj)) (\<lambda>_. Inr (ns_bits s = ns_bits obj))"

definition ns_OR :: "NodeSet \<Rightarrow> NodeSet \<Rightarrow> NodeSet result" where
  "ns_OR obj s = bindR (assertR (ns_size s = ns_size obj)) (\<lambda>_.
     bindR (Set_new (ns_size s)) (\<lambda>r. Inr (r\<lparr>ns_bits := ns_bits s OR ns_bits obj\<rparr>)))"

definition ns_AND :: "NodeSet \<Rightarrow> NodeSet \<Rightarrow> NodeSet result" where
  "ns_AND obj s = bindR (assertR (ns_size s = ns_size obj)) (\<lambda>_.
     bindR (Set_new (ns_size s)) (\<lambda>r. Inr (r\<lparr>ns_bits := ns_bits s AND ns_bits obj\<rparr>)))"

definition ns_intersectionIsEmpty :: "NodeSet \<Rightarrow> NodeSet \<Rightarrow> bool" where
  "ns_intersectionIsEmpty obj s \<longleftrightarrow> ns_bits s AND ns_bits obj = 0"

definition ns_isSuperset :: "NodeSet \<Rightarrow> NodeSet \<Rightarrow> bool result" where
  "ns_isSuperset test s =
     bindR (assertR (ns_size s = ns_size test)) (\<lambda>_. Inr (ns_bits s OR ns_bits test = ns_bits s))"

definition ns_isElement :: "nat \<Rightarrow> NodeSet \<Rightarrow> bool result" where
  "ns_isElement i s = (if i < 64 then Inr (bit (ns_bits s) i) else Inl Exception)"

definition ns_isBroadcast :: "NodeSet \<Rightarrow> bool" where "ns_isBroadcast s \<longleftrightarrow> ns_count s = ns_size s"

definition ns_isEmpty :: "NodeSet \<Rightarrow> bool" where "ns_isEmpty s \<longleftrightarrow> ns_bits s = 0"

definition ns_smallestElement :: "NodeSet \<Rightarrow> nat result" where
  "ns_smallestElement s =
     (case find (bit (ns_bits s)) [0..<ns_size s] of Some i \<Rightarrow> Inr i | None \<Rightarrow> Inl Panic)"

definition ns_setSize :: "nat \<Rightarrow> NodeSet \<Rightarrow> NodeSet result" where
  "ns_setSize sz s = (if sz > 64 then Inl Fatal else Inr (s\<lparr>ns_size := sz, ns_bits := 0\<rparr>))"

section \<open>Destinations\<close>

type_synonym NetDest = "NodeSet list"
type_synonym MachineID = "nat \<times> nat"

text \<open>The loops over two destination sets: \<open>map2R\<close> changes the sets one by one, \<open>all2R\<close> returns at the first set
  that fails the test.\<close>

fun map2R :: "('a \<Rightarrow> 'b \<Rightarrow> 'c result) \<Rightarrow> 'a list \<Rightarrow> 'b list \<Rightarrow> 'c list result" where
  "map2R f (x # xs) (y # ys) = bindR (f x y) (\<lambda>z. bindR (map2R f xs ys) (\<lambda>zs. Inr (z # zs)))"
| "map2R f _ _ = Inr []"

fun all2R :: "('a \<Rightarrow> 'b \<Rightarrow> bool result) \<Rightarrow> 'a list \<Rightarrow> 'b list \<Rightarrow> bool result" where
  "all2R f (x # xs) (y # ys) = bindR (f x y) (\<lambda>b. if b then all2R f xs ys else Inr False)"
| "all2R f _ _ = Inr True"

definition nd_new :: "nat list \<Rightarrow> NetDest result" where
  "nd_new base_count = map2R (\<lambda>s n. ns_setSize n s) (replicate (length base_count) Set_default) base_count"

definition nd_add :: "MachineID \<Rightarrow> NetDest \<Rightarrow> NetDest result" where
  "nd_add m d =
     bindR (assertR (fst m < length d)) (\<lambda>_.
     bindR (assertR (snd m < ns_size (d ! fst m))) (\<lambda>_.
     bindR (ns_add (snd m) (d ! fst m)) (\<lambda>s. Inr (d[fst m := s]))))"

definition nd_addNetDest :: "NetDest \<Rightarrow> NetDest \<Rightarrow> NetDest result" where
  "nd_addNetDest e d = bindR (assertR (length d = length e)) (\<lambda>_. map2R (\<lambda>s t. ns_addSet t s) d e)"

definition nd_setNetDest :: "nat \<Rightarrow> NodeSet \<Rightarrow> NetDest \<Rightarrow> NetDest result" where
  "nd_setNetDest machine s d = (if machine < length d then Inr (d[machine := s]) else Inl Undefined)"

definition nd_remove :: "MachineID \<Rightarrow> NetDest \<Rightarrow> NetDest result" where
  "nd_remove m d =
     bindR (assertR (fst m < length d)) (\<lambda>_. bindR (ns_remove (snd m) (d ! fst m)) (\<lambda>s. Inr (d[fst m := s])))"

definition nd_removeNetDest :: "NetDest \<Rightarrow> NetDest \<Rightarrow> NetDest result" where
  "nd_removeNetDest e d = bindR (assertR (length d = length e)) (\<lambda>_. map2R (\<lambda>s t. ns_removeSet t s) d e)"

definition nd_clear :: "NetDest \<Rightarrow> NetDest" where "nd_clear d = map ns_clear d"

definition nd_broadcast_type :: "nat list \<Rightarrow> nat \<Rightarrow> NetDest \<Rightarrow> NetDest result" where
  "nd_broadcast_type base_count t d = foldR (\<lambda>i. nd_add (t, i)) [0..<base_count ! t] d"

definition nd_broadcast :: "nat list \<Rightarrow> NetDest \<Rightarrow> NetDest result" where
  "nd_broadcast base_count d = foldR (nd_broadcast_type base_count) [0..<length base_count] d"

text \<open>\<open>base_number\<close> is the generated number of the first machine of a type.\<close>

definition nd_getAllDest :: "(nat \<Rightarrow> nat) \<Rightarrow> NetDest \<Rightarrow> nat list" where
  "nd_getAllDest base_number d =
     concat (map (\<lambda>i. map (\<lambda>j. base_number i + j) (filter (bit (ns_bits (d ! i))) [0..<ns_size (d ! i)]))
       [0..<length d])"

definition nd_count :: "NetDest \<Rightarrow> nat" where "nd_count d = sum_list (map ns_count d)"

definition nd_smallestElement :: "NetDest \<Rightarrow> MachineID result" where
  "nd_smallestElement d =
     bindR (assertR (nd_count d > 0)) (\<lambda>_.
       case find (\<lambda>(i, j). bit (ns_bits (d ! i)) j)
              (concat (map (\<lambda>i. map (Pair i) [0..<ns_size (d ! i)]) [0..<length d])) of
         Some m \<Rightarrow> Inr m | None \<Rightarrow> Inl Panic)"

definition nd_isBroadcast :: "NetDest \<Rightarrow> bool" where "nd_isBroadcast d \<longleftrightarrow> list_all ns_isBroadcast d"

definition nd_isEmpty :: "NetDest \<Rightarrow> bool" where "nd_isEmpty d \<longleftrightarrow> list_all ns_isEmpty d"

definition nd_OR :: "NetDest \<Rightarrow> NetDest \<Rightarrow> NetDest result" where
  "nd_OR e d = bindR (assertR (length d = length e)) (\<lambda>_. map2R (\<lambda>s t. ns_OR t s) d e)"

definition nd_AND :: "NetDest \<Rightarrow> NetDest \<Rightarrow> NetDest result" where
  "nd_AND e d = bindR (assertR (length d = length e)) (\<lambda>_. map2R (\<lambda>s t. ns_AND t s) d e)"

definition nd_intersectionIsNotEmpty :: "NetDest \<Rightarrow> NetDest \<Rightarrow> bool result" where
  "nd_intersectionIsNotEmpty e d =
     bindR (assertR (length d = length e)) (\<lambda>_.
       Inr (list_ex (\<lambda>(s, t). \<not> ns_intersectionIsEmpty t s) (zip d e)))"

definition nd_isSuperset :: "NetDest \<Rightarrow> NetDest \<Rightarrow> bool result" where
  "nd_isSuperset e d = bindR (assertR (length d = length e)) (\<lambda>_. all2R (\<lambda>s t. ns_isSuperset t s) d e)"

definition nd_isElement :: "MachineID \<Rightarrow> NetDest \<Rightarrow> bool result" where
  "nd_isElement m d = bindR (assertR (fst m < length d)) (\<lambda>_. ns_isElement (snd m) (d ! fst m))"

definition nd_isEqual :: "NetDest \<Rightarrow> NetDest \<Rightarrow> bool result" where
  "nd_isEqual e d = bindR (assertR (length d = length e)) (\<lambda>_. all2R (\<lambda>s t. ns_isEqual t s) d e)"

section \<open>Sets of machines\<close>

definition members :: "NetDest \<Rightarrow> MachineID set" where
  "members d = {(i, j). i < length d \<and> bit (ns_bits (d ! i)) j}"

definition ns_wf :: "nat \<Rightarrow> NodeSet \<Rightarrow> bool" where
  "ns_wf n s \<longleftrightarrow> n \<le> 64 \<and> ns_size s = n \<and> (\<forall>j. bit (ns_bits s) j \<longrightarrow> j < n)"

definition nd_wf :: "nat list \<Rightarrow> NetDest \<Rightarrow> bool" where
  "nd_wf base_count d \<longleftrightarrow> length d = length base_count \<and> (\<forall>i < length d. ns_wf (base_count ! i) (d ! i))"

lemma map2R_map:
  "length xs = length ys \<Longrightarrow> (\<And>i. i < length xs \<Longrightarrow> f (xs ! i) (ys ! i) = Inr (g (xs ! i) (ys ! i))) \<Longrightarrow>
     map2R f xs ys = Inr (map2 g xs ys)"
proof (induction xs ys rule: list_induct2)
  case (Cons x xs y ys)
  have "f (xs ! i) (ys ! i) = Inr (g (xs ! i) (ys ! i))" if "i < length xs" for i
    using Cons.prems [of "Suc i"] that by simp
  then show ?case using Cons.IH Cons.prems [of 0] by simp
qed simp

lemma all2R_all:
  "length xs = length ys \<Longrightarrow> (\<And>i. i < length xs \<Longrightarrow> f (xs ! i) (ys ! i) = Inr (P (xs ! i) (ys ! i))) \<Longrightarrow>
     all2R f xs ys = Inr (\<forall>i < length xs. P (xs ! i) (ys ! i))"
proof (induction xs ys rule: list_induct2)
  case (Cons x xs y ys)
  have "f (xs ! i) (ys ! i) = Inr (P (xs ! i) (ys ! i))" if "i < length xs" for i
    using Cons.prems [of "Suc i"] that by simp
  then show ?case using Cons.IH Cons.prems [of 0] by (simp add: All_less_Suc2)
qed simp

lemma combine_sets:
  assumes "nd_wf n d" "nd_wf n e"
    and op: "\<And>s t k. ns_wf k s \<Longrightarrow> ns_wf k t \<Longrightarrow> f s t = Inr (g s t) \<and> ns_wf k (g s t) \<and>
       (\<forall>j. bit (ns_bits (g s t)) j = h (bit (ns_bits s) j) (bit (ns_bits t) j))"
  shows "\<exists>r. bindR (assertR (length d = length e)) (\<lambda>_. map2R f d e) = Inr r \<and> nd_wf n r \<and>
     members r = {(i, j). i < length n \<and> h ((i, j) \<in> members d) ((i, j) \<in> members e)}"
proof -
  have len: "length d = length e" "length d = length n" using assms(1,2) by (simp_all add: nd_wf_def)
  have wf: "ns_wf (n ! i) (d ! i)" "ns_wf (n ! i) (e ! i)" if "i < length n" for i
    using assms(1,2) that by (simp_all add: nd_wf_def)
  have "map2R f d e = Inr (map2 g d e)" using op [OF wf] len by (intro map2R_map) simp_all
  moreover have "nd_wf n (map2 g d e)" using op [OF wf] len by (simp add: nd_wf_def)
  moreover have "members (map2 g d e) = {(i, j). i < length n \<and> h ((i, j) \<in> members d) ((i, j) \<in> members e)}"
    using op [OF wf] len by (auto simp: members_def)
  ultimately show ?thesis using len by simp
qed

lemma OR_members:
  assumes "nd_wf n d" "nd_wf n e"
  shows "\<exists>r. nd_OR e d = Inr r \<and> nd_wf n r \<and> members r = members d \<union> members e"
proof -
  have "\<exists>r. nd_OR e d = Inr r \<and> nd_wf n r \<and> members r = {(i, j). i < length n \<and> ((i, j) \<in> members d \<or> (i, j) \<in> members e)}"
    unfolding nd_OR_def
    by (rule combine_sets [OF assms, where g = "\<lambda>s t. \<lparr>ns_size = ns_size s, ns_bits = ns_bits s OR ns_bits t\<rparr>"])
      (auto simp: ns_OR_def Set_new_def ns_wf_def bit_or_iff)
  then show ?thesis using assms by (auto simp: members_def nd_wf_def)
qed

lemma AND_members:
  assumes "nd_wf n d" "nd_wf n e"
  shows "\<exists>r. nd_AND e d = Inr r \<and> nd_wf n r \<and> members r = members d \<inter> members e"
proof -
  have "\<exists>r. nd_AND e d = Inr r \<and> nd_wf n r \<and> members r = {(i, j). i < length n \<and> ((i, j) \<in> members d \<and> (i, j) \<in> members e)}"
    unfolding nd_AND_def
    by (rule combine_sets [OF assms, where g = "\<lambda>s t. \<lparr>ns_size = ns_size s, ns_bits = ns_bits s AND ns_bits t\<rparr>"])
      (auto simp: ns_AND_def Set_new_def ns_wf_def bit_and_iff)
  then show ?thesis using assms by (auto simp: members_def nd_wf_def)
qed

lemma addNetDest_members:
  assumes "nd_wf n d" "nd_wf n e"
  shows "\<exists>r. nd_addNetDest e d = Inr r \<and> nd_wf n r \<and> members r = members d \<union> members e"
proof -
  have "\<exists>r. nd_addNetDest e d = Inr r \<and> nd_wf n r \<and> members r = {(i, j). i < length n \<and> ((i, j) \<in> members d \<or> (i, j) \<in> members e)}"
    unfolding nd_addNetDest_def
    by (rule combine_sets [OF assms, where g = "\<lambda>s t. s\<lparr>ns_bits := ns_bits s OR ns_bits t\<rparr>"])
      (auto simp: ns_addSet_def ns_wf_def bit_or_iff)
  then show ?thesis using assms by (auto simp: members_def nd_wf_def)
qed

lemma removeNetDest_members:
  assumes "nd_wf n d" "nd_wf n e"
  shows "\<exists>r. nd_removeNetDest e d = Inr r \<and> nd_wf n r \<and> members r = members d - members e"
proof -
  have "\<exists>r. nd_removeNetDest e d = Inr r \<and> nd_wf n r \<and> members r = {(i, j). i < length n \<and> ((i, j) \<in> members d \<and> (i, j) \<notin> members e)}"
    unfolding nd_removeNetDest_def
    by (rule combine_sets [OF assms, where g = "\<lambda>s t. s\<lparr>ns_bits := ns_bits s AND NOT (ns_bits t)\<rparr>"])
      (auto simp: ns_removeSet_def ns_wf_def bit_and_iff bit_not_iff dest: bit_word64_imp_less)
  then show ?thesis using assms by (auto simp: members_def nd_wf_def)
qed

lemma add_members:
  assumes "nd_wf n d" "fst m < length n" "snd m < n ! fst m"
  shows "\<exists>r. nd_add m d = Inr r \<and> nd_wf n r \<and> members r = insert m (members d)"
proof -
  let ?s = "(d ! fst m)\<lparr>ns_bits := set_bit (snd m) (ns_bits (d ! fst m))\<rparr>"
  have wf: "ns_wf (n ! fst m) (d ! fst m)" "length d = length n" using assms(1,2) by (simp_all add: nd_wf_def)
  have "nd_add m d = Inr (d[fst m := ?s])" using wf assms(2,3) by (simp add: nd_add_def ns_add_def ns_wf_def)
  moreover have "nd_wf n (d[fst m := ?s])"
    using assms wf by (auto simp: nd_wf_def ns_wf_def nth_list_update bit_set_bit_iff)
  moreover have "members (d[fst m := ?s]) = insert m (members d)"
    using assms wf by (cases m) (auto simp: members_def nth_list_update bit_set_bit_iff ns_wf_def split: if_splits)
  ultimately show ?thesis by blast
qed

lemma and_word_zero: "a AND b = 0 \<longleftrightarrow> (\<forall>j. \<not> (bit a j \<and> bit b j))" for a b :: u64
proof
  assume "a AND b = 0"
  then have "\<not> bit (a AND b) j" for j by simp
  then show "\<forall>j. \<not> (bit a j \<and> bit b j)" by (simp only: bit_and_iff) blast
next
  assume no: "\<forall>j. \<not> (bit a j \<and> bit b j)"
  show "a AND b = 0"
  proof (rule bit_word_eqI)
    fix n show "bit (a AND b) n = bit 0 n" using no by (simp only: bit_and_iff) simp
  qed
qed

lemma intersection_members:
  assumes "nd_wf n d" "nd_wf n e"
  shows "nd_intersectionIsNotEmpty e d = Inr (members d \<inter> members e \<noteq> {})"
proof -
  have "length d = length e" using assms by (simp add: nd_wf_def)
  then show ?thesis
    by (auto simp: nd_intersectionIsNotEmpty_def list_ex_iff ns_intersectionIsEmpty_def and_word_zero members_def
        set_zip)
qed

lemma or_word_absorb: "a OR b = a \<longleftrightarrow> (\<forall>j. bit b j \<longrightarrow> bit a j)" for a b :: u64
proof
  assume "a OR b = a"
  then have "bit (a OR b) j = bit a j" for j by simp
  then show "\<forall>j. bit b j \<longrightarrow> bit a j" by (simp only: bit_or_iff) blast
next
  assume sub: "\<forall>j. bit b j \<longrightarrow> bit a j"
  show "a OR b = a"
  proof (rule bit_word_eqI)
    fix n show "bit (a OR b) n = bit a n" using sub by (simp only: bit_or_iff) blast
  qed
qed

lemma superset_members:
  assumes "nd_wf n d" "nd_wf n e"
  shows "nd_isSuperset e d = Inr (members e \<subseteq> members d)"
proof -
  have len: "length d = length e" using assms by (simp add: nd_wf_def)
  have "all2R (\<lambda>s t. ns_isSuperset t s) d e = Inr (\<forall>i < length d. ns_bits (d ! i) OR ns_bits (e ! i) = ns_bits (d ! i))"
    using assms len by (intro all2R_all) (auto simp: ns_isSuperset_def nd_wf_def ns_wf_def)
  then show ?thesis using len by (auto simp: nd_isSuperset_def or_word_absorb members_def)
qed

lemma equal_members:
  assumes "nd_wf n d" "nd_wf n e"
  shows "nd_isEqual e d = Inr (members d = members e)"
proof -
  have len: "length d = length e" using assms by (simp add: nd_wf_def)
  have "all2R (\<lambda>s t. ns_isEqual t s) d e = Inr (\<forall>i < length d. ns_bits (d ! i) = ns_bits (e ! i))"
    using assms len by (intro all2R_all) (auto simp: ns_isEqual_def nd_wf_def ns_wf_def)
  moreover have "(\<forall>i < length d. ns_bits (d ! i) = ns_bits (e ! i)) \<longleftrightarrow> members d = members e"
    using len by (auto simp: members_def set_eq_iff intro!: bit_eqI)
  ultimately show ?thesis using len by (simp add: nd_isEqual_def)
qed

lemma isEmpty_members: "nd_isEmpty d \<longleftrightarrow> members d = {}"
proof -
  have "b = 0 \<longleftrightarrow> (\<forall>j. \<not> bit b j)" for b :: u64
    using and_word_zero [of b b] by simp
  then show ?thesis by (auto simp: nd_isEmpty_def list_all_length ns_isEmpty_def members_def)
qed

lemma count_members: "nd_count d = card (members d)"
proof -
  have c: "ns_count s = card {j. bit (ns_bits s) j}" for s
  proof -
    have "ns_count s = card {i. i < 64 \<and> bit (ns_bits s) ([0..<64] ! i)}"
      by (simp add: ns_count_def popCount_def length_filter_conv_card)
    also have "{i. i < 64 \<and> bit (ns_bits s) ([0..<64] ! i)} = {j. bit (ns_bits s) j}"
      by (auto dest: bit_word64_imp_less) (metis add_0 bit_word64_imp_less diff_zero nth_upt)
    finally show ?thesis .
  qed
  have fin: "finite {j. bit b j}" for b :: u64
    by (rule finite_subset [of _ "{..<64}"]) (auto dest: bit_word64_imp_less)
  have "members d = Sigma {..<length d} (\<lambda>i. {j. bit (ns_bits (d ! i)) j})" by (auto simp: members_def)
  then have "card (members d) = (\<Sum>i<length d. card {j. bit (ns_bits (d ! i)) j})"
    by (simp add: card_SigmaI fin)
  also have "\<dots> = nd_count d" by (simp add: nd_count_def c sum_list_sum_nth atLeast0LessThan)
  finally show ?thesis by simp
qed

section \<open>Properties\<close>

text \<open>C35: Destination sets are sets of machines. On two destination sets of the same system every operation returns,
  keeps the bits within the machines that exist, and is the operation of the same name on the sets of machines: union,
  intersection, difference, inclusion, equality, emptiness, the test for common destinations and the number of
  elements.\<close>

theorem netdest_refines_sets:
  assumes "nd_wf n d" "nd_wf n e"
  shows "(\<exists>r. nd_OR e d = Inr r \<and> nd_wf n r \<and> members r = members d \<union> members e)
    \<and> (\<exists>r. nd_AND e d = Inr r \<and> nd_wf n r \<and> members r = members d \<inter> members e)
    \<and> (\<exists>r. nd_addNetDest e d = Inr r \<and> nd_wf n r \<and> members r = members d \<union> members e)
    \<and> (\<exists>r. nd_removeNetDest e d = Inr r \<and> nd_wf n r \<and> members r = members d - members e)
    \<and> nd_intersectionIsNotEmpty e d = Inr (members d \<inter> members e \<noteq> {})
    \<and> nd_isSuperset e d = Inr (members e \<subseteq> members d)
    \<and> nd_isEqual e d = Inr (members d = members e)
    \<and> nd_isEmpty d = (members d = {}) \<and> nd_count d = card (members d)"
  by (intro conjI OR_members [OF assms] AND_members [OF assms] addNetDest_members [OF assms]
      removeNetDest_members [OF assms] intersection_members [OF assms] superset_members [OF assms]
      equal_members [OF assms] isEmpty_members count_members)

definition demo_dest :: "u64 \<Rightarrow> NetDest" where
  "demo_dest b = [\<lparr>ns_size = 4, ns_bits = b\<rparr>, \<lparr>ns_size = 2, ns_bits = 1\<rparr>]"

lemma demo_dest_wf: "nd_wf [4, 2] (demo_dest 5)" "nd_wf [4, 2] (demo_dest 9)"
proof -
  have small: "j < k" if "bit b j" "unat b < 2 ^ k" for b :: u64 and j k
  proof (rule ccontr)
    assume "\<not> j < k"
    then have "(2 :: nat) ^ k \<le> 2 ^ j" by (simp add: power_increasing)
    with that(2) have "unat b < 2 ^ j" by (rule order.strict_trans2)
    then have "drop_bit j b = 0" unfolding word_unat_eq_iff unat_drop_bit_eq unfolding drop_bit_eq_div by simp
    then have "\<not> bit (drop_bit j b) 0" by simp
    then show False using that(1) by (simp add: bit_drop_bit_eq)
  qed
  have "ns_wf 4 \<lparr>ns_size = 4, ns_bits = 5\<rparr>" "ns_wf 4 \<lparr>ns_size = 4, ns_bits = 9\<rparr>" "ns_wf 2 \<lparr>ns_size = 2, ns_bits = 1\<rparr>"
    using small [of 5 _ 4] small [of 9 _ 4] small [of 1 _ 2] by (simp_all only: ns_wf_def NodeSet.simps) simp_all
  then show "nd_wf [4, 2] (demo_dest 5)" "nd_wf [4, 2] (demo_dest 9)"
    by (simp_all add: nd_wf_def demo_dest_def less_Suc_eq)
qed

theorem netdest_refines_sets_witness:
  "nd_intersectionIsNotEmpty (demo_dest 9) (demo_dest 5) = Inr (members (demo_dest 5) \<inter> members (demo_dest 9) \<noteq> {})
     \<and> nd_count (demo_dest 5) = card (members (demo_dest 5))"
  using netdest_refines_sets [OF demo_dest_wf] by blast

end
