(* ===== verification/StdHeap.thy ===== *)
theory StdHeap
  imports Prelude
begin

text \<open>
  The heap algorithms of the C++ standard library, \<open>std::push_heap\<close> and \<open>std::pop_heap\<close> followed by
  \<open>pop_back()\<close>, as the library implements them: sift a value up, or move the hole down to a leaf and sift the
  last value up from there. They are used by the flit buffers and by the message buffers of the network. The
  comparison is an argument; a locale states what is asked of it, that it orders the values by a key.
\<close>

section \<open>Algorithms\<close>

text \<open>\<open>std::push_heap\<close>: the value moves up from the hole as long as its parent is greater.\<close>

fun sift_up :: "('a \<Rightarrow> 'a \<Rightarrow> bool) \<Rightarrow> 'a list \<Rightarrow> nat \<Rightarrow> 'a \<Rightarrow> 'a list" where
  "sift_up cmp xs 0 v = xs[0 := v]"
| "sift_up cmp xs (Suc h) v =
     (let p = h div 2
      in if cmp (xs ! p) v then sift_up cmp (xs[Suc h := xs ! p]) p v else xs[Suc h := v])"

text \<open>\<open>std::pop_heap\<close>: the hole at the front moves down to a leaf, the smaller child moving up each time.\<close>

function adjust_hole :: "('a \<Rightarrow> 'a \<Rightarrow> bool) \<Rightarrow> 'a list \<Rightarrow> nat \<Rightarrow> 'a list \<times> nat" where
  "adjust_hole cmp xs h =
     (if 2 * h + 2 < length xs
      then let c = (if cmp (xs ! (2 * h + 2)) (xs ! (2 * h + 1)) then 2 * h + 1 else 2 * h + 2)
           in adjust_hole cmp (xs[h := xs ! c]) c
      else if 2 * h + 1 < length xs then (xs[h := xs ! (2 * h + 1)], 2 * h + 1)
      else (xs, h))"
  by pat_completeness auto
termination
  by (relation "measure (\<lambda>(_, xs, h). length xs - h)") auto

definition push_heap :: "('a \<Rightarrow> 'a \<Rightarrow> bool) \<Rightarrow> 'a list \<Rightarrow> 'a \<Rightarrow> 'a list" where
  "push_heap cmp xs v = sift_up cmp (xs @ [v]) (length xs) v"

definition pop_heap :: "('a \<Rightarrow> 'a \<Rightarrow> bool) \<Rightarrow> 'a list \<Rightarrow> 'a list" where
  "pop_heap cmp xs =
     (if length xs > 1
      then let (ys, h) = adjust_hole cmp (butlast xs) 0 in sift_up cmp ys h (List.last xs)
      else [])"

declare adjust_hole.simps [simp del] sift_up.simps [simp del]

lemma length_sift_up [simp]: "length (sift_up cmp xs h v) = length xs"
  by (induction cmp xs h v rule: sift_up.induct) (simp_all add: sift_up.simps Let_def)

lemma length_adjust_hole [simp]: "length (fst (adjust_hole cmp xs h)) = length xs"
proof (induction cmp xs h rule: adjust_hole.induct)
  case (1 cmp xs h)
  then show ?case by (subst adjust_hole.simps) (simp add: Let_def)
qed

lemma length_push_heap [simp]: "length (push_heap cmp xs v) = Suc (length xs)"
  by (simp add: push_heap_def)

lemma length_pop_heap [simp]: "length (pop_heap cmp xs) = length xs - 1"
proof (cases "length xs > 1")
  case True
  obtain ys k where a: "adjust_hole cmp (butlast xs) 0 = (ys, k)" by fastforce
  have "length ys = length xs - 1" using length_adjust_hole [of cmp "butlast xs" 0] unfolding a by simp
  then show ?thesis using True a by (simp add: pop_heap_def)
qed (simp add: pop_heap_def)

section \<open>The heap property\<close>

definition parent :: "nat \<Rightarrow> nat" where "parent i = (i - 1) div 2"

definition heap :: "('a \<Rightarrow> 'k :: linorder) \<Rightarrow> 'a list \<Rightarrow> bool" where
  "heap key xs \<longleftrightarrow> (\<forall>i < length xs. 0 < i \<longrightarrow> key (xs ! parent i) \<le> key (xs ! i))"

text \<open>The heap property away from a hole, and across it.\<close>

definition heap_hole :: "('a \<Rightarrow> 'k :: linorder) \<Rightarrow> 'a list \<Rightarrow> nat \<Rightarrow> bool" where
  "heap_hole key xs h \<longleftrightarrow> h < length xs
     \<and> (\<forall>i < length xs. 0 < i \<and> i \<noteq> h \<and> parent i \<noteq> h \<longrightarrow> key (xs ! parent i) \<le> key (xs ! i))
     \<and> (\<forall>c < length xs. 0 < c \<and> parent c = h \<and> 0 < h \<longrightarrow> key (xs ! parent h) \<le> key (xs ! c))"

lemma parent_less: "0 < i \<Longrightarrow> parent i < i"
  by (simp add: parent_def)

lemma parent_iff: "0 < c \<Longrightarrow> parent c = h \<longleftrightarrow> c = 2 * h + 1 \<or> c = 2 * h + 2"
  by (auto simp: parent_def)

locale heap_order =
  fixes cmp :: "'a \<Rightarrow> 'a \<Rightarrow> bool"
    and key :: "'a \<Rightarrow> 'k :: linorder"
  assumes cmp_key: "cmp a b \<longleftrightarrow> key b < key a"
begin

lemma sift_up_induct [case_names 1 2]:
  assumes "\<And>xs v. P xs 0 v"
    "\<And>xs h v. (cmp (xs ! (h div 2)) v \<Longrightarrow> P (xs[Suc h := xs ! (h div 2)]) (h div 2) v) \<Longrightarrow> P xs (Suc h) v"
  shows "P xs h v"
proof -
  have "g = cmp \<Longrightarrow> P xs h v" for g
    by (induction g xs h v rule: sift_up.induct) (use assms in auto)
  then show ?thesis by simp
qed

lemma adjust_hole_induct [case_names 1]:
  assumes "\<And>xs h. (\<And>c. 2 * h + 2 < length xs \<Longrightarrow>
      c = (if cmp (xs ! (2 * h + 2)) (xs ! (2 * h + 1)) then 2 * h + 1 else 2 * h + 2) \<Longrightarrow> P (xs[h := xs ! c]) c) \<Longrightarrow> P xs h"
  shows "P xs h"
proof -
  have "g = cmp \<Longrightarrow> P xs h" for g
    by (induction g xs h rule: adjust_hole.induct) (use assms in blast)
  then show ?thesis by simp
qed

lemma heap_fill:
  assumes "heap_hole key xs h" "0 < h \<Longrightarrow> key (xs ! parent h) \<le> key v"
    "\<And>c. c < length xs \<Longrightarrow> 0 < c \<Longrightarrow> parent c = h \<Longrightarrow> key v \<le> key (xs ! c)"
  shows "heap key (xs[h := v])"
  unfolding heap_def
proof (intro allI impI)
  fix i assume i: "i < length (xs[h := v])" "0 < i"
  have "parent i < i" by (rule parent_less [OF i(2)])
  then show "key (xs[h := v] ! parent i) \<le> key (xs[h := v] ! i)"
    using assms i by (cases "i = h"; cases "parent i = h") (auto simp: heap_hole_def)
qed

lemma heap_hole_up:
  assumes h: "heap_hole key xs h" "0 < h"
  shows "heap_hole key (xs[h := xs ! parent h]) (parent h)"
proof -
  let ?p = "parent h"
  have p: "?p < h" by (rule parent_less [OF h(2)])
  have hl: "h < length xs" using h(1) by (simp add: heap_hole_def)
  have pair: "key (xs ! parent i) \<le> key (xs ! i)" if "i < length xs" "0 < i" "i \<noteq> h" "parent i \<noteq> h" for i
    using h(1) that by (simp add: heap_hole_def)
  have across: "key (xs ! ?p) \<le> key (xs ! c)" if "c < length xs" "0 < c" "parent c = h" for c
    using h that by (simp add: heap_hole_def)
  show ?thesis unfolding heap_hole_def length_list_update
  proof (intro conjI allI impI)
    show "?p < length xs" using p hl by simp
  next
    fix i assume i: "i < length xs" "0 < i \<and> i \<noteq> ?p \<and> parent i \<noteq> ?p"
    then have "i \<noteq> h" by auto
    with i show "key (xs[h := xs ! ?p] ! parent i) \<le> key (xs[h := xs ! ?p] ! i)"
      using pair [of i] across [of i] hl by (cases "parent i = h") auto
  next
    fix c assume c: "c < length xs" "0 < c \<and> parent c = ?p \<and> 0 < ?p"
    have pp1: "parent ?p < ?p" using c parent_less by blast
    then have "parent ?p \<noteq> h" using p by simp
    then have pp: "parent ?p < ?p" "key (xs ! parent ?p) \<le> key (xs ! ?p)"
      using pp1 c pair [of ?p] p hl by simp_all
    have "key (xs ! ?p) \<le> key (xs[h := xs ! ?p] ! c)"
      using c pair [of c] p hl by (cases "c = h") auto
    then show "key (xs[h := xs ! ?p] ! parent ?p) \<le> key (xs[h := xs ! ?p] ! c)"
      using pp p by (simp add: order_trans [OF pp(2)])
  qed
qed

lemma sift_up_heap:
  assumes "heap_hole key xs h" "\<And>c. c < length xs \<Longrightarrow> 0 < c \<Longrightarrow> parent c = h \<Longrightarrow> key v \<le> key (xs ! c)"
  shows "heap key (sift_up cmp xs h v)"
  using assms
proof (induction xs h v rule: sift_up_induct)
  case (1 xs v)
  have "heap key (xs[0 := v])" by (rule heap_fill [OF 1(1) _ 1(2)]) simp_all
  then show ?case by (simp only: sift_up.simps)
next
  case (2 xs h v)
  have p: "parent (Suc h) = h div 2" by (simp add: parent_def)
  have hl: "Suc h < length xs" using 2(2) by (simp add: heap_hole_def)
  show ?case
  proof (cases "cmp (xs ! (h div 2)) v")
    case True
    then have v: "key v \<le> key (xs ! (h div 2))" by (simp only: cmp_key less_imp_le)
    let ?ys = "xs[Suc h := xs ! (h div 2)]"
    have below: "key v \<le> key (?ys ! c)" if c: "c < length ?ys" "0 < c" "parent c = h div 2" for c
    proof (cases "c = Suc h")
      case True
      then show ?thesis using v hl by simp
    next
      case False
      have "h div 2 \<le> h" by simp
      then have "parent c \<noteq> Suc h" unfolding c(3) by linarith
      then have "key (xs ! parent c) \<le> key (xs ! c)"
        using 2(2) c(1,2) False unfolding heap_hole_def by simp
      then have "key v \<le> key (xs ! c)" using v unfolding c(3) by (rule order_trans [rotated])
      then show ?thesis using False by simp
    qed
    have "heap_hole key ?ys (h div 2)" using heap_hole_up [OF 2(2)] p by simp
    then have "heap key (sift_up cmp ?ys (h div 2) v)" by (rule 2(1) [OF True]) (rule below)
    then show ?thesis using True by (simp only: sift_up.simps Let_def if_True)
  next
    case False
    then have "key (xs ! parent (Suc h)) \<le> key v" by (simp add: cmp_key p not_less)
    then have "heap key (xs[Suc h := v])" by (intro heap_fill [OF 2(2)] 2(3))
    then show ?thesis using False by (simp only: sift_up.simps Let_def if_False)
  qed
qed

lemma heap_hole_down:
  assumes h: "heap_hole key xs h" and c: "c < length xs" "0 < c" "parent c = h"
    and least: "\<And>d. d < length xs \<Longrightarrow> 0 < d \<Longrightarrow> parent d = h \<Longrightarrow> key (xs ! c) \<le> key (xs ! d)"
  shows "heap_hole key (xs[h := xs ! c]) c"
proof -
  have hc: "h < c" using parent_less [OF c(2)] c(3) by simp
  have pair: "key (xs ! parent i) \<le> key (xs ! i)" if "i < length xs" "0 < i" "i \<noteq> h" "parent i \<noteq> h" for i
    using h that by (simp add: heap_hole_def)
  have across: "key (xs ! parent h) \<le> key (xs ! c)" if "0 < h" using h c that by (simp add: heap_hole_def)
  show ?thesis unfolding heap_hole_def length_list_update
  proof (intro conjI allI impI)
    fix i assume i: "i < length xs" "0 < i \<and> i \<noteq> c \<and> parent i \<noteq> c"
    show "key (xs[h := xs ! c] ! parent i) \<le> key (xs[h := xs ! c] ! i)"
    proof (cases "i = h")
      case True
      then show ?thesis using i across parent_less [of i] by simp
    next
      case False
      have "h < length xs" using h by (simp add: heap_hole_def)
      with False show ?thesis using i pair [of i] least [of i] by (cases "parent i = h") auto
    qed
  next
    fix d assume d: "d < length xs" "0 < d \<and> parent d = c \<and> 0 < c"
    have "h < d" using parent_less [of d] d hc by simp
    then show "key (xs[h := xs ! c] ! parent c) \<le> key (xs[h := xs ! c] ! d)"
      using pair [of d] d c(3) hc by simp
  qed (rule c(1))
qed

lemma child_iff: "c < length xs \<Longrightarrow> 0 < c \<Longrightarrow> parent c = h \<Longrightarrow> c = 2 * h + 1 \<or> c = 2 * h + 2 \<and> 2 * h + 2 < length xs"
  using parent_iff [of c h] by auto

lemma adjust_hole_heap:
  assumes "heap_hole key xs h" "adjust_hole cmp xs h = (ys, k)"
  shows "heap_hole key ys k \<and> length ys = length xs \<and> \<not> 2 * k + 1 < length ys"
  using assms
proof (induction xs h rule: adjust_hole_induct)
  case (1 xs h)
  consider "2 * h + 2 < length xs" | "\<not> 2 * h + 2 < length xs" "2 * h + 1 < length xs" | "\<not> 2 * h + 1 < length xs"
    by linarith
  then show ?case
  proof cases
    case 1
    define c where "c = (if cmp (xs ! (2 * h + 2)) (xs ! (2 * h + 1)) then 2 * h + 1 else 2 * h + 2)"
    have c: "c < length xs" "0 < c" "parent c = h" using 1 by (auto simp: c_def parent_def)
    have "heap_hole key (xs[h := xs ! c]) c"
    proof (rule heap_hole_down [OF \<open>heap_hole key xs h\<close> c])
      fix d assume "d < length xs" "0 < d" "parent d = h"
      then have "d = 2 * h + 1 \<or> d = 2 * h + 2" using parent_iff by blast
      then show "key (xs ! c) \<le> key (xs ! d)" by (auto simp: c_def cmp_key not_less less_imp_le)
    qed
    moreover have "adjust_hole cmp (xs[h := xs ! c]) c = (ys, k)"
      using \<open>adjust_hole cmp xs h = (ys, k)\<close> 1 by (simp add: adjust_hole.simps [of cmp xs h] c_def Let_def)
    ultimately show ?thesis using "1.IH" [OF 1 c_def] by simp
  next
    case 2
    have "heap_hole key (xs[h := xs ! (2 * h + 1)]) (2 * h + 1)"
    proof (rule heap_hole_down [OF \<open>heap_hole key xs h\<close> 2(2)])
      fix d assume "d < length xs" "0 < d" "parent d = h"
      then have "d = 2 * h + 1" using parent_iff [of d h] 2(1) by auto
      then show "key (xs ! (2 * h + 1)) \<le> key (xs ! d)" by simp
    qed (simp_all add: parent_def)
    then show ?thesis using \<open>adjust_hole cmp xs h = (ys, k)\<close> 2 by (auto simp: adjust_hole.simps [of cmp xs h])
  next
    case 3
    then show ?thesis using \<open>heap_hole key xs h\<close> \<open>adjust_hole cmp xs h = (ys, k)\<close> by (auto simp: adjust_hole.simps [of cmp xs h])
  qed
qed

lemma mset_hole: "h < length xs \<Longrightarrow> mset (xs[h := v]) = add_mset v (mset xs - {#xs ! h#})"
  by (simp add: mset_update)

lemma mset_move:
  assumes "h < length xs" "c < length xs" "c \<noteq> h"
  shows "mset (xs[h := xs ! c]) - {#(xs[h := xs ! c]) ! c#} = mset xs - {#xs ! h#}"
  using assms by (simp add: mset_hole)

lemma sift_up_mset: "h < length xs \<Longrightarrow> mset (sift_up cmp xs h v) = add_mset v (mset xs - {#xs ! h#})"
proof (induction xs h v rule: sift_up_induct)
  case (1 xs v)
  then show ?case by (simp add: sift_up.simps mset_hole)
next
  case (2 xs h v)
  have p: "h div 2 < length xs" "h div 2 \<noteq> Suc h" using 2(2) by (simp_all add: div_less_dividend le_less_trans [OF div_le_dividend])
  show ?case
  proof (cases "cmp (xs ! (h div 2)) v")
    case True
    have "mset (sift_up cmp xs (Suc h) v) = add_mset v (mset (xs[Suc h := xs ! (h div 2)])
        - {#(xs[Suc h := xs ! (h div 2)]) ! (h div 2)#})"
      using 2(1) [OF True] True p(1) by (simp add: sift_up.simps Let_def)
    then show ?thesis using mset_move [OF 2(2) p] by simp
  next
    case False
    then show ?thesis using 2(2) by (simp add: sift_up.simps Let_def mset_hole)
  qed
qed

lemma adjust_hole_mset:
  assumes "h < length xs" "adjust_hole cmp xs h = (ys, k)"
  shows "k < length ys \<and> mset ys - {#ys ! k#} = mset xs - {#xs ! h#}"
  using assms
proof (induction xs h rule: adjust_hole_induct)
  case (1 xs h)
  show ?case
  proof (cases "2 * h + 2 < length xs")
    case True
    define c where "c = (if cmp (xs ! (2 * h + 2)) (xs ! (2 * h + 1)) then 2 * h + 1 else 2 * h + 2)"
    have c: "c < length xs" "c \<noteq> h" using True by (auto simp: c_def)
    have "adjust_hole cmp (xs[h := xs ! c]) c = (ys, k)"
      using "1.prems" True by (simp add: adjust_hole.simps [of cmp xs h] c_def Let_def)
    then show ?thesis using "1.IH" [OF True c_def] c mset_move [OF "1.prems"(1) c] by simp
  next
    case False
    then show ?thesis
      using "1.prems" mset_move [OF "1.prems"(1), of "2 * h + 1"]
      by (auto simp: adjust_hole.simps [of cmp xs h] split: if_splits)
  qed
qed

lemma push_heap_heap: "heap key xs \<Longrightarrow> heap key (push_heap cmp xs v)" and push_heap_mset: "mset (push_heap cmp xs v) = add_mset v (mset xs)"
proof -
  assume h: "heap key xs"
  have "heap_hole key (xs @ [v]) (length xs)"
    unfolding heap_hole_def
  proof (intro conjI allI impI)
    fix i assume i: "i < length (xs @ [v])" "0 < i \<and> i \<noteq> length xs \<and> parent i \<noteq> length xs"
    then have "parent i < i" "i < length xs" using parent_less by auto
    then show "key ((xs @ [v]) ! parent i) \<le> key ((xs @ [v]) ! i)"
      using h i by (simp add: heap_def nth_append)
  next
    fix c assume "c < length (xs @ [v])" "0 < c \<and> parent c = length xs \<and> 0 < length xs"
    then show "key ((xs @ [v]) ! parent (length xs)) \<le> key ((xs @ [v]) ! c)"
      using parent_less [of c] by auto
  qed simp
  then show "heap key (push_heap cmp xs v)" unfolding push_heap_def
  proof (rule sift_up_heap)
    fix c assume "c < length (xs @ [v])" "0 < c" "parent c = length xs"
    then show "key v \<le> key ((xs @ [v]) ! c)" using parent_less [of c] by auto
  qed
next
  show "mset (push_heap cmp xs v) = add_mset v (mset xs)"
    by (simp add: push_heap_def sift_up_mset)
qed

lemma heap_top: "heap key xs \<Longrightarrow> i < length xs \<Longrightarrow> key (xs ! 0) \<le> key (xs ! i)"
proof (induction i rule: less_induct)
  case (less i)
  show ?case
  proof (cases "i = 0")
    case False
    then have p: "parent i < i" using parent_less by simp
    then have "key (xs ! 0) \<le> key (xs ! parent i)" using less by simp
    also have "\<dots> \<le> key (xs ! i)" using less.prems False by (simp add: heap_def)
    finally show ?thesis .
  qed simp
qed

lemma pop_heap_heap:
  assumes "heap key xs" "xs \<noteq> []"
  shows "heap key (pop_heap cmp xs)" "mset (pop_heap cmp xs) = mset xs - {#xs ! 0#}"
proof -
  have split: "xs = butlast xs @ [List.last xs]" using assms(2) by simp
  have both: "heap key (pop_heap cmp xs) \<and> mset (pop_heap cmp xs) = mset xs - {#xs ! 0#}"
  proof (cases "length xs > 1")
    case True
    obtain ys k where a: "adjust_hole cmp (butlast xs) 0 = (ys, k)" by fastforce
    have top: "butlast xs ! 0 = xs ! 0" using True by (simp add: nth_butlast)
    have "heap_hole key (butlast xs) 0"
      unfolding heap_hole_def
    proof (intro conjI allI impI)
      fix i assume i: "i < length (butlast xs)" "0 < i \<and> i \<noteq> 0 \<and> parent i \<noteq> 0"
      then have "parent i < i" using parent_less by blast
      then have "butlast xs ! parent i = xs ! parent i" "butlast xs ! i = xs ! i"
        using i(1) by (simp_all add: nth_butlast)
      then show "key (butlast xs ! parent i) \<le> key (butlast xs ! i)"
        using assms(1) i by (simp add: heap_def)
    qed (use True in auto)
    note hh = adjust_hole_heap [OF this a]
    have "0 < length (butlast xs)" using True by simp
    note m = adjust_hole_mset [OF this a]
    have "heap key (sift_up cmp ys k (List.last xs))"
    proof (rule sift_up_heap)
      fix c assume "c < length ys" "0 < c" "parent c = k"
      then show "key (List.last xs) \<le> key (ys ! c)" using hh parent_iff [of c k] by auto
    qed (use hh in simp)
    moreover have "mset (sift_up cmp ys k (List.last xs)) = add_mset (List.last xs) (mset (butlast xs) - {#xs ! 0#})"
      using m top by (simp add: sift_up_mset)
    moreover have "xs ! 0 \<in># mset (butlast xs)" using True top nth_mem [of 0 "butlast xs"] by simp
    moreover have "mset xs = add_mset (List.last xs) (mset (butlast xs))" by (subst split) simp
    ultimately show ?thesis using True a by (simp add: pop_heap_def)
  next
    case False
    then obtain f where "xs = [f]" using assms(2) by (cases xs) auto
    then show ?thesis by (simp add: pop_heap_def heap_def)
  qed
  then show "heap key (pop_heap cmp xs)" "mset (pop_heap cmp xs) = mset xs - {#xs ! 0#}" by auto
qed

end

end
