(* ===== verification/FlitBuffer.thy ===== *)
theory FlitBuffer
  imports NetDest StdHeap "HOL-Library.Product_Lexorder"
begin

text \<open>
  \<open>mem/ruby/network/garnet2.0/flit\<close>, \<open>flitBuffer\<close>, \<open>Credit\<close> and \<open>CommonTypes.hh\<close>: the units of transfer
  of the on-chip network and the buffers that hold them. A buffer is a vector kept as a binary heap with
  \<open>std::push_heap\<close> and \<open>std::pop_heap\<close>, ordered by time and, among flits of one time, by their number in
  the packet. Shown: a buffer is a priority queue.
\<close>

section \<open>Flits\<close>

datatype flit_type = HEAD | BODY | TAIL | HEAD_TAIL
datatype VC_state_type = IDLE | VC_AB | ACTIVE
datatype VNET_type = CTRL_VNET | DATA_VNET | NULL_VNET
datatype flit_stage = STAGE_I | STAGE_VA | STAGE_SA | STAGE_ST | STAGE_LT
datatype RoutingAlgorithm = TABLE | XY | CUSTOM

type_synonym cycles = nat

definition INFINITE :: nat where "INFINITE = 10000"

record RouteInfo =
  r_vnet :: int
  r_net_dest :: NetDest
  r_src_ni :: int
  r_src_router :: int
  r_dest_ni :: int
  r_dest_router :: int
  r_hops_traversed :: int

text \<open>The message a flit belongs to is a pointer. A credit is a flit that carries, besides its virtual
  channel, whether the channel became free.\<close>

record flit =
  f_id :: int
  f_vnet :: int
  f_vc :: int
  f_route :: RouteInfo
  f_size :: int
  f_enqueue_time :: cycles
  f_dequeue_time :: cycles
  f_time :: cycles
  f_type :: flit_type
  f_msg_ptr :: nat
  f_outport :: int
  f_src_delay :: cycles
  f_stage :: "flit_stage \<times> cycles"
  f_is_free_signal :: bool

definition flit_new :: "int \<Rightarrow> int \<Rightarrow> int \<Rightarrow> RouteInfo \<Rightarrow> int \<Rightarrow> nat \<Rightarrow> cycles \<Rightarrow> flit" where
  "flit_new fid vc vnet route sz msg curTime =
     \<lparr>f_id = fid, f_vnet = vnet, f_vc = vc, f_route = route, f_size = sz, f_enqueue_time = curTime,
      f_dequeue_time = curTime, f_time = curTime,
      f_type = (if sz = 1 then HEAD_TAIL else if fid = 0 then HEAD else if fid = sz - 1 then TAIL else BODY),
      f_msg_ptr = msg, f_outport = 0, f_src_delay = 0, f_stage = (STAGE_I, curTime), f_is_free_signal = False\<rparr>"

definition null_route :: RouteInfo where
  "null_route = \<lparr>r_vnet = 0, r_net_dest = [], r_src_ni = 0, r_src_router = 0, r_dest_ni = 0, r_dest_router = 0,
     r_hops_traversed = 0\<rparr>"

definition Credit_new :: "int \<Rightarrow> bool \<Rightarrow> cycles \<Rightarrow> flit" where
  "Credit_new vc is_free_signal curTime =
     \<lparr>f_id = 0, f_vnet = 0, f_vc = vc, f_route = null_route, f_size = 0, f_enqueue_time = 0, f_dequeue_time = 0,
      f_time = curTime, f_type = HEAD, f_msg_ptr = 0, f_outport = 0, f_src_delay = 0, f_stage = (STAGE_I, 0),
      f_is_free_signal = is_free_signal\<rparr>"

definition is_stage :: "flit_stage \<Rightarrow> cycles \<Rightarrow> flit \<Rightarrow> bool" where
  "is_stage stage time f \<longleftrightarrow> stage = fst (f_stage f) \<and> time \<ge> snd (f_stage f)"

definition advance_stage :: "flit_stage \<Rightarrow> cycles \<Rightarrow> flit \<Rightarrow> flit" where
  "advance_stage t_stage newTime f = f\<lparr>f_stage := (t_stage, newTime)\<rparr>"

definition increment_hops :: "flit \<Rightarrow> flit" where
  "increment_hops f = f\<lparr>f_route := (f_route f)\<lparr>r_hops_traversed := r_hops_traversed (f_route f) + 1\<rparr>\<rparr>"

definition flit_greater :: "flit \<Rightarrow> flit \<Rightarrow> bool" where
  "flit_greater n1 n2 \<longleftrightarrow> (if f_time n1 = f_time n2 then f_id n1 > f_id n2 else f_time n1 > f_time n2)"

section \<open>Buffers\<close>

record flitBuffer =
  fb_buffer :: "flit list"
  fb_max_size :: nat

definition flitBuffer_new :: flitBuffer where
  "flitBuffer_new = \<lparr>fb_buffer = [], fb_max_size = INFINITE\<rparr>"

definition fb_isEmpty :: "flitBuffer \<Rightarrow> bool" where
  "fb_isEmpty b \<longleftrightarrow> length (fb_buffer b) = 0"

text \<open>\<open>front()\<close> of an empty vector is undefined.\<close>

definition peekTopFlit :: "flitBuffer \<Rightarrow> flit result" where
  "peekTopFlit b = (case fb_buffer b of [] \<Rightarrow> Inl Undefined | f # _ \<Rightarrow> Inr f)"

definition fb_isReady :: "cycles \<Rightarrow> flitBuffer \<Rightarrow> bool" where
  "fb_isReady curTime b \<longleftrightarrow> (case fb_buffer b of [] \<Rightarrow> False | f # _ \<Rightarrow> f_time f \<le> curTime)"

definition fb_isFull :: "flitBuffer \<Rightarrow> bool" where
  "fb_isFull b \<longleftrightarrow> length (fb_buffer b) \<ge> fb_max_size b"

definition fb_setMaxSize :: "nat \<Rightarrow> flitBuffer \<Rightarrow> flitBuffer" where
  "fb_setMaxSize maximum b = b\<lparr>fb_max_size := maximum\<rparr>"

definition getTopFlit :: "flitBuffer \<Rightarrow> (flitBuffer \<times> flit) result" where
  "getTopFlit b =
     (case fb_buffer b of
        [] \<Rightarrow> Inl Undefined
      | f # _ \<Rightarrow> Inr (b\<lparr>fb_buffer := pop_heap flit_greater (fb_buffer b)\<rparr>, f))"

definition fb_insert :: "flit \<Rightarrow> flitBuffer \<Rightarrow> flitBuffer" where
  "fb_insert flt b = b\<lparr>fb_buffer := push_heap flit_greater (fb_buffer b) flt\<rparr>"

section \<open>The order of flits\<close>

definition fkey :: "flit \<Rightarrow> nat \<times> int" where
  "fkey f = (f_time f, f_id f)"

lemma flit_greater_key: "flit_greater a b \<longleftrightarrow> fkey b < fkey a"
  by (auto simp: flit_greater_def fkey_def less_prod_def)

interpretation fh: heap_order flit_greater fkey
  by unfold_locales (rule flit_greater_key)

section \<open>A buffer is a priority queue\<close>

text \<open>Taking \<open>n\<close> flits out of a queue one after the other.\<close>

primrec drain :: "('q \<Rightarrow> ('q \<times> flit) result) \<Rightarrow> nat \<Rightarrow> 'q \<Rightarrow> flit list result" where
  "drain get 0 q = Inr []"
| "drain get (Suc n) q = bindR (get q) (\<lambda>(q', f). bindR (drain get n q') (\<lambda>fs. Inr (f # fs)))"

locale priority_queue =
  fixes inv :: "'q \<Rightarrow> bool"
    and contents :: "'q \<Rightarrow> flit multiset"
    and ins :: "flit \<Rightarrow> 'q \<Rightarrow> 'q"
    and get :: "'q \<Rightarrow> ('q \<times> flit) result"
  assumes ins_inv: "inv q \<Longrightarrow> inv (ins f q)"
    and ins_contents: "contents (ins f q) = add_mset f (contents q)"
    and get_law: "inv q \<Longrightarrow> contents q \<noteq> {#} \<Longrightarrow>
      \<exists>q' f. get q = Inr (q', f) \<and> inv q' \<and> contents q = add_mset f (contents q') \<and> (\<forall>g \<in># contents q'. fkey f \<le> fkey g)"
    and get_empty: "contents q = {#} \<Longrightarrow> get q = Inl Undefined"
begin

lemma fill_contents: "contents (fold ins fs q) = contents q + mset fs"
  by (induction fs arbitrary: q) (simp_all add: ins_contents)

lemma fill_inv: "inv q \<Longrightarrow> inv (fold ins fs q)"
  by (induction fs arbitrary: q) (simp_all add: ins_inv)

lemma get_decides: "inv q \<Longrightarrow> (\<exists>q' f. get q = Inr (q', f)) \<longleftrightarrow> contents q \<noteq> {#}"
  using get_law get_empty by fastforce

lemma drain_sorted:
  "inv q \<Longrightarrow> \<exists>fs. drain get (size (contents q)) q = Inr fs \<and> mset fs = contents q \<and> sorted (map fkey fs)"
proof (induction "size (contents q)" arbitrary: q)
  case (Suc n)
  then have "contents q \<noteq> {#}" by auto
  then obtain q' f where g: "get q = Inr (q', f)" "inv q'" "contents q = add_mset f (contents q')"
      "\<forall>g \<in># contents q'. fkey f \<le> fkey g"
    using get_law [OF Suc.prems] by blast
  then have "n = size (contents q')" using Suc.hyps(2) by simp
  then obtain fs where "drain get (size (contents q')) q' = Inr fs" "mset fs = contents q'" "sorted (map fkey fs)"
    using Suc.hyps(1) g(2) by blast
  then have "drain get (size (contents q)) q = Inr (f # fs) \<and> mset (f # fs) = contents q \<and> sorted (map fkey (f # fs))"
    using g by (auto simp flip: set_mset_mset)
  then show ?case by blast
qed simp

end

definition fb_ok :: "flitBuffer \<Rightarrow> bool" where "fb_ok b \<longleftrightarrow> heap fkey (fb_buffer b)"

definition fb_contents :: "flitBuffer \<Rightarrow> flit multiset" where "fb_contents b = mset (fb_buffer b)"

interpretation fb: priority_queue fb_ok fb_contents fb_insert getTopFlit
proof
  fix b f assume "fb_ok b" then show "fb_ok (fb_insert f b)" by (simp add: fb_ok_def fb_insert_def fh.push_heap_heap)
next
  fix b f show "fb_contents (fb_insert f b) = add_mset f (fb_contents b)"
    by (simp add: fb_contents_def fb_insert_def fh.push_heap_mset)
next
  fix b assume b: "fb_ok b" "fb_contents b \<noteq> {#}"
  then obtain f fs where xs: "fb_buffer b = f # fs" by (cases "fb_buffer b") (auto simp: fb_contents_def)
  have h: "heap fkey (f # fs)" using b(1) xs by (simp add: fb_ok_def)
  note p = fh.pop_heap_heap [OF h]
  have top: "fkey f \<le> fkey g" if "g \<in> set (f # fs)" for g
    using that fh.heap_top [OF h] unfolding in_set_conv_nth by fastforce
  have "mset (pop_heap flit_greater (f # fs)) = mset fs" using p(2) by simp
  then have "set (pop_heap flit_greater (f # fs)) = set fs" by (metis set_mset_mset)
  then have "\<forall>g \<in> set (pop_heap flit_greater (f # fs)). fkey f \<le> fkey g" using top by simp
  then show "\<exists>q' f. getTopFlit b = Inr (q', f) \<and> fb_ok q' \<and> fb_contents b = add_mset f (fb_contents q')
      \<and> (\<forall>g \<in># fb_contents q'. fkey f \<le> fkey g)"
    using p by (simp add: getTopFlit_def xs fb_ok_def fb_contents_def)
next
  fix b assume "fb_contents b = {#}" then show "getTopFlit b = Inl Undefined"
    by (simp add: fb_contents_def getTopFlit_def)
qed

section \<open>Properties\<close>

text \<open>C8: A buffer gives its flits out in order. Whatever flits are inserted, in whatever order, taking them out again
  succeeds for each of them, returns exactly the flits that were inserted, in the order of their times and, for one
  time, of their numbers in the packet.\<close>

theorem flitBuffer_drains_in_order:
  "\<exists>gs. drain getTopFlit (length fs) (fold fb_insert fs flitBuffer_new) = Inr gs
     \<and> mset gs = mset fs \<and> sorted_wrt (\<lambda>a b. \<not> flit_greater a b) gs"
proof -
  let ?q = "fold fb_insert fs flitBuffer_new"
  have inv: "fb_ok ?q" and c: "fb_contents ?q = mset fs"
    using fb.fill_inv [of flitBuffer_new fs] fb.fill_contents [of fs flitBuffer_new]
    by (simp_all add: fb_ok_def heap_def flitBuffer_new_def fb_contents_def)
  obtain gs where "drain getTopFlit (size (mset fs)) ?q = Inr gs" "mset gs = mset fs" "sorted (map fkey gs)"
    using fb.drain_sorted [OF inv] c by auto
  then show ?thesis by (auto simp: sorted_map flit_greater_key not_less)
qed

end
