(* ===== verification/GarnetRouting.thy ===== *)
theory GarnetRouting
  imports FlitBuffer
begin

text \<open>
  \<open>mem/ruby/network/garnet2.0/RoutingUnit\<close>: the choice of the output port of a packet, from the routing
  table with link weights or, on a mesh, by dimension order (first along the row, then along the column).
  Identifiers of routers and ports are \<open>int\<close>s, port directions are strings. What the unit asks of its
  router and network (its identifier, the mesh, the algorithm, whether a virtual network is ordered) and the
  result of \<open>rand()\<close> are arguments.
\<close>

section \<open>Model\<close>

type_synonym PortDirection = string

record RoutingUnit =
  ru_routing_table :: "NetDest list"
  ru_weight_table :: "int list"
  ru_inports_dirn2idx :: "PortDirection \<rightharpoonup> int"
  ru_inports_idx2dirn :: "int \<rightharpoonup> PortDirection"
  ru_outports_idx2dirn :: "int \<rightharpoonup> PortDirection"
  ru_outports_dirn2idx :: "PortDirection \<rightharpoonup> int"

definition RoutingUnit_new :: RoutingUnit where
  "RoutingUnit_new = \<lparr>ru_routing_table = [], ru_weight_table = [], ru_inports_dirn2idx = Map.empty,
     ru_inports_idx2dirn = Map.empty, ru_outports_idx2dirn = Map.empty, ru_outports_dirn2idx = Map.empty\<rparr>"

definition addRoute :: "NetDest \<Rightarrow> RoutingUnit \<Rightarrow> RoutingUnit" where
  "addRoute routing_table_entry ru = ru\<lparr>ru_routing_table := ru_routing_table ru @ [routing_table_entry]\<rparr>"

definition addWeight :: "int \<Rightarrow> RoutingUnit \<Rightarrow> RoutingUnit" where
  "addWeight link_weight ru = ru\<lparr>ru_weight_table := ru_weight_table ru @ [link_weight]\<rparr>"

text \<open>The first loop finds the least weight of the links to the destination.\<close>

definition min_weight_step :: "RoutingUnit \<Rightarrow> NetDest \<Rightarrow> nat \<Rightarrow> int \<Rightarrow> int result" where
  "min_weight_step ru msg_destination link min_weight =
     bindR (nd_intersectionIsNotEmpty (ru_routing_table ru ! link) msg_destination) (\<lambda>b.
       if b then (if link < length (ru_weight_table ru)
                  then Inr (if ru_weight_table ru ! link \<le> min_weight then ru_weight_table ru ! link else min_weight)
                  else Inl Undefined)
       else Inr min_weight)"

text \<open>The second loop collects the links of this weight.\<close>

definition candidate_step :: "RoutingUnit \<Rightarrow> NetDest \<Rightarrow> int \<Rightarrow> nat \<Rightarrow> nat list \<Rightarrow> nat list result" where
  "candidate_step ru msg_destination min_weight link cs =
     bindR (nd_intersectionIsNotEmpty (ru_routing_table ru ! link) msg_destination) (\<lambda>b.
       if b then (if link < length (ru_weight_table ru)
                  then Inr (if ru_weight_table ru ! link = min_weight then cs @ [link] else cs)
                  else Inl Undefined)
       else Inr cs)"

definition lookupRoutingTable :: "(int \<Rightarrow> bool) \<Rightarrow> nat \<Rightarrow> RoutingUnit \<Rightarrow> int \<Rightarrow> NetDest \<Rightarrow> int result" where
  "lookupRoutingTable isVNetOrdered rand ru vnet msg_destination =
     (let links = [0..<length (ru_routing_table ru)] in
      bindR (foldR (min_weight_step ru msg_destination) links (int INFINITE)) (\<lambda>min_weight.
      bindR (foldR (candidate_step ru msg_destination min_weight) links []) (\<lambda>output_link_candidates.
        if output_link_candidates = [] then Inl Fatal
        else let candidate = (if isVNetOrdered vnet then 0 else rand mod length output_link_candidates)
             in Inr (int (output_link_candidates ! candidate)))))"

definition addInDirection :: "PortDirection \<Rightarrow> int \<Rightarrow> RoutingUnit \<Rightarrow> RoutingUnit" where
  "addInDirection inport_dirn inport_idx ru =
     ru\<lparr>ru_inports_dirn2idx := (ru_inports_dirn2idx ru)(inport_dirn \<mapsto> inport_idx),
        ru_inports_idx2dirn := (ru_inports_idx2dirn ru)(inport_idx \<mapsto> inport_dirn)\<rparr>"

definition addOutDirection :: "PortDirection \<Rightarrow> int \<Rightarrow> RoutingUnit \<Rightarrow> RoutingUnit" where
  "addOutDirection outport_dirn outport_idx ru =
     ru\<lparr>ru_outports_dirn2idx := (ru_outports_dirn2idx ru)(outport_dirn \<mapsto> outport_idx),
        ru_outports_idx2dirn := (ru_outports_idx2dirn ru)(outport_idx \<mapsto> outport_dirn)\<rparr>"

text \<open>The direction \<open>outportComputeXY\<close> chooses.\<close>

definition xy_direction :: "int \<Rightarrow> int \<Rightarrow> int \<Rightarrow> int \<Rightarrow> PortDirection \<Rightarrow> PortDirection result" where
  "xy_direction num_rows num_cols my_id dest_id inport_dirn =
     bindR (assertR (num_rows > 0 \<and> num_cols > 0)) (\<lambda>_.
     let my_x = my_id mod num_cols; my_y = my_id div num_cols;
         dest_x = dest_id mod num_cols; dest_y = dest_id div num_cols;
         x_hops = abs (dest_x - my_x); y_hops = abs (dest_y - my_y);
         x_dirn = (dest_x \<ge> my_x); y_dirn = (dest_y \<ge> my_y)
     in bindR (assertR (\<not> (x_hops = 0 \<and> y_hops = 0))) (\<lambda>_.
        if x_hops > 0
        then (if x_dirn
              then bindR (assertR (inport_dirn = ''Local'' \<or> inport_dirn = ''West'')) (\<lambda>_. Inr ''East'')
              else bindR (assertR (inport_dirn = ''Local'' \<or> inport_dirn = ''East'')) (\<lambda>_. Inr ''West''))
        else if y_hops > 0
        then (if y_dirn
              then bindR (assertR (inport_dirn \<noteq> ''North'')) (\<lambda>_. Inr ''North'')
              else bindR (assertR (inport_dirn \<noteq> ''South'')) (\<lambda>_. Inr ''South''))
        else Inl Panic))"

text \<open>The index operator of a map adds a missing key with the value 0.\<close>

definition outportComputeXY :: "int \<Rightarrow> int \<Rightarrow> int \<Rightarrow> RoutingUnit \<Rightarrow> RouteInfo \<Rightarrow> PortDirection \<Rightarrow> int result" where
  "outportComputeXY num_rows num_cols my_id ru route inport_dirn =
     bindR (xy_direction num_rows num_cols my_id (r_dest_router route) inport_dirn) (\<lambda>outport_dirn.
       Inr (case ru_outports_dirn2idx ru outport_dirn of Some i \<Rightarrow> i | None \<Rightarrow> 0))"

definition outportComputeCustom :: "int result" where "outportComputeCustom = Inl Panic"

definition outportCompute ::
    "RoutingAlgorithm \<Rightarrow> (int \<Rightarrow> bool) \<Rightarrow> nat \<Rightarrow> int \<Rightarrow> int \<Rightarrow> int \<Rightarrow> RoutingUnit \<Rightarrow> RouteInfo \<Rightarrow> PortDirection \<Rightarrow> int result"
  where
  "outportCompute routing_algorithm isVNetOrdered rand num_rows num_cols my_id ru route inport_dirn =
     (if r_dest_router route = my_id
      then lookupRoutingTable isVNetOrdered rand ru (r_vnet route) (r_net_dest route)
      else bindR (case routing_algorithm of
                    TABLE \<Rightarrow> lookupRoutingTable isVNetOrdered rand ru (r_vnet route) (r_net_dest route)
                  | XY \<Rightarrow> outportComputeXY num_rows num_cols my_id ru route inport_dirn
                  | CUSTOM \<Rightarrow> outportComputeCustom) (\<lambda>outport.
             bindR (assertR (outport \<noteq> - 1)) (\<lambda>_. Inr outport)))"

section \<open>Routing tables\<close>

text \<open>The links of a table that lead to some of the destinations.\<close>

definition leads :: "RoutingUnit \<Rightarrow> NetDest \<Rightarrow> nat \<Rightarrow> bool" where
  "leads ru d l \<longleftrightarrow> l < length (ru_routing_table ru) \<and> members d \<inter> members (ru_routing_table ru ! l) \<noteq> {}"

definition table_wf :: "nat list \<Rightarrow> RoutingUnit \<Rightarrow> bool" where
  "table_wf n ru \<longleftrightarrow> (\<forall>e \<in> set (ru_routing_table ru). nd_wf n e)
     \<and> length (ru_weight_table ru) = length (ru_routing_table ru)"

lemma leads_test:
  assumes "table_wf n ru" "nd_wf n d" "l < length (ru_routing_table ru)"
  shows "nd_intersectionIsNotEmpty (ru_routing_table ru ! l) d = Inr (leads ru d l)"
  using intersection_members [OF assms(2), of "ru_routing_table ru ! l"] assms by (simp add: table_wf_def leads_def)

lemma min_weight_loop:
  assumes "table_wf n ru" "nd_wf n d" "k \<le> length (ru_routing_table ru)"
  shows "foldR (min_weight_step ru d) [0..<k] w =
     Inr (fold (\<lambda>l m. min (ru_weight_table ru ! l) m) (filter (leads ru d) [0..<k]) w)"
  using assms(3)
proof (induction k)
  case (Suc k)
  then have "nd_intersectionIsNotEmpty (ru_routing_table ru ! k) d = Inr (leads ru d k)" "k < length (ru_weight_table ru)"
    using leads_test [OF assms(1,2)] assms(1) by (simp_all add: table_wf_def)
  then show ?case using Suc by (simp add: foldR_append min_weight_step_def min_def)
qed simp

lemma candidate_loop:
  assumes "table_wf n ru" "nd_wf n d" "k \<le> length (ru_routing_table ru)"
  shows "foldR (candidate_step ru d w) [0..<k] cs =
     Inr (cs @ filter (\<lambda>l. leads ru d l \<and> ru_weight_table ru ! l = w) [0..<k])"
  using assms(3)
proof (induction k)
  case (Suc k)
  then have "nd_intersectionIsNotEmpty (ru_routing_table ru ! k) d = Inr (leads ru d k)" "k < length (ru_weight_table ru)"
    using leads_test [OF assms(1,2)] assms(1) by (simp_all add: table_wf_def)
  then show ?case using Suc by (simp add: foldR_append candidate_step_def)
qed simp

lemma fold_min:
  fixes g :: "nat \<Rightarrow> int"
  shows "fold (\<lambda>l m. min (g l) m) ls w \<le> w" "l \<in> set ls \<Longrightarrow> fold (\<lambda>l m. min (g l) m) ls w \<le> g l"
    "fold (\<lambda>l m. min (g l) m) ls w = w \<or> (\<exists>l \<in> set ls. fold (\<lambda>l m. min (g l) m) ls w = g l)"
proof -
  show le: "fold (\<lambda>l m. min (g l) m) ls w \<le> w" for ls w
  proof (induction ls arbitrary: w)
    case (Cons a ls)
    show ?case using order_trans [OF Cons.IH [of "min (g a) w"] min.cobounded2] by simp
  qed simp
  show "l \<in> set ls \<Longrightarrow> fold (\<lambda>l m. min (g l) m) ls w \<le> g l"
  proof (induction ls arbitrary: w)
    case (Cons a ls)
    then show ?case using le [of ls "min (g a) w"] by auto
  qed simp
  show "fold (\<lambda>l m. min (g l) m) ls w = w \<or> (\<exists>l \<in> set ls. fold (\<lambda>l m. min (g l) m) ls w = g l)"
  proof (induction ls arbitrary: w)
    case (Cons a ls)
    then show ?case using Cons.IH [of "min (g a) w"] by (auto simp: min_def)
  qed simp
qed

lemma lookup_result:
  assumes "table_wf n ru" "nd_wf n d"
  shows "case lookupRoutingTable ordered rand ru vnet d of
     Inr p \<Rightarrow> \<exists>l. p = int l \<and> leads ru d l
       \<and> (\<forall>l'. leads ru d l' \<longrightarrow> ru_weight_table ru ! l \<le> ru_weight_table ru ! l')
       \<and> (ordered vnet \<longrightarrow> (\<forall>l'. leads ru d l' \<and> ru_weight_table ru ! l' = ru_weight_table ru ! l \<longrightarrow> l \<le> l'))
   | Inl err \<Rightarrow> err = Fatal \<and> (\<forall>l. leads ru d l \<longrightarrow> ru_weight_table ru ! l > int INFINITE)"
proof -
  define ks where "ks = [0..<length (ru_routing_table ru)]"
  define W where "W = (\<lambda>l. ru_weight_table ru ! l)"
  define w where "w = fold (\<lambda>l m. min (W l) m) (filter (leads ru d) ks) (int INFINITE)"
  define cs where "cs = filter (\<lambda>l. leads ru d l \<and> W l = w) ks"
  have in_ks: "l \<in> set ks" if "leads ru d l" for l using that by (simp add: ks_def leads_def)
  have look: "lookupRoutingTable ordered rand ru vnet d =
      (if cs = [] then Inl Fatal else Inr (int (cs ! (if ordered vnet then 0 else rand mod length cs))))"
    using min_weight_loop [OF assms order_refl, of "int INFINITE"] candidate_loop [OF assms order_refl, of w "[]"]
    by (simp add: lookupRoutingTable_def Let_def ks_def [symmetric] W_def [symmetric] w_def [symmetric] cs_def [symmetric])
  have least: "w \<le> W l" if "leads ru d l" for l
    using fold_min(2) [of l "filter (leads ru d) ks" W "int INFINITE"] in_ks [OF that] that by (simp add: w_def)
  show ?thesis
  proof (cases "cs = []")
    case True
    have "int INFINITE < W l" if "leads ru d l" for l
    proof (rule ccontr)
      assume "\<not> int INFINITE < W l"
      then have "w = int INFINITE \<and> W l = w \<or> (\<exists>l' \<in> set (filter (leads ru d) ks). w = W l')"
        using fold_min(3) [of W "filter (leads ru d) ks" "int INFINITE"] least [OF that] by (auto simp: w_def)
      then have "cs \<noteq> []" using in_ks [OF that] that by (auto simp: cs_def filter_empty_conv)
      with True show False by simp
    qed
    then show ?thesis using True look by (simp add: W_def)
  next
    case False
    define i where "i = (if ordered vnet then 0 else rand mod length cs)"
    have "i < length cs" using False by (simp add: i_def)
    then have l: "leads ru d (cs ! i)" "W (cs ! i) = w" using nth_mem [of i cs] by (auto simp: cs_def)
    have first: "cs ! 0 \<le> l'" if "leads ru d l'" "W l' = w" for l'
    proof -
      have "l' \<in> set cs" using that in_ks by (simp add: cs_def)
      moreover have "sorted cs" by (simp add: cs_def ks_def sorted_wrt_filter)
      ultimately show ?thesis by (cases cs) auto
    qed
    have res: "lookupRoutingTable ordered rand ru vnet d = Inr (int (cs ! i))" using False look by (simp add: i_def)
    have "ordered vnet \<Longrightarrow> cs ! i \<le> l'" if "leads ru d l'" "W l' = W (cs ! i)" for l'
      using first [OF that(1)] that(2) l(2) by (simp add: i_def)
    then show ?thesis unfolding res sum.case using l least W_def by (intro exI [of _ "cs ! i"]) simp
  qed
qed

section \<open>Dimension-order routing on a mesh\<close>

text \<open>The mesh: routers are numbered row by row, going east adds one and going north adds a row. A packet that leaves
  in one direction arrives at the opposite port of the next router.\<close>

definition neighbour :: "int \<Rightarrow> PortDirection \<Rightarrow> int \<Rightarrow> int" where
  "neighbour num_cols d r =
     (if d = ''East'' then r + 1 else if d = ''West'' then r - 1
      else if d = ''North'' then r + num_cols else r - num_cols)"

definition opposite :: "PortDirection \<Rightarrow> PortDirection" where
  "opposite d = (if d = ''East'' then ''West'' else if d = ''West'' then ''East''
     else if d = ''North'' then ''South'' else ''North'')"

primrec xy_walk :: "nat \<Rightarrow> int \<Rightarrow> int \<Rightarrow> int \<Rightarrow> int \<times> PortDirection \<Rightarrow> (int \<times> PortDirection) result" where
  "xy_walk 0 rows cols dest s = Inr s"
| "xy_walk (Suc n) rows cols dest s =
     bindR (xy_direction rows cols (fst s) dest (snd s)) (\<lambda>d.
       xy_walk n rows cols dest (neighbour cols d (fst s), opposite d))"

lemma coord: "0 \<le> x \<Longrightarrow> x < c \<Longrightarrow> (y * c + x) mod c = x \<and> (y * c + x) div c = y" for x y c :: int
  using int_div_pos_eq [of "y * c + x" c y x] int_mod_pos_eq [of "y * c + x" c y x] by (simp add: mult.commute)

lemma xy_step:
  assumes "0 < r" "0 < c" "0 \<le> x" "x < c" "0 \<le> dx" "dx < c"
  shows "dx > x \<Longrightarrow> p \<in> {''Local'', ''West''} \<Longrightarrow> xy_direction r c (y * c + x) (dy * c + dx) p = Inr ''East''"
    "dx < x \<Longrightarrow> p \<in> {''Local'', ''East''} \<Longrightarrow> xy_direction r c (y * c + x) (dy * c + dx) p = Inr ''West''"
    "dx = x \<Longrightarrow> dy > y \<Longrightarrow> p \<noteq> ''North'' \<Longrightarrow> xy_direction r c (y * c + x) (dy * c + dx) p = Inr ''North''"
    "dx = x \<Longrightarrow> dy < y \<Longrightarrow> p \<noteq> ''South'' \<Longrightarrow> xy_direction r c (y * c + x) (dy * c + dx) p = Inr ''South''"
  using assms coord [of x c y] coord [of dx c dy] by (auto simp: xy_direction_def)

lemma xy_column:
  assumes "0 < r" "0 < c" "0 \<le> x" "x < c" "y < dy \<Longrightarrow> p \<noteq> ''North''" "dy < y \<Longrightarrow> p \<noteq> ''South''"
  shows "\<exists>q. xy_walk (nat \<bar>dy - y\<bar>) r c (dy * c + x) (y * c + x, p) = Inr (dy * c + x, q)"
  using assms(5,6)
proof (induction "nat \<bar>dy - y\<bar>" arbitrary: y p)
  case (Suc k)
  consider "y < dy" | "dy < y" using Suc.hyps(2) by linarith
  then show ?case
  proof cases
    case 1
    then have "k = nat \<bar>dy - (y + 1)\<bar>" using Suc.hyps(2) by simp
    then obtain q where "xy_walk k r c (dy * c + x) ((y + 1) * c + x, ''South'') = Inr (dy * c + x, q)"
      using Suc.hyps(1) [of "y + 1" "''South''"] 1 by auto
    moreover have "xy_direction r c (y * c + x) (dy * c + x) p = Inr ''North''"
      using xy_step(3) [OF assms(1-4,3,4)] 1 Suc.prems by simp
    ultimately show ?thesis unfolding Suc.hyps(2) [symmetric]
      by (simp add: neighbour_def opposite_def distrib_right add.commute add.left_commute)
  next
    case 2
    then have "k = nat \<bar>dy - (y - 1)\<bar>" using Suc.hyps(2) by simp
    then obtain q where "xy_walk k r c (dy * c + x) ((y - 1) * c + x, ''North'') = Inr (dy * c + x, q)"
      using Suc.hyps(1) [of "y - 1" "''North''"] 2 by auto
    moreover have "xy_direction r c (y * c + x) (dy * c + x) p = Inr ''South''"
      using xy_step(4) [OF assms(1-4,3,4)] 2 Suc.prems by simp
    ultimately show ?thesis unfolding Suc.hyps(2) [symmetric]
      by (simp add: neighbour_def opposite_def left_diff_distrib diff_add_eq)
  qed
qed simp

lemma xy_walk_add:
  "xy_walk (n + k) r c d s = bindR (xy_walk n r c d s) (xy_walk k r c d)"
  by (induction n arbitrary: s) (auto simp: bindR_def split: sum.splits)

text \<open>Along the row the packet keeps its direction, so it reaches the column of its destination from the port it
  would have to keep using, or without having moved.\<close>

lemma xy_row:
  assumes "0 < r" "0 < c" "0 \<le> x" "x < c" "0 \<le> dx" "dx < c"
    "x < dx \<Longrightarrow> p \<in> {''Local'', ''West''}" "dx < x \<Longrightarrow> p \<in> {''Local'', ''East''}"
  shows "\<exists>q. xy_walk (nat \<bar>dx - x\<bar>) r c (dy * c + dx) (y * c + x, p) = Inr (y * c + dx, q)
     \<and> (q = p \<or> q \<in> {''West'', ''East''})"
  using assms(3,4,7,8)
proof (induction "nat \<bar>dx - x\<bar>" arbitrary: x p)
  case (Suc k)
  consider "x < dx" | "dx < x" using Suc.hyps(2) by linarith
  then show ?case
  proof cases
    case 1
    then have "k = nat \<bar>dx - (x + 1)\<bar>" using Suc.hyps(2) by simp
    then obtain q where "xy_walk k r c (dy * c + dx) (y * c + (x + 1), ''West'') = Inr (y * c + dx, q)
        \<and> (q = ''West'' \<or> q \<in> {''West'', ''East''})"
      using Suc.hyps(1) [of "x + 1" "''West''"] 1 Suc.prems(1) assms(6) by auto
    moreover have "xy_direction r c (y * c + x) (dy * c + dx) p = Inr ''East''"
      using xy_step(1) [OF assms(1,2) Suc.prems(1,2) assms(5,6)] 1 Suc.prems(3) by simp
    ultimately show ?thesis unfolding Suc.hyps(2) [symmetric]
      by (auto simp: neighbour_def opposite_def add.assoc)
  next
    case 2
    then have "k = nat \<bar>dx - (x - 1)\<bar>" using Suc.hyps(2) by simp
    then obtain q where "xy_walk k r c (dy * c + dx) (y * c + (x - 1), ''East'') = Inr (y * c + dx, q)
        \<and> (q = ''East'' \<or> q \<in> {''West'', ''East''})"
      using Suc.hyps(1) [of "x - 1" "''East''"] 2 Suc.prems(2) assms(5) by auto
    moreover have "xy_direction r c (y * c + x) (dy * c + dx) p = Inr ''West''"
      using xy_step(2) [OF assms(1,2) Suc.prems(1,2) assms(5,6)] 2 Suc.prems(4) by simp
    ultimately show ?thesis unfolding Suc.hyps(2) [symmetric]
      by (auto simp: neighbour_def opposite_def add_diff_eq)
  qed
qed auto

section \<open>Properties\<close>

text \<open>C7: Dimension-order routing delivers. On a mesh, from every router to every other router, a packet injected at
  the local port that follows the directions \<open>outportComputeXY\<close> chooses reaches its destination after exactly the
  number of hops between the two, and none of the assertions on the arrival port fails on the way; so no packet ever
  turns from a column into a row, the turn that could close a cycle of waiting packets.\<close>

theorem xy_routing_delivers:
  assumes "0 < rows" "0 < cols" "0 \<le> src" "src < rows * cols" "0 \<le> dst" "dst < rows * cols"
  shows "\<exists>p. xy_walk (nat \<bar>dst mod cols - src mod cols\<bar> + nat \<bar>dst div cols - src div cols\<bar>)
     rows cols dst (src, ''Local'') = Inr (dst, p)"
proof -
  let ?x = "src mod cols" and ?y = "src div cols" and ?dx = "dst mod cols" and ?dy = "dst div cols"
  have b: "0 \<le> ?x" "?x < cols" "0 \<le> ?dx" "?dx < cols" using assms(2) by simp_all
  have s: "?y * cols + ?x = src" and d: "?dy * cols + ?dx = dst" by simp_all
  obtain q where q: "xy_walk (nat \<bar>?dx - ?x\<bar>) rows cols dst (src, ''Local'') = Inr (?y * cols + ?dx, q)"
      "q = ''Local'' \<or> q \<in> {''West'', ''East''}"
    using xy_row [OF assms(1,2) b, of "''Local''" ?dy ?y] unfolding s d by auto
  have n: "q \<noteq> ''North''" "q \<noteq> ''South''" using q(2) by auto
  obtain p where "xy_walk (nat \<bar>?dy - ?y\<bar>) rows cols dst (?y * cols + ?dx, q) = Inr (dst, p)"
    using xy_column [OF assms(1,2) b(3,4), of ?y ?dy q] n unfolding d by auto
  then show ?thesis using q(1) by (simp add: xy_walk_add)
qed

theorem xy_routing_delivers_witness:
  "\<exists>p. xy_walk (nat \<bar>11 mod 4 - 2 mod 4\<bar> + nat \<bar>11 div 4 - 2 div 4\<bar>) 3 4 11 (2, ''Local'') = Inr (11, p)"
  by (rule xy_routing_delivers) simp_all


definition demo_ru :: RoutingUnit where
  "demo_ru = addWeight 2 (addRoute (demo_dest 9) (addWeight 1 (addRoute (demo_dest 5) RoutingUnit_new)))"

lemma demo_ru_wf: "table_wf [4, 2] demo_ru"
  using demo_dest_wf by (simp add: demo_ru_def addWeight_def addRoute_def RoutingUnit_new_def table_wf_def)


end
