(* ===== verification/GarnetUnits.thy ===== *)
theory GarnetUnits
  imports GarnetRouting
begin

text \<open>
  The parts a Garnet router and a network interface are built of: the state of an output virtual channel
  (\<open>OutVcState\<close>), the input virtual channel (\<open>VirtualChannel\<close>), the links (\<open>NetworkLink\<close>, \<open>CreditLink\<close>), the
  input port (\<open>InputUnit\<close>) and the output port (\<open>OutputUnit\<close>), all of \<open>mem/ruby/network/garnet2.0\<close>. Links are
  named by numbers, since each is shared by the unit that feeds it and the one that reads it; an operation
  that reads a link takes the link and returns it. The calls that schedule a later wake-up are returned as a
  list. Statistics counters are not kept.
\<close>

section \<open>The network's parameters\<close>

record GarnetNetwork =
  g_virtual_networks :: int
  g_vcs_per_vnet :: int
  g_vnet_type :: "VNET_type list"
  g_ordered :: "bool list"
  g_buffers_per_data_vc :: int
  g_buffers_per_ctrl_vc :: int
  g_ni_flit_size :: int
  g_num_rows :: int
  g_num_cols :: int
  g_routing_algorithm :: RoutingAlgorithm

definition isVNetOrdered :: "GarnetNetwork \<Rightarrow> int \<Rightarrow> bool result" where
  "isVNetOrdered g vnet = vec_at (g_ordered g) vnet"

text \<open>A virtual network is one for data exactly when the protocol names it a response network.\<close>

definition vnet_types :: "string list \<Rightarrow> VNET_type list" where
  "vnet_types names = map (\<lambda>n. if n = ''response'' then DATA_VNET else CTRL_VNET) names"

definition get_vnet_type :: "GarnetNetwork \<Rightarrow> int \<Rightarrow> VNET_type result" where
  "get_vnet_type g vc =
     (if g_vcs_per_vnet g = 0 then Inl Undefined else vec_at (g_vnet_type g) (vc div g_vcs_per_vnet g))"

section \<open>Output virtual channels\<close>

record OutVcState =
  ovs_id :: int
  ovs_time :: cycles
  ovs_vc_state :: VC_state_type
  ovs_credit_count :: int
  ovs_max_credit_count :: int

definition OutVcState_new :: "GarnetNetwork \<Rightarrow> int \<Rightarrow> OutVcState result" where
  "OutVcState_new g vid =
     bindR (get_vnet_type g vid) (\<lambda>t.
     let m = (if t = DATA_VNET then g_buffers_per_data_vc g else g_buffers_per_ctrl_vc g)
     in bindR (assertR (m \<ge> 1)) (\<lambda>_.
        Inr \<lparr>ovs_id = vid, ovs_time = 0, ovs_vc_state = IDLE, ovs_credit_count = m, ovs_max_credit_count = m\<rparr>))"

definition ovs_has_credit :: "OutVcState \<Rightarrow> bool" where
  "ovs_has_credit s \<longleftrightarrow> ovs_credit_count s > 0"

definition isInState :: "VC_state_type \<Rightarrow> cycles \<Rightarrow> OutVcState \<Rightarrow> bool" where
  "isInState state request_time s \<longleftrightarrow> ovs_vc_state s = state \<and> request_time \<ge> ovs_time s"

definition ovs_setState :: "VC_state_type \<Rightarrow> cycles \<Rightarrow> OutVcState \<Rightarrow> OutVcState" where
  "ovs_setState state time s = s\<lparr>ovs_vc_state := state, ovs_time := time\<rparr>"

definition ovs_increment_credit :: "OutVcState \<Rightarrow> OutVcState result" where
  "ovs_increment_credit s =
     (let s1 = s\<lparr>ovs_credit_count := ovs_credit_count s + 1\<rparr>
      in bindR (assertR (ovs_credit_count s1 \<le> ovs_max_credit_count s1)) (\<lambda>_. Inr s1))"

definition ovs_decrement_credit :: "OutVcState \<Rightarrow> OutVcState result" where
  "ovs_decrement_credit s =
     (let s1 = s\<lparr>ovs_credit_count := ovs_credit_count s - 1\<rparr>
      in bindR (assertR (ovs_credit_count s1 \<ge> 0)) (\<lambda>_. Inr s1))"

section \<open>Input virtual channels\<close>

record VirtualChannel =
  vc_inputBuffer :: flitBuffer
  vc_state :: "VC_state_type \<times> cycles"
  vc_output_port :: int
  vc_enqueue_time :: cycles
  vc_output_vc :: int

definition VirtualChannel_new :: VirtualChannel where
  "VirtualChannel_new = \<lparr>vc_inputBuffer = flitBuffer_new, vc_state = (IDLE, 0), vc_output_port = - 1,
     vc_enqueue_time = INFINITE, vc_output_vc = - 1\<rparr>"

definition set_idle :: "cycles \<Rightarrow> VirtualChannel \<Rightarrow> VirtualChannel" where
  "set_idle curTime vc = vc\<lparr>vc_state := (IDLE, curTime), vc_enqueue_time := INFINITE, vc_output_port := - 1,
     vc_output_vc := - 1\<rparr>"

definition set_active :: "cycles \<Rightarrow> VirtualChannel \<Rightarrow> VirtualChannel" where
  "set_active curTime vc = vc\<lparr>vc_state := (ACTIVE, curTime), vc_enqueue_time := curTime\<rparr>"

definition need_stage :: "flit_stage \<Rightarrow> cycles \<Rightarrow> VirtualChannel \<Rightarrow> bool result" where
  "need_stage stage time vc =
     (if fb_isReady time (vc_inputBuffer vc)
      then bindR (assertR (fst (vc_state vc) = ACTIVE \<and> snd (vc_state vc) \<le> time)) (\<lambda>_.
           bindR (peekTopFlit (vc_inputBuffer vc)) (\<lambda>t_flit. Inr (is_stage stage time t_flit)))
      else Inr False)"

definition insertFlit :: "flit \<Rightarrow> VirtualChannel \<Rightarrow> VirtualChannel" where
  "insertFlit t_flit vc = vc\<lparr>vc_inputBuffer := fb_insert t_flit (vc_inputBuffer vc)\<rparr>"

definition vc_getTopFlit :: "VirtualChannel \<Rightarrow> (VirtualChannel \<times> flit) result" where
  "vc_getTopFlit vc = bindR (getTopFlit (vc_inputBuffer vc)) (\<lambda>(b, f). Inr (vc\<lparr>vc_inputBuffer := b\<rparr>, f))"

section \<open>Links\<close>

datatype Wakeup = WakeLink nat cycles | WakeConsumer cycles

record NetworkLink =
  nl_id :: nat
  nl_latency :: cycles
  nl_linkBuffer :: flitBuffer

definition NetworkLink_new :: "nat \<Rightarrow> cycles \<Rightarrow> NetworkLink" where
  "NetworkLink_new lid latency = \<lparr>nl_id = lid, nl_latency = latency, nl_linkBuffer = flitBuffer_new\<rparr>"

text \<open>A link moves one flit from its source queue, a buffer of the unit that feeds it. The last component is the
  cycle its consumer is woken up in, if any.\<close>

definition nl_wakeup ::
    "cycles \<Rightarrow> flitBuffer \<Rightarrow> NetworkLink \<Rightarrow> (flitBuffer \<times> NetworkLink \<times> cycles option) result" where
  "nl_wakeup curCycle link_srcQueue l =
     (if fb_isReady curCycle link_srcQueue
      then bindR (getTopFlit link_srcQueue) (\<lambda>(q, t_flit).
           Inr (q, l\<lparr>nl_linkBuffer := fb_insert (t_flit\<lparr>f_time := curCycle + nl_latency l\<rparr>) (nl_linkBuffer l)\<rparr>,
                Some (curCycle + nl_latency l)))
      else Inr (link_srcQueue, l, None))"

definition nl_isReady :: "cycles \<Rightarrow> NetworkLink \<Rightarrow> bool" where
  "nl_isReady curTime l \<longleftrightarrow> fb_isReady curTime (nl_linkBuffer l)"

definition consumeLink :: "NetworkLink \<Rightarrow> (NetworkLink \<times> flit) result" where
  "consumeLink l = bindR (getTopFlit (nl_linkBuffer l)) (\<lambda>(b, f). Inr (l\<lparr>nl_linkBuffer := b\<rparr>, f))"

section \<open>Input ports\<close>

record InputUnit =
  iu_id :: int
  iu_direction :: PortDirection
  iu_vc_per_vnet :: int
  iu_in_link :: nat
  iu_credit_link :: nat
  iu_creditQueue :: flitBuffer
  iu_virtualChannels :: "VirtualChannel list"

definition InputUnit_new :: "int \<Rightarrow> PortDirection \<Rightarrow> GarnetNetwork \<Rightarrow> nat \<Rightarrow> nat \<Rightarrow> InputUnit" where
  "InputUnit_new iid direction g in_link credit_link =
     \<lparr>iu_id = iid, iu_direction = direction, iu_vc_per_vnet = g_vcs_per_vnet g, iu_in_link = in_link,
      iu_credit_link = credit_link, iu_creditQueue = flitBuffer_new,
      iu_virtualChannels = replicate (nat (g_virtual_networks g * g_vcs_per_vnet g)) VirtualChannel_new\<rparr>"

definition set_vc_idle :: "int \<Rightarrow> cycles \<Rightarrow> InputUnit \<Rightarrow> InputUnit result" where
  "set_vc_idle vc curTime iu =
     bindR (vec_modify vc (\<lambda>c. Inr (set_idle curTime c)) (iu_virtualChannels iu)) (\<lambda>vcs.
       Inr (iu\<lparr>iu_virtualChannels := vcs\<rparr>))"

definition grant_outvc :: "int \<Rightarrow> int \<Rightarrow> InputUnit \<Rightarrow> InputUnit result" where
  "grant_outvc vc outvc iu =
     bindR (vec_modify vc (\<lambda>c. Inr (c\<lparr>vc_output_vc := outvc\<rparr>)) (iu_virtualChannels iu)) (\<lambda>vcs.
       Inr (iu\<lparr>iu_virtualChannels := vcs\<rparr>))"

definition iu_get_outport :: "int \<Rightarrow> InputUnit \<Rightarrow> int result" where
  "iu_get_outport invc iu = bindR (vec_at (iu_virtualChannels iu) invc) (\<lambda>c. Inr (vc_output_port c))"

definition iu_get_outvc :: "int \<Rightarrow> InputUnit \<Rightarrow> int result" where
  "iu_get_outvc invc iu = bindR (vec_at (iu_virtualChannels iu) invc) (\<lambda>c. Inr (vc_output_vc c))"

definition iu_get_enqueue_time :: "int \<Rightarrow> InputUnit \<Rightarrow> cycles result" where
  "iu_get_enqueue_time invc iu = bindR (vec_at (iu_virtualChannels iu) invc) (\<lambda>c. Inr (vc_enqueue_time c))"

definition iu_need_stage :: "int \<Rightarrow> flit_stage \<Rightarrow> cycles \<Rightarrow> InputUnit \<Rightarrow> bool result" where
  "iu_need_stage vc stage time iu = bindR (vec_at (iu_virtualChannels iu) vc) (need_stage stage time)"

definition iu_isReady :: "int \<Rightarrow> cycles \<Rightarrow> InputUnit \<Rightarrow> bool result" where
  "iu_isReady invc curTime iu =
     bindR (vec_at (iu_virtualChannels iu) invc) (\<lambda>c. Inr (fb_isReady curTime (vc_inputBuffer c)))"

definition iu_getTopFlit :: "int \<Rightarrow> InputUnit \<Rightarrow> (InputUnit \<times> flit) result" where
  "iu_getTopFlit vc iu =
     bindR (vec_at (iu_virtualChannels iu) vc) (\<lambda>c.
     bindR (vc_getTopFlit c) (\<lambda>(c1, f).
     bindR (vec_put vc c1 (iu_virtualChannels iu)) (\<lambda>vcs. Inr (iu\<lparr>iu_virtualChannels := vcs\<rparr>, f))))"

text \<open>Reading the link. The code enters the flit into the buffer of its channel and then sets the flit's stage in
  place; the stage has no part in the order of the buffer, so it is set first here.\<close>

definition iu_wakeup ::
    "(RouteInfo \<Rightarrow> int \<Rightarrow> PortDirection \<Rightarrow> int result) \<Rightarrow> cycles \<Rightarrow> cycles \<Rightarrow> NetworkLink \<Rightarrow> InputUnit
      \<Rightarrow> (NetworkLink \<times> InputUnit \<times> Wakeup list) result" where
  "iu_wakeup route_compute pipe_stages curCycle in_link iu =
     (if nl_isReady curCycle in_link
      then bindR (consumeLink in_link) (\<lambda>(l1, f0).
           let vc = f_vc f0; t_flit = increment_hops f0 in
           bindR (vec_at (iu_virtualChannels iu) vc) (\<lambda>c.
           bindR (if f_type t_flit = HEAD \<or> f_type t_flit = HEAD_TAIL
                  then bindR (assertR (fst (vc_state c) = IDLE)) (\<lambda>_.
                       bindR (route_compute (f_route t_flit) (iu_id iu) (iu_direction iu)) (\<lambda>outport.
                         Inr ((set_active curCycle c)\<lparr>vc_output_port := outport\<rparr>)))
                  else bindR (assertR (fst (vc_state c) = ACTIVE)) (\<lambda>_. Inr c)) (\<lambda>c1.
           bindR (if pipe_stages = 1 then Inr (curCycle, [])
                  else bindR (assertR (pipe_stages > 1)) (\<lambda>_.
                         Inr (curCycle + (pipe_stages - 1), [WakeConsumer (curCycle + (pipe_stages - 1))])))
             (\<lambda>(time, wakeups).
           bindR (vec_put vc (insertFlit (advance_stage STAGE_SA time t_flit) c1) (iu_virtualChannels iu)) (\<lambda>vcs.
             Inr (l1, iu\<lparr>iu_virtualChannels := vcs\<rparr>, wakeups))))))
      else Inr (in_link, iu, []))"

definition iu_increment_credit :: "int \<Rightarrow> bool \<Rightarrow> cycles \<Rightarrow> InputUnit \<Rightarrow> InputUnit \<times> Wakeup list" where
  "iu_increment_credit in_vc free_signal curTime iu =
     (iu\<lparr>iu_creditQueue := fb_insert (Credit_new in_vc free_signal curTime) (iu_creditQueue iu)\<rparr>,
      [WakeLink (iu_credit_link iu) (curTime + 1)])"

section \<open>Output ports\<close>

record OutputUnit =
  ou_id :: int
  ou_direction :: PortDirection
  ou_vc_per_vnet :: int
  ou_out_link :: nat
  ou_credit_link :: nat
  ou_outBuffer :: flitBuffer
  ou_outVcState :: "OutVcState list"

fun new_states :: "GarnetNetwork \<Rightarrow> int list \<Rightarrow> OutVcState list result" where
  "new_states g [] = Inr []"
| "new_states g (i # is) = bindR (OutVcState_new g i) (\<lambda>s. bindR (new_states g is) (\<lambda>ss. Inr (s # ss)))"

definition OutputUnit_new :: "int \<Rightarrow> PortDirection \<Rightarrow> GarnetNetwork \<Rightarrow> nat \<Rightarrow> nat \<Rightarrow> OutputUnit result" where
  "OutputUnit_new oid direction g out_link credit_link =
     bindR (new_states g [0 .. g_virtual_networks g * g_vcs_per_vnet g - 1]) (\<lambda>states.
       Inr \<lparr>ou_id = oid, ou_direction = direction, ou_vc_per_vnet = g_vcs_per_vnet g, ou_out_link = out_link,
            ou_credit_link = credit_link, ou_outBuffer = flitBuffer_new, ou_outVcState = states\<rparr>)"

definition ou_decrement_credit :: "int \<Rightarrow> OutputUnit \<Rightarrow> OutputUnit result" where
  "ou_decrement_credit out_vc ou =
     bindR (vec_modify out_vc ovs_decrement_credit (ou_outVcState ou)) (\<lambda>ss. Inr (ou\<lparr>ou_outVcState := ss\<rparr>))"

definition ou_increment_credit :: "int \<Rightarrow> OutputUnit \<Rightarrow> OutputUnit result" where
  "ou_increment_credit out_vc ou =
     bindR (vec_modify out_vc ovs_increment_credit (ou_outVcState ou)) (\<lambda>ss. Inr (ou\<lparr>ou_outVcState := ss\<rparr>))"

definition ou_has_credit :: "cycles \<Rightarrow> int \<Rightarrow> OutputUnit \<Rightarrow> bool result" where
  "ou_has_credit curCycle out_vc ou =
     bindR (vec_at (ou_outVcState ou) out_vc) (\<lambda>s.
     bindR (assertR (isInState ACTIVE curCycle s)) (\<lambda>_. Inr (ovs_has_credit s)))"

definition is_vc_idle :: "int \<Rightarrow> cycles \<Rightarrow> OutputUnit \<Rightarrow> bool result" where
  "is_vc_idle vc curTime ou = bindR (vec_at (ou_outVcState ou) vc) (\<lambda>s. Inr (isInState IDLE curTime s))"

text \<open>The loop over the channels of a virtual network that ends at the first idle one.\<close>

fun first_idle :: "cycles \<Rightarrow> OutputUnit \<Rightarrow> int list \<Rightarrow> int option result" where
  "first_idle curCycle ou [] = Inr None"
| "first_idle curCycle ou (vc # vcs) =
     bindR (is_vc_idle vc curCycle ou) (\<lambda>b. if b then Inr (Some vc) else first_idle curCycle ou vcs)"

definition vnet_vcs :: "OutputUnit \<Rightarrow> int \<Rightarrow> int list" where
  "vnet_vcs ou vnet = (let vc_base = vnet * ou_vc_per_vnet ou in [vc_base .. vc_base + ou_vc_per_vnet ou - 1])"

definition has_free_vc :: "cycles \<Rightarrow> int \<Rightarrow> OutputUnit \<Rightarrow> bool result" where
  "has_free_vc curCycle vnet ou =
     bindR (first_idle curCycle ou (vnet_vcs ou vnet)) (\<lambda>r. Inr (r \<noteq> None))"

definition set_vc_state :: "VC_state_type \<Rightarrow> int \<Rightarrow> cycles \<Rightarrow> OutputUnit \<Rightarrow> OutputUnit result" where
  "set_vc_state state vc curTime ou =
     bindR (vec_modify vc (\<lambda>s. Inr (ovs_setState state curTime s)) (ou_outVcState ou)) (\<lambda>ss.
       Inr (ou\<lparr>ou_outVcState := ss\<rparr>))"

definition select_free_vc :: "cycles \<Rightarrow> int \<Rightarrow> OutputUnit \<Rightarrow> (OutputUnit \<times> int) result" where
  "select_free_vc curCycle vnet ou =
     bindR (first_idle curCycle ou (vnet_vcs ou vnet)) (\<lambda>r.
       case r of
         None \<Rightarrow> Inr (ou, - 1)
       | Some vc \<Rightarrow> bindR (set_vc_state ACTIVE vc curCycle ou) (\<lambda>ou1. Inr (ou1, vc)))"

definition ou_wakeup :: "cycles \<Rightarrow> NetworkLink \<Rightarrow> OutputUnit \<Rightarrow> (NetworkLink \<times> OutputUnit) result" where
  "ou_wakeup curCycle credit_link ou =
     (if nl_isReady curCycle credit_link
      then bindR (consumeLink credit_link) (\<lambda>(l1, t_credit).
           bindR (ou_increment_credit (f_vc t_credit) ou) (\<lambda>ou1.
             if f_is_free_signal t_credit
             then bindR (set_vc_state IDLE (f_vc t_credit) curCycle ou1) (\<lambda>ou2. Inr (l1, ou2))
             else Inr (l1, ou1)))
      else Inr (credit_link, ou))"

definition ou_insert_flit :: "cycles \<Rightarrow> flit \<Rightarrow> OutputUnit \<Rightarrow> OutputUnit \<times> Wakeup list" where
  "ou_insert_flit curCycle t_flit ou =
     (ou\<lparr>ou_outBuffer := fb_insert t_flit (ou_outBuffer ou)\<rparr>, [WakeLink (ou_out_link ou) (curCycle + 1)])"

text \<open>A network with one request network and one response network of two channels each, for examples.\<close>

definition demo_net :: GarnetNetwork where
  "demo_net = \<lparr>g_virtual_networks = 2, g_vcs_per_vnet = 2, g_vnet_type = vnet_types [''request'', ''response''],
     g_ordered = [False, False], g_buffers_per_data_vc = 4, g_buffers_per_ctrl_vc = 1, g_ni_flit_size = 16,
     g_num_rows = 1, g_num_cols = 2, g_routing_algorithm = TABLE\<rparr>"

end
