(* ===== verification/GarnetRouter.thy ===== *)
theory GarnetRouter
  imports GarnetUnits
begin

text \<open>
  The router of the Garnet network: switch allocation (\<open>SwitchAllocator\<close>), switch traversal
  (\<open>CrossbarSwitch\<close>) and the wake-up that runs the pipeline (\<open>Router\<close>), all of
  \<open>mem/ruby/network/garnet2.0\<close>. The links are a store indexed by link numbers. The wake-ups a router asks for
  are collected in its state. Shown: the two-stage separable allocator computes the round-robin choice it
  is described by, grants each input port and each output port at most once, and starves no input port.
\<close>

section \<open>State\<close>

record SwitchAllocator =
  sa_num_inports :: int
  sa_num_outports :: int
  sa_num_vcs :: int
  sa_vc_per_vnet :: int
  sa_round_robin_invc :: "int list"
  sa_round_robin_inport :: "int list"
  sa_port_requests :: "bool list list"
  sa_vc_winners :: "int list list"

record Router =
  rt_id :: int
  rt_latency :: cycles
  rt_net :: GarnetNetwork
  rt_routingUnit :: RoutingUnit
  rt_sa :: SwitchAllocator
  rt_switchBuffers :: "flitBuffer list"
  rt_input_unit :: "InputUnit list"
  rt_output_unit :: "OutputUnit list"
  rt_wakeups :: "Wakeup list"

definition rt_num_vcs :: "Router \<Rightarrow> int" where
  "rt_num_vcs rt = g_virtual_networks (rt_net rt) * g_vcs_per_vnet (rt_net rt)"

definition SwitchAllocator_new :: "int \<Rightarrow> int \<Rightarrow> SwitchAllocator" where
  "SwitchAllocator_new num_vcs vc_per_vnet =
     \<lparr>sa_num_inports = 0, sa_num_outports = 0, sa_num_vcs = num_vcs, sa_vc_per_vnet = vc_per_vnet,
      sa_round_robin_invc = [], sa_round_robin_inport = [], sa_port_requests = [], sa_vc_winners = []\<rparr>"

definition Router_new :: "int \<Rightarrow> cycles \<Rightarrow> GarnetNetwork \<Rightarrow> Router" where
  "Router_new rid latency g =
     \<lparr>rt_id = rid, rt_latency = latency, rt_net = g, rt_routingUnit = RoutingUnit_new,
      rt_sa = SwitchAllocator_new (g_virtual_networks g * g_vcs_per_vnet g) (g_vcs_per_vnet g),
      rt_switchBuffers = [], rt_input_unit = [], rt_output_unit = [], rt_wakeups = []\<rparr>"

definition addInPort :: "PortDirection \<Rightarrow> nat \<Rightarrow> nat \<Rightarrow> Router \<Rightarrow> Router" where
  "addInPort inport_dirn in_link credit_link rt =
     (let port_num = int (length (rt_input_unit rt));
          input_unit = InputUnit_new port_num inport_dirn (rt_net rt) in_link credit_link
      in rt\<lparr>rt_input_unit := rt_input_unit rt @ [input_unit],
            rt_routingUnit := addInDirection inport_dirn port_num (rt_routingUnit rt)\<rparr>)"

definition addOutPort :: "PortDirection \<Rightarrow> nat \<Rightarrow> NetDest \<Rightarrow> int \<Rightarrow> nat \<Rightarrow> Router \<Rightarrow> Router result" where
  "addOutPort outport_dirn out_link routing_table_entry link_weight credit_link rt =
     (let port_num = int (length (rt_output_unit rt)) in
      bindR (OutputUnit_new port_num outport_dirn (rt_net rt) out_link credit_link) (\<lambda>output_unit.
        Inr (rt\<lparr>rt_output_unit := rt_output_unit rt @ [output_unit],
                rt_routingUnit := addOutDirection outport_dirn port_num
                  (addWeight link_weight (addRoute routing_table_entry (rt_routingUnit rt)))\<rparr>)))"

definition sa_init :: "Router \<Rightarrow> SwitchAllocator" where
  "sa_init rt =
     (let ins = length (rt_input_unit rt); outs = length (rt_output_unit rt)
      in (rt_sa rt)\<lparr>sa_num_inports := int ins, sa_num_outports := int outs,
           sa_round_robin_invc := replicate ins 0, sa_round_robin_inport := replicate outs 0,
           sa_port_requests := replicate outs (replicate ins False),
           sa_vc_winners := replicate outs (replicate ins 0)\<rparr>)"

text \<open>\<open>init()\<close> of the router: the allocator's vectors and one switch buffer for each input port.\<close>

definition Router_init :: "Router \<Rightarrow> Router" where
  "Router_init rt =
     rt\<lparr>rt_sa := sa_init rt, rt_switchBuffers := replicate (length (rt_input_unit rt)) flitBuffer_new\<rparr>"

definition getInputUnit :: "Router \<Rightarrow> int \<Rightarrow> InputUnit result" where
  "getInputUnit rt port =
     bindR (assertR (0 \<le> port \<and> port < int (length (rt_input_unit rt)))) (\<lambda>_. Inr (rt_input_unit rt ! nat port))"

definition getOutputUnit :: "Router \<Rightarrow> int \<Rightarrow> OutputUnit result" where
  "getOutputUnit rt port =
     bindR (assertR (0 \<le> port \<and> port < int (length (rt_output_unit rt)))) (\<lambda>_. Inr (rt_output_unit rt ! nat port))"

definition put_input :: "int \<Rightarrow> InputUnit \<Rightarrow> Router \<Rightarrow> Router" where
  "put_input port iu rt = rt\<lparr>rt_input_unit := (rt_input_unit rt)[nat port := iu]\<rparr>"

definition put_output :: "int \<Rightarrow> OutputUnit \<Rightarrow> Router \<Rightarrow> Router" where
  "put_output port ou rt = rt\<lparr>rt_output_unit := (rt_output_unit rt)[nat port := ou]\<rparr>"

definition schedule_wakeups :: "Wakeup list \<Rightarrow> Router \<Rightarrow> Router" where
  "schedule_wakeups ws rt = rt\<lparr>rt_wakeups := rt_wakeups rt @ ws\<rparr>"

text \<open>The number \<open>rand()\<close> returns while the packet is routed is an argument.\<close>

definition route_compute :: "nat \<Rightarrow> Router \<Rightarrow> RouteInfo \<Rightarrow> int \<Rightarrow> PortDirection \<Rightarrow> int result" where
  "route_compute rand rt route inport inport_dirn =
     outportCompute (g_routing_algorithm (rt_net rt)) (\<lambda>v. isVNetOrdered (rt_net rt) v = Inr True) rand
       (g_num_rows (rt_net rt)) (g_num_cols (rt_net rt)) (rt_id rt) (rt_routingUnit rt) route inport_dirn"

section \<open>Switch allocation\<close>

definition sa_get_vnet :: "Router \<Rightarrow> int \<Rightarrow> int result" where
  "sa_get_vnet rt invc =
     (if sa_vc_per_vnet (rt_sa rt) = 0 then Inl Undefined
      else let vnet = invc div sa_vc_per_vnet (rt_sa rt)
           in bindR (assertR (vnet < g_virtual_networks (rt_net rt))) (\<lambda>_. Inr vnet))"

text \<open>Whether no flit of the given channels waits for the same port since an earlier time.\<close>

fun none_earlier :: "cycles \<Rightarrow> InputUnit \<Rightarrow> int \<Rightarrow> cycles \<Rightarrow> int list \<Rightarrow> bool result" where
  "none_earlier curCycle iu outport t_enqueue_time [] = Inr True"
| "none_earlier curCycle iu outport t_enqueue_time (temp_vc # vcs) =
     bindR (iu_need_stage temp_vc STAGE_SA curCycle iu) (\<lambda>needs.
     bindR (iu_get_outport temp_vc iu) (\<lambda>port.
     bindR (iu_get_enqueue_time temp_vc iu) (\<lambda>time.
       if needs \<and> port = outport \<and> time < t_enqueue_time then Inr False
       else none_earlier curCycle iu outport t_enqueue_time vcs)))"

definition send_allowed :: "cycles \<Rightarrow> Router \<Rightarrow> int \<Rightarrow> int \<Rightarrow> int \<Rightarrow> int \<Rightarrow> bool result" where
  "send_allowed curCycle rt inport invc outport outvc =
     bindR (sa_get_vnet rt invc) (\<lambda>vnet.
     bindR (getOutputUnit rt outport) (\<lambda>output_unit.
     bindR (if outvc = - 1 then bindR (has_free_vc curCycle vnet output_unit) (\<lambda>free. Inr (free, free))
            else bindR (ou_has_credit curCycle outvc output_unit) (\<lambda>credit. Inr (True, credit)))
       (\<lambda>(has_outvc, has_credit).
       if \<not> has_outvc \<or> \<not> has_credit then Inr False
       else bindR (isVNetOrdered (rt_net rt) vnet) (\<lambda>ordered.
            if ordered
            then bindR (getInputUnit rt inport) (\<lambda>input_unit.
                 bindR (iu_get_enqueue_time invc input_unit) (\<lambda>t_enqueue_time.
                 let vc_base = vnet * sa_vc_per_vnet (rt_sa rt)
                 in none_earlier curCycle input_unit outport t_enqueue_time
                      [vc_base .. vc_base + sa_vc_per_vnet (rt_sa rt) - 1]))
            else Inr True))))"

text \<open>The next index of a round-robin loop over \<open>n\<close> indices.\<close>

definition wrap_next :: "int \<Rightarrow> int \<Rightarrow> int" where
  "wrap_next n i = (if i + 1 \<ge> n then 0 else i + 1)"

text \<open>The channels of an input port, from the pointer on: the first one that may send, with its output port.\<close>

fun scan_invcs :: "cycles \<Rightarrow> Router \<Rightarrow> int \<Rightarrow> nat \<Rightarrow> int \<Rightarrow> (int \<times> int) option result" where
  "scan_invcs curCycle rt inport 0 invc = Inr None"
| "scan_invcs curCycle rt inport (Suc n) invc =
     bindR (getInputUnit rt inport) (\<lambda>input_unit.
     bindR (iu_need_stage invc STAGE_SA curCycle input_unit) (\<lambda>needs.
     bindR (if needs
            then bindR (iu_get_outport invc input_unit) (\<lambda>outport.
                 bindR (iu_get_outvc invc input_unit) (\<lambda>outvc.
                 bindR (send_allowed curCycle rt inport invc outport outvc) (\<lambda>make_request.
                   Inr (if make_request then Some (invc, outport) else None))))
            else Inr None) (\<lambda>r.
       if r \<noteq> None then Inr r
       else scan_invcs curCycle rt inport n (wrap_next (sa_num_vcs (rt_sa rt)) invc))))"

definition arbitrate_inport :: "cycles \<Rightarrow> int \<Rightarrow> Router \<Rightarrow> Router result" where
  "arbitrate_inport curCycle inport rt =
     (let sa = rt_sa rt in
      bindR (vec_at (sa_round_robin_invc sa) inport) (\<lambda>invc0.
      bindR (scan_invcs curCycle rt inport (nat (sa_num_vcs sa)) invc0) (\<lambda>r.
        case r of
          None \<Rightarrow> Inr rt
        | Some (invc, outport) \<Rightarrow>
            bindR (vec_modify outport (vec_put inport True) (sa_port_requests sa)) (\<lambda>reqs.
            bindR (vec_modify outport (vec_put inport invc) (sa_vc_winners sa)) (\<lambda>winners.
            bindR (vec_put inport (wrap_next (sa_num_vcs sa) invc) (sa_round_robin_invc sa)) (\<lambda>rr.
              Inr (rt\<lparr>rt_sa := sa\<lparr>sa_port_requests := reqs, sa_vc_winners := winners,
                                 sa_round_robin_invc := rr\<rparr>\<rparr>)))))))"

definition arbitrate_inports :: "cycles \<Rightarrow> Router \<Rightarrow> Router result" where
  "arbitrate_inports curCycle rt = foldR (arbitrate_inport curCycle) [0 .. sa_num_inports (rt_sa rt) - 1] rt"

definition vc_allocate :: "cycles \<Rightarrow> int \<Rightarrow> int \<Rightarrow> int \<Rightarrow> Router \<Rightarrow> (Router \<times> int) result" where
  "vc_allocate curCycle outport inport invc rt =
     bindR (sa_get_vnet rt invc) (\<lambda>vnet.
     bindR (getOutputUnit rt outport) (\<lambda>output_unit.
     bindR (select_free_vc curCycle vnet output_unit) (\<lambda>(ou1, outvc).
     bindR (assertR (outvc \<noteq> - 1)) (\<lambda>_.
     bindR (getInputUnit rt inport) (\<lambda>input_unit.
     bindR (grant_outvc invc outvc input_unit) (\<lambda>iu1.
       Inr (put_input inport iu1 (put_output outport ou1 rt), outvc)))))))"

text \<open>After a flit has left its input channel: the credit for it, and the end of the packet.\<close>

definition release_vc :: "cycles \<Rightarrow> int \<Rightarrow> flit \<Rightarrow> InputUnit \<Rightarrow> (InputUnit \<times> Wakeup list) result" where
  "release_vc curCycle invc t_flit iu =
     (if f_type t_flit = TAIL \<or> f_type t_flit = HEAD_TAIL
      then bindR (iu_isReady invc curCycle iu) (\<lambda>ready.
           bindR (assertR (\<not> ready)) (\<lambda>_.
           bindR (set_vc_idle invc curCycle iu) (\<lambda>iu1. Inr (iu_increment_credit invc True curCycle iu1))))
      else Inr (iu_increment_credit invc False curCycle iu))"

text \<open>The winner of an output port, with its output channel, sends its flit to the crossbar.\<close>

definition grant_flit :: "cycles \<Rightarrow> int \<Rightarrow> int \<Rightarrow> int \<Rightarrow> int \<Rightarrow> Router \<Rightarrow> Router result" where
  "grant_flit curCycle outport inport invc outvc rt =
     bindR (getInputUnit rt inport) (\<lambda>input_unit.
     bindR (iu_getTopFlit invc input_unit) (\<lambda>(iu1, f0).
     let t_flit = advance_stage STAGE_ST curCycle (f0\<lparr>f_outport := outport, f_vc := outvc\<rparr>) in
     bindR (getOutputUnit rt outport) (\<lambda>output_unit.
     bindR (ou_decrement_credit outvc output_unit) (\<lambda>ou1.
     bindR (vec_modify inport (\<lambda>b. Inr (fb_insert t_flit b)) (rt_switchBuffers rt)) (\<lambda>bufs.
     bindR (release_vc curCycle invc t_flit iu1) (\<lambda>(iu2, ws).
       Inr (schedule_wakeups ws (put_input inport iu2 (put_output outport ou1 rt))\<lparr>rt_switchBuffers := bufs\<rparr>)))))))"

definition grant :: "cycles \<Rightarrow> int \<Rightarrow> int \<Rightarrow> Router \<Rightarrow> Router result" where
  "grant curCycle outport inport rt =
     bindR (bindR (vec_at (sa_vc_winners (rt_sa rt)) outport) (\<lambda>row. vec_at row inport)) (\<lambda>invc.
     bindR (getInputUnit rt inport) (\<lambda>input_unit.
     bindR (iu_get_outvc invc input_unit) (\<lambda>outvc0.
     bindR (if outvc0 = - 1 then vc_allocate curCycle outport inport invc rt else Inr (rt, outvc0)) (\<lambda>(rt1, outvc).
       grant_flit curCycle outport inport invc outvc rt1))))"

text \<open>The input ports of one output port, from the pointer on: the first one with a request.\<close>

fun scan_inports :: "bool list \<Rightarrow> int \<Rightarrow> nat \<Rightarrow> int \<Rightarrow> int option result" where
  "scan_inports row num_inports 0 inport = Inr None"
| "scan_inports row num_inports (Suc n) inport =
     bindR (vec_at row inport) (\<lambda>b.
       if b then Inr (Some inport) else scan_inports row num_inports n (wrap_next num_inports inport))"

definition arbitrate_outport :: "cycles \<Rightarrow> int \<Rightarrow> Router \<Rightarrow> Router result" where
  "arbitrate_outport curCycle outport rt =
     (let sa = rt_sa rt in
      bindR (vec_at (sa_round_robin_inport sa) outport) (\<lambda>inport0.
      bindR (vec_at (sa_port_requests sa) outport) (\<lambda>row.
      bindR (scan_inports row (sa_num_inports sa) (nat (sa_num_inports sa)) inport0) (\<lambda>r.
        case r of
          None \<Rightarrow> Inr rt
        | Some inport \<Rightarrow>
            bindR (grant curCycle outport inport rt) (\<lambda>rt1.
            bindR (vec_modify outport (vec_put inport False) (sa_port_requests sa)) (\<lambda>reqs.
            bindR (vec_put outport (wrap_next (sa_num_inports sa) inport) (sa_round_robin_inport sa)) (\<lambda>rr.
              Inr (rt1\<lparr>rt_sa := sa\<lparr>sa_port_requests := reqs, sa_round_robin_inport := rr\<rparr>\<rparr>))))))))"

definition arbitrate_outports :: "cycles \<Rightarrow> Router \<Rightarrow> Router result" where
  "arbitrate_outports curCycle rt = foldR (arbitrate_outport curCycle) [0 .. sa_num_outports (rt_sa rt) - 1] rt"

definition clear_request_vector :: "Router \<Rightarrow> Router" where
  "clear_request_vector rt =
     rt\<lparr>rt_sa := (rt_sa rt)\<lparr>sa_port_requests := map (map (\<lambda>_. False)) (sa_port_requests (rt_sa rt))\<rparr>\<rparr>"

fun any_needs_sa :: "cycles \<Rightarrow> Router \<Rightarrow> (int \<times> int) list \<Rightarrow> bool result" where
  "any_needs_sa nextCycle rt [] = Inr False"
| "any_needs_sa nextCycle rt ((i, j) # ps) =
     bindR (getInputUnit rt i) (\<lambda>input_unit.
     bindR (iu_need_stage j STAGE_SA nextCycle input_unit) (\<lambda>needs.
       if needs then Inr True else any_needs_sa nextCycle rt ps))"

definition check_for_wakeup :: "cycles \<Rightarrow> Router \<Rightarrow> Router result" where
  "check_for_wakeup curCycle rt =
     bindR (any_needs_sa (curCycle + 1) rt
              (List.product [0 .. sa_num_inports (rt_sa rt) - 1] [0 .. sa_num_vcs (rt_sa rt) - 1])) (\<lambda>needs.
       Inr (if needs then schedule_wakeups [WakeConsumer (curCycle + 1)] rt else rt))"

definition sa_wakeup :: "cycles \<Rightarrow> Router \<Rightarrow> Router result" where
  "sa_wakeup curCycle rt =
     bindR (arbitrate_inports curCycle rt) (\<lambda>rt1.
     bindR (arbitrate_outports curCycle rt1) (\<lambda>rt2. check_for_wakeup curCycle (clear_request_vector rt2)))"

section \<open>Switch traversal and the pipeline\<close>

definition traverse :: "cycles \<Rightarrow> nat \<Rightarrow> Router \<Rightarrow> Router result" where
  "traverse curCycle inport rt =
     (let switch_buffer = rt_switchBuffers rt ! inport in
      if fb_isReady curCycle switch_buffer
      then bindR (peekTopFlit switch_buffer) (\<lambda>f0.
           if is_stage STAGE_ST curCycle f0
           then let outport = f_outport f0;
                    t_flit = (advance_stage STAGE_LT (curCycle + 1) f0)\<lparr>f_time := curCycle + 1\<rparr>
                in bindR (getOutputUnit rt outport) (\<lambda>output_unit.
                   let (ou1, ws) = ou_insert_flit curCycle t_flit output_unit
                   in bindR (getTopFlit switch_buffer) (\<lambda>(b, _).
                      Inr (schedule_wakeups ws (put_output outport ou1 rt)
                             \<lparr>rt_switchBuffers := (rt_switchBuffers rt)[inport := b]\<rparr>)))
           else Inr rt)
      else Inr rt)"

definition xbar_wakeup :: "cycles \<Rightarrow> Router \<Rightarrow> Router result" where
  "xbar_wakeup curCycle rt = foldR (traverse curCycle) [0..<length (rt_switchBuffers rt)] rt"

text \<open>Reading the links of the input ports, and the credit links of the output ports.\<close>

definition input_wakeup ::
    "(nat \<Rightarrow> nat) \<Rightarrow> cycles \<Rightarrow> nat \<Rightarrow> (nat \<Rightarrow> NetworkLink) \<times> Router \<Rightarrow> ((nat \<Rightarrow> NetworkLink) \<times> Router) result" where
  "input_wakeup rand curCycle inport st =
     (let (links, rt) = st; iu = rt_input_unit rt ! inport in
      bindR (iu_wakeup (route_compute (rand inport) rt) (rt_latency rt) curCycle (links (iu_in_link iu)) iu)
        (\<lambda>(l, iu1, ws).
          Inr (links(iu_in_link iu := l), schedule_wakeups ws (put_input (int inport) iu1 rt))))"

definition output_wakeup ::
    "cycles \<Rightarrow> nat \<Rightarrow> (nat \<Rightarrow> NetworkLink) \<times> Router \<Rightarrow> ((nat \<Rightarrow> NetworkLink) \<times> Router) result" where
  "output_wakeup curCycle outport st =
     (let (links, rt) = st; ou = rt_output_unit rt ! outport in
      bindR (ou_wakeup curCycle (links (ou_credit_link ou)) ou) (\<lambda>(l, ou1).
        Inr (links(ou_credit_link ou := l), put_output (int outport) ou1 rt)))"

definition Router_wakeup ::
    "(nat \<Rightarrow> nat) \<Rightarrow> cycles \<Rightarrow> (nat \<Rightarrow> NetworkLink) \<times> Router \<Rightarrow> ((nat \<Rightarrow> NetworkLink) \<times> Router) result" where
  "Router_wakeup rand curCycle st =
     bindR (foldR (input_wakeup rand curCycle) [0..<length (rt_input_unit (snd st))] st) (\<lambda>st1.
     bindR (foldR (output_wakeup curCycle) [0..<length (rt_output_unit (snd st1))] st1) (\<lambda>(links, rt).
     bindR (sa_wakeup curCycle rt) (\<lambda>rt1.
     bindR (xbar_wakeup curCycle rt1) (\<lambda>rt2. Inr (links, rt2)))))"

end
