(* ===== verification/CreditFlow.thy ===== *)
theory CreditFlow
  imports GarnetRouter
begin

text \<open>
  Credit-based flow control over one link of the Garnet network: an output port (\<open>OutputUnit\<close>), the link, the
  input port it leads to (\<open>InputUnit\<close>) and the credit link back. The operations of the two ports and of the links
  are those of the model of the code; they are run in any order and any number of times, so every timing of the
  two routers and every number of cycles between two operations is covered. Shown: buffer slots are conserved,
  no assertion of the code fails and packets stay in order and apart.
\<close>

section \<open>The channel\<close>

record FlitPacket =
  pk_vnet :: int
  pk_size :: int
  pk_route :: RouteInfo
  pk_msg :: nat

text \<open>Besides the two ports and the links, the packets that are being sent: for each output channel the number of
  the next flit. It stands for the input channel of the sending router that holds the rest of the packet.\<close>

record Channel =
  ch_now :: cycles
  ch_up :: OutputUnit
  ch_link :: NetworkLink
  ch_down :: InputUnit
  ch_credit :: NetworkLink
  ch_sending :: "int \<Rightarrow> (int \<times> FlitPacket) option"

definition chan_init :: "GarnetNetwork \<Rightarrow> cycles \<Rightarrow> cycles \<Rightarrow> Channel result" where
  "chan_init g link_latency credit_latency =
     bindR (OutputUnit_new 0 ''East'' g 0 1) (\<lambda>ou.
       Inr \<lparr>ch_now = 0, ch_up = ou, ch_link = NetworkLink_new 0 link_latency,
            ch_down = InputUnit_new 0 ''West'' g 0 1, ch_credit = NetworkLink_new 1 credit_latency,
            ch_sending = (\<lambda>_. None)\<rparr>)"

text \<open>A granted flit: the switch allocator takes a credit, and the crossbar hands the flit to the output port in
  the same wake-up.\<close>

definition chan_send :: "int \<Rightarrow> int \<Rightarrow> FlitPacket \<Rightarrow> Channel \<Rightarrow> Channel result" where
  "chan_send outvc i p ch =
     (let f = flit_new i outvc (pk_vnet p) (pk_route p) (pk_size p) (pk_msg p) (ch_now ch);
          t_flit = (advance_stage STAGE_LT (ch_now ch + 1) f)\<lparr>f_time := ch_now ch + 1\<rparr>
      in bindR (ou_decrement_credit outvc (ch_up ch)) (\<lambda>ou.
         Inr (ch\<lparr>ch_up := fst (ou_insert_flit (ch_now ch) t_flit ou),
                ch_sending := (ch_sending ch)(outvc := if i + 1 < pk_size p then Some (i + 1, p) else None)\<rparr>)))"

datatype ChanOp =
    StartPacket FlitPacket   \<comment> \<open>switch allocation for the head of a packet\<close>
  | SendNext int         \<comment> \<open>switch allocation for a later flit of the packet on an output channel\<close>
  | MoveFlit             \<comment> \<open>the link wakes up\<close>
  | Arrive               \<comment> \<open>the input port wakes up\<close>
  | Drain int            \<comment> \<open>switch allocation of the receiving router for an input channel\<close>
  | MoveCredit           \<comment> \<open>the credit link wakes up\<close>
  | ReturnCredit         \<comment> \<open>the output port wakes up\<close>
  | Tick                 \<comment> \<open>the clock advances\<close>

text \<open>One operation. Each checks what the code checks before it acts and otherwise does nothing; the virtual
  network of a packet and the channel indices range over those of the network, and a packet has a flit.\<close>

fun chan_op :: "(RouteInfo \<Rightarrow> int \<Rightarrow> PortDirection \<Rightarrow> int result) \<Rightarrow> cycles \<Rightarrow> ChanOp \<Rightarrow> Channel \<Rightarrow> Channel result" where
  "chan_op rc pipe_stages (StartPacket p) ch =
     (if 0 \<le> pk_vnet p \<and> (pk_vnet p + 1) * ou_vc_per_vnet (ch_up ch) \<le> int (length (ou_outVcState (ch_up ch)))
         \<and> 1 \<le> pk_size p
      then bindR (has_free_vc (ch_now ch) (pk_vnet p) (ch_up ch)) (\<lambda>free.
             if free
             then bindR (select_free_vc (ch_now ch) (pk_vnet p) (ch_up ch)) (\<lambda>(ou, outvc).
                  bindR (assertR (outvc \<noteq> - 1)) (\<lambda>_. chan_send outvc 0 p (ch\<lparr>ch_up := ou\<rparr>)))
             else Inr ch)
      else Inr ch)"
| "chan_op rc pipe_stages (SendNext outvc) ch =
     (case ch_sending ch outvc of
        None \<Rightarrow> Inr ch
      | Some (i, p) \<Rightarrow>
          bindR (ou_has_credit (ch_now ch) outvc (ch_up ch)) (\<lambda>credit.
            if credit then chan_send outvc i p ch else Inr ch))"
| "chan_op rc pipe_stages MoveFlit ch =
     bindR (nl_wakeup (ch_now ch) (ou_outBuffer (ch_up ch)) (ch_link ch)) (\<lambda>(q, l, _).
       Inr (ch\<lparr>ch_up := (ch_up ch)\<lparr>ou_outBuffer := q\<rparr>, ch_link := l\<rparr>))"
| "chan_op rc pipe_stages Arrive ch =
     bindR (iu_wakeup rc pipe_stages (ch_now ch) (ch_link ch) (ch_down ch)) (\<lambda>(l, iu, _).
       Inr (ch\<lparr>ch_link := l, ch_down := iu\<rparr>))"
| "chan_op rc pipe_stages (Drain vc) ch =
     (if 0 \<le> vc \<and> vc < int (length (iu_virtualChannels (ch_down ch)))
      then bindR (iu_need_stage vc STAGE_SA (ch_now ch) (ch_down ch)) (\<lambda>needs.
             if needs
             then bindR (iu_getTopFlit vc (ch_down ch)) (\<lambda>(iu1, f).
                  bindR (release_vc (ch_now ch) vc f iu1) (\<lambda>(iu2, _). Inr (ch\<lparr>ch_down := iu2\<rparr>)))
             else Inr ch)
      else Inr ch)"
| "chan_op rc pipe_stages MoveCredit ch =
     bindR (nl_wakeup (ch_now ch) (iu_creditQueue (ch_down ch)) (ch_credit ch)) (\<lambda>(q, l, _).
       Inr (ch\<lparr>ch_down := (ch_down ch)\<lparr>iu_creditQueue := q\<rparr>, ch_credit := l\<rparr>))"
| "chan_op rc pipe_stages ReturnCredit ch =
     bindR (ou_wakeup (ch_now ch) (ch_credit ch) (ch_up ch)) (\<lambda>(l, ou).
       Inr (ch\<lparr>ch_credit := l, ch_up := ou\<rparr>))"
| "chan_op rc pipe_stages Tick ch = Inr (ch\<lparr>ch_now := ch_now ch + 1\<rparr>)"

section \<open>Parts of a packet\<close>

definition flit_kind :: "int \<Rightarrow> int \<Rightarrow> flit_type" where
  "flit_kind n i = (if n = 1 then HEAD_TAIL else if i = 0 then HEAD else if i = n - 1 then TAIL else BODY)"

text \<open>The flits \<open>i\<close>, ..., \<open>j - 1\<close> of a packet of \<open>n\<close> flits, later ones with later times.\<close>

definition part :: "int \<Rightarrow> int \<Rightarrow> int \<Rightarrow> flit multiset \<Rightarrow> bool" where
  "part n i j M \<longleftrightarrow> i \<le> j \<and> image_mset f_id M = mset_set {i..<j} \<and> (\<forall>f \<in># M. f_type f = flit_kind n (f_id f))
     \<and> (\<forall>f \<in># M. \<forall>g \<in># M. f_id f \<le> f_id g \<longrightarrow> f_time f \<le> f_time g)"

lemma part_empty [simp]: "part n i i {#}"
  by (simp add: part_def)

lemma part_empty_iff: "part n i i M \<longleftrightarrow> M = {#}"
  by (auto simp: part_def)

lemma part_pop:
  assumes p: "part n i j (add_mset f M)" and min: "\<And>g. g \<in># M \<Longrightarrow> fkey f \<le> fkey g"
  shows "f_id f = i" "i < j" "part n (i + 1) j M" "f_type f = flit_kind n i"
proof -
  have ids: "add_mset (f_id f) (image_mset f_id M) = mset_set {i..<j}" using p by (simp add: part_def)
  have "f_id f \<in># mset_set {i..<j}" by (simp flip: ids)
  then have mem: "f_id f \<in> {i..<j}" by simp
  show i: "f_id f = i"
  proof (rule ccontr)
    assume ne: "f_id f \<noteq> i"
    then have "i \<in># add_mset (f_id f) (image_mset f_id M)" using mem by (simp add: ids)
    then obtain g where g: "g \<in># M" "f_id g = i" using ne by auto
    have "f_time g \<le> f_time f" using p g mem by (auto simp: part_def)
    then show False using min [OF g(1)] g(2) ne mem by (auto simp: fkey_def less_eq_prod_def)
  qed
  show "i < j" using mem by auto
  have "image_mset f_id M = mset_set {i..<j} - {#i#}" using ids i by (metis add_mset_remove_trivial)
  also have "\<dots> = mset_set ({i..<j} - {i})" using mem i by (subst mset_set_Diff) auto
  also have "{i..<j} - {i} = {i + 1..<j}" by auto
  finally show "part n (i + 1) j M" using p mem by (auto simp: part_def)
  show "f_type f = flit_kind n i" using p i by (simp add: part_def)
qed

lemma part_push:
  assumes "part n i j M" "f_id f = j" "f_type f = flit_kind n j" "\<And>g. g \<in># M \<Longrightarrow> f_time g \<le> f_time f"
  shows "part n i (j + 1) (add_mset f M)"
proof -
  have "{i..<j + 1} = insert j {i..<j}" using assms(1) by (auto simp: part_def)
  moreover have "f_id g < j" if "g \<in># M" for g
  proof -
    have "image_mset f_id M = mset_set {i..<j}" using assms(1) by (simp add: part_def)
    then have "f_id g \<in># mset_set {i..<j}" using that by (metis imageI set_image_mset)
    then show ?thesis by simp
  qed
  ultimately show ?thesis using assms by (fastforce simp: part_def)
qed

lemma part_size: "part n i j M \<Longrightarrow> int (size M) = j - i"
  by (metis part_def add.commute card_atLeastLessThan_int diff_ge_0_iff_ge int_nat_eq size_image_mset size_mset_set)

section \<open>The protocol of one virtual channel\<close>

text \<open>What holds of one virtual channel: \<open>s\<close> is its state in the output port, \<open>st\<close> its state in the input port,
  \<open>snd\<close> what is left to send, \<open>B\<close>, \<open>L\<close> and \<open>Q\<close> are its flits in the input buffer, on the link and in the output
  queue, and \<open>C\<close> the free signals of its credits on their way back. Every buffer slot is a credit, is taken by a
  flit or comes back with a credit. An idle channel is empty on both sides. An active one carries one packet of
  which the flits below \<open>a\<close> have left the input buffer; it is free again only after the last one has.\<close>

definition vc_packet ::
    "cycles \<Rightarrow> cycles \<Rightarrow> VC_state_type \<times> cycles \<Rightarrow> (int \<times> FlitPacket) option \<Rightarrow> flit multiset \<Rightarrow> flit multiset
      \<Rightarrow> flit multiset \<Rightarrow> bool multiset \<Rightarrow> int \<Rightarrow> int \<Rightarrow> int \<Rightarrow> int \<Rightarrow> int \<Rightarrow> bool" where
  "vc_packet now lat st snds B L Q C n a b c d \<longleftrightarrow>
     0 \<le> a \<and> 0 < d \<and> d \<le> n \<and> part n a b B \<and> part n b c L \<and> part n c d Q
     \<and> (\<forall>f \<in># B. f_time f \<le> now) \<and> (\<forall>f \<in># L. f_time f \<le> now + lat) \<and> (\<forall>f \<in># Q. f_time f \<le> now + 1)
     \<and> (\<forall>f \<in># B. \<forall>g \<in># L. f_time f \<le> f_time g)
     \<and> (if d < n then \<exists>p. snds = Some (d, p) \<and> pk_size p = n else snds = None)
     \<and> (if b = 0 \<or> a = n then fst st = IDLE else fst st = ACTIVE \<and> snd st \<le> now)
     \<and> count C True = (if a = n then 1 else 0)"

definition vc_ok ::
    "cycles \<Rightarrow> cycles \<Rightarrow> OutVcState \<Rightarrow> VC_state_type \<times> cycles \<Rightarrow> (int \<times> FlitPacket) option \<Rightarrow> flit multiset
      \<Rightarrow> flit multiset \<Rightarrow> flit multiset \<Rightarrow> bool multiset \<Rightarrow> bool" where
  "vc_ok now lat s st snds B L Q C \<longleftrightarrow>
     0 \<le> ovs_credit_count s \<and> ovs_time s \<le> now
     \<and> ovs_credit_count s + int (size B + size L + size Q + size C) = ovs_max_credit_count s
     \<and> (case ovs_vc_state s of
          IDLE \<Rightarrow> 0 < ovs_credit_count s \<and> fst st = IDLE \<and> snds = None \<and> B = {#} \<and> L = {#} \<and> Q = {#} \<and> count C True = 0
        | ACTIVE \<Rightarrow> \<exists>n a b c d. vc_packet now lat st snds B L Q C n a b c d
        | VC_AB \<Rightarrow> False)"

lemma vc_ok_activeI:
  assumes "vc_packet now lat st snds B L Q C n a b c d" "ovs_vc_state s = ACTIVE" "0 \<le> ovs_credit_count s"
    "ovs_time s \<le> now" "ovs_credit_count s + int (size B + size L + size Q + size C) = ovs_max_credit_count s"
  shows "vc_ok now lat s st snds B L Q C"
proof -
  have "\<exists>n a b c d. vc_packet now lat st snds B L Q C n a b c d" using assms(1) by blast
  then show ?thesis using assms(2-5) by (simp add: vc_ok_def)
qed

lemma vc_ok_slots:
  assumes "vc_ok now lat s st snds B L Q C"
  shows "0 \<le> ovs_credit_count s" "ovs_time s \<le> now"
    "ovs_credit_count s + int (size B + size L + size Q + size C) = ovs_max_credit_count s"
  using assms by (simp_all add: vc_ok_def)

lemma vc_ok_start:
  assumes "vc_ok now lat s st snds B L Q C" "isInState IDLE now s" "1 \<le> pk_size p"
    "f_id f = 0" "f_type f = flit_kind (pk_size p) 0" "f_time f = now + 1"
  shows "vc_ok now lat (s\<lparr>ovs_vc_state := ACTIVE, ovs_time := now, ovs_credit_count := ovs_credit_count s - 1\<rparr>) st
     (if 0 + 1 < pk_size p then Some (0 + 1, p) else None) B L (add_mset f Q) C" "0 < ovs_credit_count s"
proof -
  have s: "0 < ovs_credit_count s" "fst st = IDLE" "B = {#}" "L = {#}" "Q = {#}" "count C True = 0"
      "ovs_credit_count s + int (size C) = ovs_max_credit_count s"
    using assms(1,2) by (auto simp: vc_ok_def isInState_def)
  have "part (pk_size p) 0 (0 + 1) {#f#}" by (rule part_push) (use assms in simp_all)
  then have "vc_packet now lat st (if 0 + 1 < pk_size p then Some (0 + 1, p) else None) B L (add_mset f Q) C
      (pk_size p) 0 0 0 1"
    using s assms(3,6) by (auto simp: vc_packet_def)
  then show "vc_ok now lat (s\<lparr>ovs_vc_state := ACTIVE, ovs_time := now, ovs_credit_count := ovs_credit_count s - 1\<rparr>) st
     (if 0 + 1 < pk_size p then Some (0 + 1, p) else None) B L (add_mset f Q) C"
    by (rule vc_ok_activeI) (use s in simp_all)
  show "0 < ovs_credit_count s" by (rule s(1))
qed

lemma vc_ok_active:
  assumes "vc_ok now lat s st snds B L Q C" "snds \<noteq> None \<or> B \<noteq> {#} \<or> L \<noteq> {#} \<or> Q \<noteq> {#} \<or> count C True > 0"
  obtains n a b c d where "ovs_vc_state s = ACTIVE" "vc_packet now lat st snds B L Q C n a b c d"
  using assms by (auto simp: vc_ok_def count_eq_zero_iff split: VC_state_type.splits)

lemma vc_ok_send:
  assumes ok: "vc_ok now lat s st (Some (i, p)) B L Q C" and cr: "0 < ovs_credit_count s"
    and f: "f_id f = i" "f_type f = flit_kind (pk_size p) i" "f_time f = now + 1"
  shows "vc_ok now lat (s\<lparr>ovs_credit_count := ovs_credit_count s - 1\<rparr>) st
     (if i + 1 < pk_size p then Some (i + 1, p) else None) B L (add_mset f Q) C" "isInState ACTIVE now s"
proof -
  obtain n a b c d where act: "ovs_vc_state s = ACTIVE" and pk: "vc_packet now lat st (Some (i, p)) B L Q C n a b c d"
    using ok by (rule vc_ok_active) simp
  have d: "d = i" "pk_size p = n" "d < n" using pk by (auto simp: vc_packet_def split: if_splits)
  have "part n c (d + 1) (add_mset f Q)"
    by (rule part_push) (use pk f d in \<open>auto simp: vc_packet_def\<close>)
  then have "vc_packet now lat st (if i + 1 < pk_size p then Some (i + 1, p) else None) B L (add_mset f Q) C n a b c (d + 1)"
    using pk d f(3) by (auto simp: vc_packet_def)
  then show "vc_ok now lat (s\<lparr>ovs_credit_count := ovs_credit_count s - 1\<rparr>) st
     (if i + 1 < pk_size p then Some (i + 1, p) else None) B L (add_mset f Q) C"
    by (rule vc_ok_activeI) (use vc_ok_slots [OF ok] cr act in simp_all)
  show "isInState ACTIVE now s" using ok act by (simp add: vc_ok_def isInState_def)
qed

lemma vc_ok_move:
  assumes ok: "vc_ok now lat s st snds B L (add_mset f Q) C" and min: "\<And>g. g \<in># Q \<Longrightarrow> fkey f \<le> fkey g"
  shows "vc_ok now lat s st snds B (add_mset (f\<lparr>f_time := now + lat\<rparr>) L) Q C"
proof -
  obtain n a b c d where act: "ovs_vc_state s = ACTIVE" and pk: "vc_packet now lat st snds B L (add_mset f Q) C n a b c d"
    using ok by (rule vc_ok_active) simp
  have Q: "part n c d (add_mset f Q)" using pk by (simp add: vc_packet_def)
  note q = part_pop [OF Q min]
  have "part n b (c + 1) (add_mset (f\<lparr>f_time := now + lat\<rparr>) L)"
    by (rule part_push) (use pk q in \<open>auto simp: vc_packet_def\<close>)
  then have "vc_packet now lat st snds B (add_mset (f\<lparr>f_time := now + lat\<rparr>) L) Q C n a b (c + 1) d"
    using pk q(3) by (auto simp: vc_packet_def intro: trans_le_add1)
  then show ?thesis by (rule vc_ok_activeI) (use vc_ok_slots [OF ok] act in simp_all)
qed


lemma vc_ok_arrive:
  assumes ok: "vc_ok now lat s st snds B (add_mset f L) Q C" and min: "\<And>g. g \<in># L \<Longrightarrow> fkey f \<le> fkey g"
    and t: "f_time f \<le> now" and h: "f_id h = f_id f" "f_type h = f_type f" "f_time h = f_time f"
  shows "vc_ok now lat s (if f_type f = HEAD \<or> f_type f = HEAD_TAIL then (ACTIVE, now) else st) snds (add_mset h B) L Q C"
    "fst st = (if f_type f = HEAD \<or> f_type f = HEAD_TAIL then IDLE else ACTIVE)"
proof -
  obtain n a b c d where act: "ovs_vc_state s = ACTIVE" and pk: "vc_packet now lat st snds B (add_mset f L) Q C n a b c d"
    using ok by (rule vc_ok_active) simp
  have L: "part n b c (add_mset f L)" using pk by (simp add: vc_packet_def)
  note q = part_pop [OF L min]
  have le: "0 \<le> a" "a \<le> b" "b < c" "c \<le> d" "d \<le> n" using pk q(2) by (auto simp: vc_packet_def part_def)
  have kind: "f_type f = HEAD \<or> f_type f = HEAD_TAIL \<longleftrightarrow> b = 0" using q(4) le by (auto simp: flit_kind_def)
  have le_f: "f_time f \<le> f_time g" if "g \<in># L" for g using min [OF that] by (auto simp: fkey_def less_eq_prod_def)
  have "part n a (b + 1) (add_mset h B)"
    by (rule part_push) (use pk q h in \<open>auto simp: vc_packet_def\<close>)
  then have "vc_packet now lat (if b = 0 then (ACTIVE, now) else st) snds (add_mset h B) L Q C n a (b + 1) c d"
    using pk q(3) le t h(3) le_f by (auto simp: vc_packet_def)
  then show "vc_ok now lat s (if f_type f = HEAD \<or> f_type f = HEAD_TAIL then (ACTIVE, now) else st) snds (add_mset h B) L Q C"
    unfolding kind by (rule vc_ok_activeI) (use vc_ok_slots [OF ok] act in simp_all)
  show "fst st = (if f_type f = HEAD \<or> f_type f = HEAD_TAIL then IDLE else ACTIVE)"
    using pk le unfolding kind by (auto simp: vc_packet_def)
qed

lemma vc_ok_drain:
  assumes ok: "vc_ok now lat s st snds (add_mset f B) L Q C" and min: "\<And>g. g \<in># B \<Longrightarrow> fkey f \<le> fkey g"
  defines "ends \<equiv> f_type f = TAIL \<or> f_type f = HEAD_TAIL"
  shows "vc_ok now lat s (if ends then (IDLE, now) else st) snds B L Q (add_mset ends C)"
    "ends \<Longrightarrow> B = {#}" "fst st = ACTIVE" "snd st \<le> now"
proof -
  obtain n a b c d where act: "ovs_vc_state s = ACTIVE" and pk: "vc_packet now lat st snds (add_mset f B) L Q C n a b c d"
    using ok by (rule vc_ok_active) simp
  have B: "part n a b (add_mset f B)" using pk by (simp add: vc_packet_def)
  note q = part_pop [OF B min]
  have le: "0 \<le> a" "a < b" "b \<le> c" "c \<le> d" "d \<le> n" using pk q(2) by (auto simp: vc_packet_def part_def)
  have kind: "ends \<longleftrightarrow> a + 1 = n" using q(4) le unfolding ends_def by (auto simp: flit_kind_def)
  show e: "B = {#}" if ends
  proof -
    have "a + 1 = b" using that kind le by simp
    then show ?thesis using q(3) by (simp add: part_empty_iff)
  qed
  have "vc_packet now lat (if ends then (IDLE, now) else st) snds B L Q (add_mset ends C) n (a + 1) b c d"
    using pk q(3) le kind e by (auto simp: vc_packet_def)
  then show "vc_ok now lat s (if ends then (IDLE, now) else st) snds B L Q (add_mset ends C)"
    by (rule vc_ok_activeI) (use vc_ok_slots [OF ok] act in simp_all)
  show "fst st = ACTIVE" "snd st \<le> now" using pk le by (auto simp: vc_packet_def)
qed

lemma vc_ok_credit:
  assumes ok: "vc_ok now lat s st snds B L Q (add_mset free C)"
  shows "vc_ok now lat (if free then ovs_setState IDLE now (s\<lparr>ovs_credit_count := ovs_credit_count s + 1\<rparr>)
       else s\<lparr>ovs_credit_count := ovs_credit_count s + 1\<rparr>) st snds B L Q C"
    "ovs_credit_count s + 1 \<le> ovs_max_credit_count s"
proof -
  note sl = vc_ok_slots [OF ok]
  show "ovs_credit_count s + 1 \<le> ovs_max_credit_count s" using sl(3) by simp
  show "vc_ok now lat (if free then ovs_setState IDLE now (s\<lparr>ovs_credit_count := ovs_credit_count s + 1\<rparr>)
       else s\<lparr>ovs_credit_count := ovs_credit_count s + 1\<rparr>) st snds B L Q C"
  proof (cases free)
    case True
    obtain n a b c d where pk: "vc_packet now lat st snds B L Q (add_mset free C) n a b c d"
      using ok by (rule vc_ok_active) (use True in simp)
    then have a: "a = n" using True by (auto simp: vc_packet_def split: if_splits)
    then have "b = n \<and> c = n \<and> d = n" using pk by (auto simp: vc_packet_def part_def)
    then have "B = {#} \<and> L = {#} \<and> Q = {#} \<and> snds = None \<and> fst st = IDLE \<and> count C True = 0"
      using pk a True by (auto simp: vc_packet_def part_empty_iff)
    then show ?thesis using True sl by (simp add: vc_ok_def ovs_setState_def)
  next
    case False
    have "vc_packet now lat st snds B L Q C n a b c d" if "vc_packet now lat st snds B L Q (add_mset free C) n a b c d" for n a b c d
      using that False by (simp add: vc_packet_def)
    then show ?thesis using ok False by (fastforce simp: vc_ok_def split: VC_state_type.splits)
  qed
qed

lemma vc_ok_tick: "vc_ok now lat s st snds B L Q C \<Longrightarrow> vc_ok (now + 1) lat s st snds B L Q C"
proof -
  assume ok: "vc_ok now lat s st snds B L Q C"
  have "vc_packet (now + 1) lat st snds B L Q C n a b c d" if "vc_packet now lat st snds B L Q C n a b c d" for n a b c d
    using that by (fastforce simp: vc_packet_def split: if_splits)
  then show ?thesis using ok by (fastforce simp: vc_ok_def split: VC_state_type.splits)
qed

section \<open>The channel keeps the protocol\<close>

lemma map_update_same [simp]: "i < length xs \<Longrightarrow> g y = g (xs ! i) \<Longrightarrow> map g (xs[i := y]) = map g xs"
  by (metis list_update_id map_update)

definition of_vc :: "int \<Rightarrow> flit multiset \<Rightarrow> flit multiset" where
  "of_vc v M = filter_mset (\<lambda>f. f_vc f = v) M"

lemma of_vc_simps [simp]:
  "of_vc v {#} = {#}"
  "of_vc v (add_mset f M) = (if f_vc f = v then add_mset f (of_vc v M) else of_vc v M)"
  "of_vc v (M + N) = of_vc v M + of_vc v N"
  by (simp_all add: of_vc_def)

lemma in_of_vc [simp]: "f \<in># of_vc v M \<longleftrightarrow> f \<in># M \<and> f_vc f = v"
  by (simp add: of_vc_def)

definition credits_of :: "int \<Rightarrow> Channel \<Rightarrow> bool multiset" where
  "credits_of v ch = image_mset f_is_free_signal
     (of_vc v (fb_contents (iu_creditQueue (ch_down ch)) + fb_contents (nl_linkBuffer (ch_credit ch))))"

definition chan_vc_ok :: "int \<Rightarrow> Channel \<Rightarrow> bool" where
  "chan_vc_ok v ch \<longleftrightarrow>
     vc_ok (ch_now ch) (nl_latency (ch_link ch)) (ou_outVcState (ch_up ch) ! nat v)
       (vc_state (iu_virtualChannels (ch_down ch) ! nat v)) (ch_sending ch v)
       (fb_contents (vc_inputBuffer (iu_virtualChannels (ch_down ch) ! nat v)))
       (of_vc v (fb_contents (nl_linkBuffer (ch_link ch)))) (of_vc v (fb_contents (ou_outBuffer (ch_up ch))))
       (credits_of v ch)"

definition chan_shape :: "int list \<Rightarrow> Channel \<Rightarrow> bool" where
  "chan_shape mx ch \<longleftrightarrow>
     length (iu_virtualChannels (ch_down ch)) = length (ou_outVcState (ch_up ch))
     \<and> fb_ok (ou_outBuffer (ch_up ch)) \<and> fb_ok (nl_linkBuffer (ch_link ch))
     \<and> fb_ok (iu_creditQueue (ch_down ch)) \<and> fb_ok (nl_linkBuffer (ch_credit ch))
     \<and> (\<forall>c \<in> set (iu_virtualChannels (ch_down ch)). fb_ok (vc_inputBuffer c))
     \<and> (\<forall>f \<in># fb_contents (ou_outBuffer (ch_up ch)) + fb_contents (nl_linkBuffer (ch_link ch))
            + fb_contents (iu_creditQueue (ch_down ch)) + fb_contents (nl_linkBuffer (ch_credit ch)).
          0 \<le> f_vc f \<and> nat (f_vc f) < length (ou_outVcState (ch_up ch)))
     \<and> (\<forall>v. ch_sending ch v \<noteq> None \<longrightarrow> 0 \<le> v \<and> nat v < length (ou_outVcState (ch_up ch)))
     \<and> 0 < ou_vc_per_vnet (ch_up ch) \<and> map ovs_max_credit_count (ou_outVcState (ch_up ch)) = mx"

definition chan_inv :: "int list \<Rightarrow> Channel \<Rightarrow> bool" where
  "chan_inv mx ch \<longleftrightarrow> chan_shape mx ch
     \<and> (\<forall>v. 0 \<le> v \<longrightarrow> nat v < length (ou_outVcState (ch_up ch)) \<longrightarrow> chan_vc_ok v ch)"

lemma chan_invI:
  assumes "chan_shape mx ch" "\<And>v. 0 \<le> v \<Longrightarrow> nat v < length (ou_outVcState (ch_up ch)) \<Longrightarrow> chan_vc_ok v ch"
  shows "chan_inv mx ch"
  using assms by (simp add: chan_inv_def)

lemma isReady_top:
  assumes "fb_ok b" "fb_isReady t b"
  obtains b' f where "getTopFlit b = Inr (b', f)" "peekTopFlit b = Inr f" "fb_ok b'" "f_time f \<le> t"
    "fb_contents b = add_mset f (fb_contents b')" "\<And>g. g \<in># fb_contents b' \<Longrightarrow> fkey f \<le> fkey g"
proof -
  obtain f fs where b: "fb_buffer b = f # fs" "f_time f \<le> t"
    using assms(2) by (auto simp: fb_isReady_def split: list.splits)
  then have "fb_contents b \<noteq> {#}" by (simp add: fb_contents_def)
  then obtain b' g where g: "getTopFlit b = Inr (b', g)" "fb_ok b'" "fb_contents b = add_mset g (fb_contents b')"
      "\<forall>h \<in># fb_contents b'. fkey g \<le> fkey h"
    using fb.get_law [OF assms(1)] by blast
  moreover have "g = f" using g(1) b(1) by (auto simp: getTopFlit_def)
  ultimately show ?thesis using that b by (auto simp: peekTopFlit_def)
qed

lemma not_ready_empty: "fb_contents b = {#} \<Longrightarrow> \<not> fb_isReady t b"
  by (simp add: fb_contents_def fb_isReady_def)

subsection \<open>Sending\<close>

lemma chan_send_keeps:
  assumes sh: "chan_shape mx ch" and v: "0 \<le> v" "nat v < length (ou_outVcState (ch_up ch))"
    and cr: "0 < ovs_credit_count (ou_outVcState (ch_up ch) ! nat v)"
    and others: "\<And>w. w \<noteq> v \<Longrightarrow> 0 \<le> w \<Longrightarrow> nat w < length (ou_outVcState (ch_up ch)) \<Longrightarrow> chan_vc_ok w ch"
    and mine: "\<And>f. f_id f = i \<Longrightarrow> f_type f = flit_kind (pk_size p) i \<Longrightarrow> f_time f = ch_now ch + 1 \<Longrightarrow>
      vc_ok (ch_now ch) (nl_latency (ch_link ch))
        (let s = ou_outVcState (ch_up ch) ! nat v in s\<lparr>ovs_credit_count := ovs_credit_count s - 1\<rparr>)
        (vc_state (iu_virtualChannels (ch_down ch) ! nat v)) (if i + 1 < pk_size p then Some (i + 1, p) else None)
        (fb_contents (vc_inputBuffer (iu_virtualChannels (ch_down ch) ! nat v)))
        (of_vc v (fb_contents (nl_linkBuffer (ch_link ch)))) (add_mset f (of_vc v (fb_contents (ou_outBuffer (ch_up ch)))))
        (credits_of v ch)"
  shows "\<exists>ch'. chan_send v i p ch = Inr ch' \<and> chan_inv mx ch'"
proof -
  let ?s = "ou_outVcState (ch_up ch) ! nat v"
  let ?f = "(advance_stage STAGE_LT (ch_now ch + 1) (flit_new i v (pk_vnet p) (pk_route p) (pk_size p) (pk_msg p) (ch_now ch)))
    \<lparr>f_time := ch_now ch + 1\<rparr>"
  let ?ou = "(ch_up ch)\<lparr>ou_outVcState := (ou_outVcState (ch_up ch))[nat v := ?s\<lparr>ovs_credit_count := ovs_credit_count ?s - 1\<rparr>]\<rparr>"
  let ?ch = "ch\<lparr>ch_up := ?ou\<lparr>ou_outBuffer := fb_insert ?f (ou_outBuffer (ch_up ch))\<rparr>,
    ch_sending := (ch_sending ch)(v := if i + 1 < pk_size p then Some (i + 1, p) else None)\<rparr>"
  have dec: "ou_decrement_credit v (ch_up ch) = Inr ?ou"
    using v cr by (simp add: ou_decrement_credit_def vec_modify_def ovs_decrement_credit_def)
  have f: "f_id ?f = i" "f_type ?f = flit_kind (pk_size p) i" "f_time ?f = ch_now ch + 1" "f_vc ?f = v"
    by (simp_all add: advance_stage_def flit_new_def flit_kind_def)
  have run: "chan_send v i p ch = Inr ?ch" by (simp add: chan_send_def Let_def dec ou_insert_flit_def)
  have "chan_shape mx ?ch" using sh v f(4) by (auto simp: chan_shape_def fb.ins_inv fb.ins_contents)
  moreover have "chan_vc_ok w ?ch" if "0 \<le> w" "nat w < length (ou_outVcState (ch_up ?ch))" for w
  proof (cases "w = v")
    case True
    then show ?thesis using mine [OF f(1-3)] v f(4)
      by (simp add: chan_vc_ok_def credits_of_def fb.ins_contents Let_def)
  next
    case False
    then have "nat w \<noteq> nat v" using that(1) v(1) by simp
    then show ?thesis using others [OF False that(1)] that(2) False f(4)
      by (simp add: chan_vc_ok_def credits_of_def fb.ins_contents)
  qed
  ultimately show ?thesis using run by (blast intro: chan_invI)
qed

lemma first_idle_returns:
  assumes "\<And>vc. vc \<in> set vcs \<Longrightarrow> 0 \<le> vc \<and> nat vc < length (ou_outVcState ou)"
  shows "\<exists>r. first_idle t ou vcs = Inr r \<and>
     (case r of None \<Rightarrow> True | Some vc \<Rightarrow> vc \<in> set vcs \<and> isInState IDLE t (ou_outVcState ou ! nat vc))"
  using assms
proof (induction vcs)
  case (Cons vc vcs)
  then obtain r where r: "first_idle t ou vcs = Inr r"
      "case r of None \<Rightarrow> True | Some vc \<Rightarrow> vc \<in> set vcs \<and> isInState IDLE t (ou_outVcState ou ! nat vc)"
    by auto
  have "0 \<le> vc \<and> nat vc < length (ou_outVcState ou)" using Cons.prems by simp
  then show ?case using r by (cases "isInState IDLE t (ou_outVcState ou ! nat vc)") (auto simp: is_vc_idle_def split: option.splits)
qed simp

lemma SendNext_keeps:
  assumes inv: "chan_inv mx ch"
  shows "\<exists>ch'. chan_op rc ps (SendNext v) ch = Inr ch' \<and> chan_inv mx ch'"
proof (cases "ch_sending ch v")
  case None
  then show ?thesis using inv by simp
next
  case (Some ip)
  obtain i p where ip: "ch_sending ch v = Some (i, p)" using Some by (cases ip) simp
  let ?s = "ou_outVcState (ch_up ch) ! nat v"
  have sh: "chan_shape mx ch" and v: "0 \<le> v" "nat v < length (ou_outVcState (ch_up ch))"
    using inv ip by (auto simp: chan_inv_def chan_shape_def)
  have ok: "chan_vc_ok v ch" using inv v by (simp add: chan_inv_def)
  have "isInState ACTIVE (ch_now ch) ?s"
  proof -
    from ok obtain n a b c d where "ovs_vc_state ?s = ACTIVE"
      unfolding chan_vc_ok_def by (rule vc_ok_active) (use ip in simp)
    then show ?thesis using ok by (simp add: chan_vc_ok_def vc_ok_def isInState_def)
  qed
  then have has: "ou_has_credit (ch_now ch) v (ch_up ch) = Inr (ovs_has_credit ?s)" using v by (simp add: ou_has_credit_def)
  show ?thesis
  proof (cases "ovs_has_credit ?s")
    case True
    then have cr: "0 < ovs_credit_count ?s" by (simp add: ovs_has_credit_def)
    have "\<exists>ch'. chan_send v i p ch = Inr ch' \<and> chan_inv mx ch'"
    proof (rule chan_send_keeps [OF sh v cr])
      show "chan_vc_ok w ch" if "0 \<le> w" "nat w < length (ou_outVcState (ch_up ch))" for w
        using inv that by (simp add: chan_inv_def)
    qed (use vc_ok_send(1) [OF _ cr] ok ip in \<open>simp add: chan_vc_ok_def Let_def\<close>)
    then show ?thesis using ip has True by simp
  next
    case False
    then show ?thesis using ip has inv by simp
  qed
qed

lemma StartPacket_keeps:
  assumes inv: "chan_inv mx ch"
  shows "\<exists>ch'. chan_op rc ps (StartPacket p) ch = Inr ch' \<and> chan_inv mx ch'"
proof (cases "0 \<le> pk_vnet p \<and> (pk_vnet p + 1) * ou_vc_per_vnet (ch_up ch) \<le> int (length (ou_outVcState (ch_up ch)))
         \<and> 1 \<le> pk_size p")
  case True
  let ?k = "ou_vc_per_vnet (ch_up ch)" and ?n = "length (ou_outVcState (ch_up ch))" and ?now = "ch_now ch"
  have sh: "chan_shape mx ch" and k: "0 < ?k" using inv by (auto simp: chan_inv_def chan_shape_def)
  have "0 \<le> vc \<and> nat vc < ?n" if "vc \<in> set (vnet_vcs (ch_up ch) (pk_vnet p))" for vc
  proof -
    have "pk_vnet p * ?k \<le> vc" "vc < (pk_vnet p + 1) * ?k" using that by (auto simp: vnet_vcs_def Let_def algebra_simps)
    moreover have "0 \<le> pk_vnet p * ?k" using True k by simp
    ultimately show ?thesis using True by linarith
  qed
  then obtain r where r: "first_idle ?now (ch_up ch) (vnet_vcs (ch_up ch) (pk_vnet p)) = Inr r"
      "\<And>vc. r = Some vc \<Longrightarrow> 0 \<le> vc \<and> nat vc < ?n \<and> isInState IDLE ?now (ou_outVcState (ch_up ch) ! nat vc)"
    using first_idle_returns [of "vnet_vcs (ch_up ch) (pk_vnet p)" "ch_up ch" ?now] by fastforce
  show ?thesis
  proof (cases r)
    case None
    then show ?thesis using r(1) inv by (simp add: has_free_vc_def)
  next
    case (Some v)
    note v = r(2) [OF Some]
    let ?s = "ou_outVcState (ch_up ch) ! nat v"
    let ?ou = "(ch_up ch)\<lparr>ou_outVcState := (ou_outVcState (ch_up ch))[nat v := ovs_setState ACTIVE ?now ?s]\<rparr>"
    let ?ch = "ch\<lparr>ch_up := ?ou\<rparr>"
    have ok: "chan_vc_ok v ch" using inv v by (simp add: chan_inv_def)
    have cr: "0 < ovs_credit_count ?s" using ok v by (auto simp: chan_vc_ok_def vc_ok_def isInState_def)
    have idle: "ch_sending ch v = None" using ok v by (auto simp: chan_vc_ok_def vc_ok_def isInState_def)
    have "\<exists>ch'. chan_send v 0 p ?ch = Inr ch' \<and> chan_inv mx ch'"
    proof (rule chan_send_keeps)
      show "chan_shape mx ?ch" using sh v by (simp add: chan_shape_def ovs_setState_def)
      show "chan_vc_ok w ?ch" if "w \<noteq> v" "0 \<le> w" "nat w < length (ou_outVcState (ch_up ?ch))" for w
      proof -
        have "nat w \<noteq> nat v" "chan_vc_ok w ch" using that v inv by (simp_all add: chan_inv_def eq_nat_nat_iff)
        then show ?thesis by (simp add: chan_vc_ok_def credits_of_def)
      qed
      show "0 < ovs_credit_count (ou_outVcState (ch_up ?ch) ! nat v)" using cr v by (simp add: ovs_setState_def)
    qed (use v True vc_ok_start(1) [where p = p] ok in
        \<open>simp_all add: chan_vc_ok_def credits_of_def Let_def ovs_setState_def\<close>)
    then show ?thesis using Some r(1) True v
      by (auto simp: has_free_vc_def select_free_vc_def set_vc_state_def vec_modify_def)
  qed
qed (use inv in auto)

subsection \<open>Moving and receiving flits\<close>

lemma MoveFlit_keeps:
  assumes inv: "chan_inv mx ch"
  shows "\<exists>ch'. chan_op rc ps MoveFlit ch = Inr ch' \<and> chan_inv mx ch'"
proof (cases "fb_isReady (ch_now ch) (ou_outBuffer (ch_up ch))")
  case True
  have sh: "chan_shape mx ch" and okb: "fb_ok (ou_outBuffer (ch_up ch))" using inv by (auto simp: chan_inv_def chan_shape_def)
  obtain q f where g: "getTopFlit (ou_outBuffer (ch_up ch)) = Inr (q, f)" "fb_ok q"
      "fb_contents (ou_outBuffer (ch_up ch)) = add_mset f (fb_contents q)" "\<And>g. g \<in># fb_contents q \<Longrightarrow> fkey f \<le> fkey g"
    using isReady_top [OF okb True] by metis
  let ?l = "(ch_link ch)\<lparr>nl_linkBuffer := fb_insert (f\<lparr>f_time := ch_now ch + nl_latency (ch_link ch)\<rparr>) (nl_linkBuffer (ch_link ch))\<rparr>"
  let ?ch = "ch\<lparr>ch_up := (ch_up ch)\<lparr>ou_outBuffer := q\<rparr>, ch_link := ?l\<rparr>"
  have run: "chan_op rc ps MoveFlit ch = Inr ?ch" using True g(1) by (simp add: nl_wakeup_def)
  have "chan_shape mx ?ch" using sh g(2,3) by (auto simp: chan_shape_def fb.ins_inv fb.ins_contents)
  moreover have "chan_vc_ok w ?ch" if w: "0 \<le> w" "nat w < length (ou_outVcState (ch_up ?ch))" for w
  proof -
    have ok: "chan_vc_ok w ch" using inv w by (simp add: chan_inv_def)
    show ?thesis
    proof (cases "f_vc f = w")
      case True
      note mv = vc_ok_move [OF ok [unfolded chan_vc_ok_def g(3) of_vc_simps if_P [OF True]]]
      show ?thesis using mv g(4) True by (simp add: chan_vc_ok_def credits_of_def fb.ins_contents)
    qed (use ok g(3) in \<open>simp add: chan_vc_ok_def credits_of_def fb.ins_contents\<close>)
  qed
  ultimately show ?thesis using run by (blast intro: chan_invI)
qed (use inv in \<open>simp add: nl_wakeup_def\<close>)

lemma Arrive_keeps:
  assumes inv: "chan_inv mx ch" and rc: "\<And>r i d. \<exists>o'. rc r i d = Inr o'" and ps: "1 \<le> ps"
  shows "\<exists>ch'. chan_op rc ps Arrive ch = Inr ch' \<and> chan_inv mx ch'"
proof (cases "nl_isReady (ch_now ch) (ch_link ch)")
  case True
  have sh: "chan_shape mx ch" and okb: "fb_ok (nl_linkBuffer (ch_link ch))" using inv by (auto simp: chan_inv_def chan_shape_def)
  obtain q f where g: "getTopFlit (nl_linkBuffer (ch_link ch)) = Inr (q, f)" "fb_ok q" "f_time f \<le> ch_now ch"
      "fb_contents (nl_linkBuffer (ch_link ch)) = add_mset f (fb_contents q)" "\<And>g. g \<in># fb_contents q \<Longrightarrow> fkey f \<le> fkey g"
    using isReady_top [OF okb True [unfolded nl_isReady_def]] by metis
  let ?v = "f_vc f" and ?vcs = "iu_virtualChannels (ch_down ch)"
  have v: "0 \<le> ?v" "nat ?v < length (ou_outVcState (ch_up ch))" "nat ?v < length ?vcs"
    using sh g(4) by (auto simp: chan_shape_def)
  have ok: "chan_vc_ok ?v ch" using inv v by (simp add: chan_inv_def)
  define hd where "hd \<longleftrightarrow> f_type f = HEAD \<or> f_type f = HEAD_TAIL"
  define time where "time = (if ps = 1 then ch_now ch else ch_now ch + (ps - 1))"
  define h where "h = advance_stage STAGE_SA time (increment_hops f)"
  have h: "f_id h = f_id f" "f_type h = f_type f" "f_time h = f_time f"
    by (simp_all add: h_def advance_stage_def increment_hops_def)
  note arr = vc_ok_arrive [OF ok [unfolded chan_vc_ok_def g(4) of_vc_simps if_P [OF refl]] _ g(3) h]
  have st: "fst (vc_state (?vcs ! nat ?v)) = (if hd then IDLE else ACTIVE)"
    unfolding hd_def by (rule arr(2)) (use g(5) in simp)
  obtain op where op: "rc (f_route (increment_hops f)) (iu_id (ch_down ch)) (iu_direction (ch_down ch)) = Inr op"
    using rc by blast
  define c1 where "c1 = (if hd then (set_active (ch_now ch) (?vcs ! nat ?v))\<lparr>vc_output_port := op\<rparr> else ?vcs ! nat ?v)"
  let ?ch = "ch\<lparr>ch_link := (ch_link ch)\<lparr>nl_linkBuffer := q\<rparr>,
    ch_down := (ch_down ch)\<lparr>iu_virtualChannels := ?vcs[nat ?v := insertFlit h c1]\<rparr>\<rparr>"
  have f: "f_vc (increment_hops f) = ?v" "f_type (increment_hops f) = f_type f" by (simp_all add: increment_hops_def)
  have run: "chan_op rc ps Arrive ch = Inr ?ch"
    using True g(1) v st op ps f unfolding c1_def h_def time_def hd_def
    by (auto simp: iu_wakeup_def consumeLink_def Let_def)
  have c1: "vc_inputBuffer c1 = vc_inputBuffer (?vcs ! nat ?v)"
      "vc_state c1 = (if hd then (ACTIVE, ch_now ch) else vc_state (?vcs ! nat ?v))"
    by (simp_all add: c1_def set_active_def)
  have "fb_ok (vc_inputBuffer (?vcs ! nat ?v))" using sh v(3) by (simp add: chan_shape_def)
  then have "fb_ok (vc_inputBuffer (insertFlit h c1))" by (simp add: insertFlit_def fb.ins_inv c1)
  then have "chan_shape mx ?ch" using sh g(2,4) by (auto simp: chan_shape_def dest!: set_update_subset_insert [THEN subsetD])
  moreover have "chan_vc_ok w ?ch" if w: "0 \<le> w" "nat w < length (ou_outVcState (ch_up ?ch))" for w
  proof (cases "w = ?v")
    case True
    have "vc_ok (ch_now ch) (nl_latency (ch_link ch)) (ou_outVcState (ch_up ch) ! nat ?v) (vc_state c1) (ch_sending ch ?v)
       (add_mset h (fb_contents (vc_inputBuffer (?vcs ! nat ?v)))) (of_vc ?v (fb_contents q))
       (of_vc ?v (fb_contents (ou_outBuffer (ch_up ch)))) (credits_of ?v ch)"
      unfolding c1 hd_def by (rule arr(1)) (use g(5) in simp)
    then show ?thesis using True v by (simp add: chan_vc_ok_def credits_of_def insertFlit_def fb.ins_contents c1)
  next
    case False
    have "chan_vc_ok w ch" "nat w \<noteq> nat ?v" using inv w v False by (simp_all add: chan_inv_def eq_nat_nat_iff)
    then show ?thesis using False g(4) by (simp add: chan_vc_ok_def credits_of_def)
  qed
  ultimately show ?thesis using run by (blast intro: chan_invI)
qed (use inv in \<open>simp add: iu_wakeup_def\<close>)

subsection \<open>Draining and returning credits\<close>

lemma need_stage_returns:
  assumes "fb_isReady t (vc_inputBuffer c) \<Longrightarrow> fst (vc_state c) = ACTIVE \<and> snd (vc_state c) \<le> t" "fb_ok (vc_inputBuffer c)"
  shows "\<exists>b. need_stage stage t c = Inr b \<and> (b \<longrightarrow> fb_isReady t (vc_inputBuffer c))"
proof (cases "fb_isReady t (vc_inputBuffer c)")
  case True
  then obtain f where "peekTopFlit (vc_inputBuffer c) = Inr f" using isReady_top [OF assms(2)] by metis
  then show ?thesis using True assms(1) by (simp add: need_stage_def)
qed (auto simp: need_stage_def)

lemma credits_of_add:
  "credits_of w (ch\<lparr>ch_down := (ch_down ch)\<lparr>iu_creditQueue := fb_insert (Credit_new v b t) (iu_creditQueue (ch_down ch)),
       iu_virtualChannels := vcs\<rparr>\<rparr>) = (if v = w then add_mset b (credits_of w ch) else credits_of w ch)"
  by (simp add: credits_of_def fb.ins_contents Credit_new_def)

text \<open>Taking a flit out of an input channel and releasing it, in one.\<close>

lemma Drain_run:
  assumes sh: "chan_shape mx ch" and v: "0 \<le> v" "nat v < length (iu_virtualChannels (ch_down ch))"
    and g: "getTopFlit (vc_inputBuffer (iu_virtualChannels (ch_down ch) ! nat v)) = Inr (q, f)"
    and e: "f_type f = TAIL \<or> f_type f = HEAD_TAIL \<Longrightarrow> fb_contents q = {#}"
  defines "ends \<equiv> f_type f = TAIL \<or> f_type f = HEAD_TAIL"
  defines "c \<equiv> (iu_virtualChannels (ch_down ch) ! nat v)\<lparr>vc_inputBuffer := q\<rparr>"
  defines "iu \<equiv> (ch_down ch)\<lparr>iu_creditQueue := fb_insert (Credit_new v ends (ch_now ch)) (iu_creditQueue (ch_down ch)),
       iu_virtualChannels := (iu_virtualChannels (ch_down ch))[nat v := if ends then set_idle (ch_now ch) c else c]\<rparr>"
  shows "bindR (iu_getTopFlit v (ch_down ch)) (\<lambda>(iu1, f). bindR (release_vc (ch_now ch) v f iu1) (\<lambda>(iu2, _).
       Inr (ch\<lparr>ch_down := iu2\<rparr>))) = Inr (ch\<lparr>ch_down := iu\<rparr>)"
proof -
  have top: "iu_getTopFlit v (ch_down ch) = Inr ((ch_down ch)\<lparr>iu_virtualChannels := (iu_virtualChannels (ch_down ch))[nat v := c]\<rparr>, f)"
    using v g by (simp add: iu_getTopFlit_def vc_getTopFlit_def c_def)
  show ?thesis
  proof (cases ends)
    case True
    then have "\<not> fb_isReady (ch_now ch) q" using e by (simp add: not_ready_empty ends_def)
    then show ?thesis using top v True unfolding ends_def iu_def
      by (simp add: release_vc_def iu_isReady_def set_vc_idle_def vec_modify_def iu_increment_credit_def c_def)
  next
    case False
    then show ?thesis using top unfolding ends_def iu_def by (simp add: release_vc_def iu_increment_credit_def)
  qed
qed

lemma Drain_keeps:
  assumes inv: "chan_inv mx ch"
  shows "\<exists>ch'. chan_op rc ps (Drain v) ch = Inr ch' \<and> chan_inv mx ch'"
proof (cases "0 \<le> v \<and> v < int (length (iu_virtualChannels (ch_down ch)))")
  case True
  let ?c = "iu_virtualChannels (ch_down ch) ! nat v"
  have sh: "chan_shape mx ch" using inv by (simp add: chan_inv_def)
  have v: "0 \<le> v" "nat v < length (iu_virtualChannels (ch_down ch))" "nat v < length (ou_outVcState (ch_up ch))"
    using True sh by (auto simp: chan_shape_def)
  have ok: "chan_vc_ok v ch" and okb: "fb_ok (vc_inputBuffer ?c)" using inv v by (simp_all add: chan_inv_def chan_shape_def)
  have act: "fst (vc_state ?c) = ACTIVE \<and> snd (vc_state ?c) \<le> ch_now ch" if rd: "fb_isReady (ch_now ch) (vc_inputBuffer ?c)"
  proof -
    obtain q f where g: "fb_contents (vc_inputBuffer ?c) = add_mset f (fb_contents q)" "\<And>g. g \<in># fb_contents q \<Longrightarrow> fkey f \<le> fkey g"
      using isReady_top [OF okb rd] by metis
    show ?thesis using vc_ok_drain(3,4) [OF ok [unfolded chan_vc_ok_def g(1)] g(2)] by simp
  qed
  obtain b where b: "need_stage STAGE_SA (ch_now ch) ?c = Inr b" "b \<Longrightarrow> fb_isReady (ch_now ch) (vc_inputBuffer ?c)"
    using need_stage_returns [OF act okb] by blast
  show ?thesis
  proof (cases b)
    case True
    obtain q f where g: "getTopFlit (vc_inputBuffer ?c) = Inr (q, f)" "fb_ok q"
        "fb_contents (vc_inputBuffer ?c) = add_mset f (fb_contents q)" "\<And>g. g \<in># fb_contents q \<Longrightarrow> fkey f \<le> fkey g"
      using isReady_top [OF okb b(2) [OF True]] by metis
    note dr = vc_ok_drain [OF ok [unfolded chan_vc_ok_def g(3)] g(4)]
    define ends where "ends \<longleftrightarrow> f_type f = TAIL \<or> f_type f = HEAD_TAIL"
    define c where "c = (if ends then set_idle (ch_now ch) (?c\<lparr>vc_inputBuffer := q\<rparr>) else ?c\<lparr>vc_inputBuffer := q\<rparr>)"
    let ?iu = "(ch_down ch)\<lparr>iu_creditQueue := fb_insert (Credit_new v ends (ch_now ch)) (iu_creditQueue (ch_down ch)),
       iu_virtualChannels := (iu_virtualChannels (ch_down ch))[nat v := c]\<rparr>"
    let ?ch = "ch\<lparr>ch_down := ?iu\<rparr>"
    have run: "chan_op rc ps (Drain v) ch = Inr ?ch"
      using Drain_run [OF sh v(1,2) g(1) dr(2)] v b(1) True by (simp add: iu_need_stage_def ends_def c_def)
    have c: "vc_inputBuffer c = q" "vc_state c = (if ends then (IDLE, ch_now ch) else vc_state ?c)"
      by (simp_all add: c_def set_idle_def)
    have "chan_shape mx ?ch" using sh g(2) v
      by (auto simp: chan_shape_def fb.ins_inv fb.ins_contents c Credit_new_def dest!: set_update_subset_insert [THEN subsetD])
    moreover have "chan_vc_ok w ?ch" if w: "0 \<le> w" "nat w < length (ou_outVcState (ch_up ?ch))" for w
    proof (cases "w = v")
      case True
      then show ?thesis using dr(1) v by (simp add: chan_vc_ok_def credits_of_add c flip: ends_def)
    next
      case False
      have "chan_vc_ok w ch" "nat w \<noteq> nat v" using inv w v False by (simp_all add: chan_inv_def eq_nat_nat_iff)
      then show ?thesis using False by (simp add: chan_vc_ok_def credits_of_add)
    qed
    ultimately show ?thesis using run by (blast intro: chan_invI)
  next
    case False
    then show ?thesis using b(1) v inv by (auto simp: iu_need_stage_def)
  qed
qed (use inv in auto)

lemma MoveCredit_keeps:
  assumes inv: "chan_inv mx ch"
  shows "\<exists>ch'. chan_op rc ps MoveCredit ch = Inr ch' \<and> chan_inv mx ch'"
proof (cases "fb_isReady (ch_now ch) (iu_creditQueue (ch_down ch))")
  case True
  have sh: "chan_shape mx ch" and okb: "fb_ok (iu_creditQueue (ch_down ch))" using inv by (auto simp: chan_inv_def chan_shape_def)
  obtain q f where g: "getTopFlit (iu_creditQueue (ch_down ch)) = Inr (q, f)" "fb_ok q"
      "fb_contents (iu_creditQueue (ch_down ch)) = add_mset f (fb_contents q)"
    using isReady_top [OF okb True] by metis
  let ?l = "(ch_credit ch)\<lparr>nl_linkBuffer := fb_insert (f\<lparr>f_time := ch_now ch + nl_latency (ch_credit ch)\<rparr>) (nl_linkBuffer (ch_credit ch))\<rparr>"
  let ?ch = "ch\<lparr>ch_down := (ch_down ch)\<lparr>iu_creditQueue := q\<rparr>, ch_credit := ?l\<rparr>"
  have run: "chan_op rc ps MoveCredit ch = Inr ?ch" using True g(1) by (simp add: nl_wakeup_def)
  have "credits_of w ?ch = credits_of w ch" for w by (simp add: credits_of_def g(3) fb.ins_contents)
  then have "chan_vc_ok w ?ch = chan_vc_ok w ch" for w by (simp add: chan_vc_ok_def)
  moreover have "chan_shape mx ?ch" using sh g(2,3) by (auto simp: chan_shape_def fb.ins_inv fb.ins_contents)
  ultimately show ?thesis using run inv by (simp add: chan_inv_def)
qed (use inv in \<open>simp add: nl_wakeup_def\<close>)

lemma ReturnCredit_keeps:
  assumes inv: "chan_inv mx ch"
  shows "\<exists>ch'. chan_op rc ps ReturnCredit ch = Inr ch' \<and> chan_inv mx ch'"
proof (cases "nl_isReady (ch_now ch) (ch_credit ch)")
  case True
  have sh: "chan_shape mx ch" and okb: "fb_ok (nl_linkBuffer (ch_credit ch))" using inv by (auto simp: chan_inv_def chan_shape_def)
  obtain q f where g: "getTopFlit (nl_linkBuffer (ch_credit ch)) = Inr (q, f)" "fb_ok q"
      "fb_contents (nl_linkBuffer (ch_credit ch)) = add_mset f (fb_contents q)"
    using isReady_top [OF okb True [unfolded nl_isReady_def]] by metis
  let ?v = "f_vc f" and ?ss = "ou_outVcState (ch_up ch)"
  have v: "0 \<le> ?v" "nat ?v < length ?ss" using sh g(3) by (auto simp: chan_shape_def)
  let ?l = "(ch_credit ch)\<lparr>nl_linkBuffer := q\<rparr>"
  have cr: "credits_of w ch = (if ?v = w then add_mset (f_is_free_signal f) (credits_of w (ch\<lparr>ch_credit := ?l\<rparr>))
      else credits_of w (ch\<lparr>ch_credit := ?l\<rparr>))" for w
    by (simp add: credits_of_def g(3))
  have ok: "chan_vc_ok ?v ch" using inv v by (simp add: chan_inv_def)
  note ret = vc_ok_credit [OF ok [unfolded chan_vc_ok_def cr if_P [OF refl]]]
  define s1 where "s1 = (?ss ! nat ?v)\<lparr>ovs_credit_count := ovs_credit_count (?ss ! nat ?v) + 1\<rparr>"
  define s where "s = (if f_is_free_signal f then ovs_setState IDLE (ch_now ch) s1 else s1)"
  let ?ch = "ch\<lparr>ch_credit := ?l, ch_up := (ch_up ch)\<lparr>ou_outVcState := ?ss[nat ?v := s]\<rparr>\<rparr>"
  have run: "chan_op rc ps ReturnCredit ch = Inr ?ch"
    using True g(1) v ret(2)
    by (simp add: ou_wakeup_def consumeLink_def ou_increment_credit_def vec_modify_def ovs_increment_credit_def
        set_vc_state_def s_def s1_def)
  have cr': "credits_of w ?ch = credits_of w (ch\<lparr>ch_credit := ?l\<rparr>)" for w by (simp add: credits_of_def)
  have "chan_shape mx ?ch" using sh g(2,3) v by (auto simp: chan_shape_def s_def s1_def ovs_setState_def)
  moreover have "chan_vc_ok w ?ch" if w: "0 \<le> w" "nat w < length (ou_outVcState (ch_up ?ch))" for w
  proof (cases "w = ?v")
    case True
    then show ?thesis using ret(1) [folded s1_def, folded s_def] v by (simp add: chan_vc_ok_def cr')
  next
    case False
    have "chan_vc_ok w ch" "nat w \<noteq> nat ?v" using inv w v False by (simp_all add: chan_inv_def eq_nat_nat_iff)
    then show ?thesis using False cr [of w] by (simp add: chan_vc_ok_def cr')
  qed
  ultimately show ?thesis using run by (blast intro: chan_invI)
qed (use inv in \<open>simp add: ou_wakeup_def\<close>)

lemma Tick_keeps: "chan_inv mx ch \<Longrightarrow> \<exists>ch'. chan_op rc ps Tick ch = Inr ch' \<and> chan_inv mx ch'"
proof -
  assume inv: "chan_inv mx ch"
  let ?ch = "ch\<lparr>ch_now := ch_now ch + 1\<rparr>"
  have "chan_vc_ok v ?ch" if "chan_vc_ok v ch" for v
    using vc_ok_tick [OF that [unfolded chan_vc_ok_def]] unfolding chan_vc_ok_def by (simp add: credits_of_def)
  then have "chan_inv mx ?ch" using inv by (simp add: chan_inv_def chan_shape_def)
  then show ?thesis by simp
qed

lemmas op_keeps = StartPacket_keeps SendNext_keeps MoveFlit_keeps Drain_keeps MoveCredit_keeps ReturnCredit_keeps Tick_keeps

lemma chan_op_keeps:
  assumes "chan_inv mx ch" "\<And>r i d. \<exists>o'. rc r i d = Inr o'" "1 \<le> ps"
  shows "\<exists>ch'. chan_op rc ps op ch = Inr ch' \<and> chan_inv mx ch'"
  by (cases op) (simp_all only: op_keeps [OF assms(1)] Arrive_keeps [OF assms])

lemma chan_run_keeps:
  assumes "chan_inv mx ch" "\<And>r i d. \<exists>o'. rc r i d = Inr o'" "1 \<le> ps"
  shows "\<exists>ch'. foldR (chan_op rc ps) ops ch = Inr ch' \<and> chan_inv mx ch'"
  using assms(1)
proof (induction ops arbitrary: ch)
  case (Cons op ops)
  then obtain ch1 where "chan_op rc ps op ch = Inr ch1" "chan_inv mx ch1" using chan_op_keeps assms(2,3) by blast
  then show ?case using Cons.IH by simp
qed simp

subsection \<open>The start\<close>

text \<open>The number of buffers a virtual channel is configured with.\<close>

definition buffers_of :: "GarnetNetwork \<Rightarrow> int \<Rightarrow> int" where
  "buffers_of g v =
     (if g_vnet_type g ! nat (v div g_vcs_per_vnet g) = DATA_VNET then g_buffers_per_data_vc g else g_buffers_per_ctrl_vc g)"

lemma new_states_fresh:
  assumes "new_states g vs = Inr ss"
  shows "length ss = length vs \<and> (\<forall>k < length vs. ovs_vc_state (ss ! k) = IDLE \<and> ovs_time (ss ! k) = 0 \<and>
     ovs_credit_count (ss ! k) = ovs_max_credit_count (ss ! k) \<and> 1 \<le> ovs_max_credit_count (ss ! k))
     \<and> map ovs_max_credit_count ss = map (buffers_of g) vs"
  using assms
proof (induction vs arbitrary: ss)
  case (Cons v vs)
  then obtain s ss' where s: "OutVcState_new g v = Inr s" "new_states g vs = Inr ss'" "ss = s # ss'"
    by (auto simp: bindR_Inr_iff)
  have "ovs_vc_state s = IDLE \<and> ovs_time s = 0 \<and> ovs_credit_count s = ovs_max_credit_count s \<and> 1 \<le> ovs_max_credit_count s
      \<and> ovs_max_credit_count s = buffers_of g v"
    using s(1) by (auto simp: OutVcState_new_def get_vnet_type_def bindR_Inr_iff buffers_of_def Let_def vec_at_Inr_iff split: if_splits)
  then show ?case using Cons.IH [OF s(2)] s(3) by (auto simp: nth_Cons split: nat.splits)
qed simp

lemma chan_init_inv:
  assumes "chan_init g l c = Inr ch" "0 < g_vcs_per_vnet g"
  shows "chan_inv (map (buffers_of g) [0 .. g_virtual_networks g * g_vcs_per_vnet g - 1]) ch"
proof -
  obtain ss where ss: "new_states g [0 .. g_virtual_networks g * g_vcs_per_vnet g - 1] = Inr ss"
    and ch: "ch_now ch = 0" "ou_outVcState (ch_up ch) = ss" "fb_contents (ou_outBuffer (ch_up ch)) = {#}"
      "nl_linkBuffer (ch_link ch) = flitBuffer_new" "nl_linkBuffer (ch_credit ch) = flitBuffer_new"
      "iu_creditQueue (ch_down ch) = flitBuffer_new" "ou_outBuffer (ch_up ch) = flitBuffer_new"
      "iu_virtualChannels (ch_down ch) = replicate (nat (g_virtual_networks g * g_vcs_per_vnet g)) VirtualChannel_new"
      "ch_sending ch = (\<lambda>_. None)" "ou_vc_per_vnet (ch_up ch) = g_vcs_per_vnet g"
    using assms(1) by (auto simp: chan_init_def OutputUnit_new_def bindR_Inr_iff NetworkLink_new_def InputUnit_new_def
        flitBuffer_new_def fb_contents_def)
  note fr = new_states_fresh [OF ss]
  have e: "fb_ok flitBuffer_new" "fb_contents flitBuffer_new = {#}"
    by (simp_all add: fb_ok_def heap_def flitBuffer_new_def fb_contents_def)
  show ?thesis
  proof (rule chan_invI)
    show "chan_shape (map (buffers_of g) [0 .. g_virtual_networks g * g_vcs_per_vnet g - 1]) ch"
      using fr e assms(2) by (simp add: chan_shape_def ch VirtualChannel_new_def)
    fix v :: int assume v: "0 \<le> v" "nat v < length (ou_outVcState (ch_up ch))"
    then have "nat v < nat (g_virtual_networks g * g_vcs_per_vnet g)" using fr by (simp add: ch)
    then have "ovs_vc_state (ss ! nat v) = IDLE \<and> ovs_time (ss ! nat v) = 0 \<and>
        ovs_credit_count (ss ! nat v) = ovs_max_credit_count (ss ! nat v) \<and> 1 \<le> ovs_max_credit_count (ss ! nat v)"
        "iu_virtualChannels (ch_down ch) ! nat v = VirtualChannel_new"
      using fr by (simp_all add: ch del: zless_nat_conj)
    then show "chan_vc_ok v ch" using e by (simp add: chan_vc_ok_def vc_ok_def ch(1-7,9) credits_of_def VirtualChannel_new_def)
  qed
qed

section \<open>Properties\<close>

text \<open>The slots of a virtual channel that are not free: flits in the output queue, on the link and in the input buffer,
  and credits in the credit queue and on the credit link.\<close>

definition slots_in_use :: "int \<Rightarrow> Channel \<Rightarrow> nat" where
  "slots_in_use v ch =
     length (filter (\<lambda>f. f_vc f = v) (fb_buffer (ou_outBuffer (ch_up ch))))
     + length (filter (\<lambda>f. f_vc f = v) (fb_buffer (nl_linkBuffer (ch_link ch))))
     + length (fb_buffer (vc_inputBuffer (iu_virtualChannels (ch_down ch) ! nat v)))
     + length (filter (\<lambda>f. f_vc f = v) (fb_buffer (iu_creditQueue (ch_down ch))))
     + length (filter (\<lambda>f. f_vc f = v) (fb_buffer (nl_linkBuffer (ch_credit ch))))"


text \<open>A packet of three flits.\<close>

definition demo_packet :: FlitPacket where
  "demo_packet = \<lparr>pk_vnet = 1, pk_size = 3, pk_route = null_route, pk_msg = 0\<rparr>"

lemma demo_chan_init: "\<exists>ch0. chan_init demo_net 1 1 = Inr ch0"
  by (simp add: chan_init_def OutputUnit_new_def demo_net_def OutVcState_new_def get_vnet_type_def vnet_types_def upto.simps)


end
