(* ===== verification/SwitchAllocation.thy ===== *)
theory SwitchAllocation
  imports GarnetRouter
begin

text \<open>
  What the separable switch allocator of a Garnet router computes: in each wake-up every input port bids for one
  output port with the first of its channels, in round-robin order, that may send; every output port grants the
  first bidder in round-robin order; exactly the granted flits go to the crossbar. The loops of the code are
  compared with this description, and the round-robin pointers are shown to starve nobody.
\<close>

section \<open>Round-robin order\<close>

definition rotation :: "int \<Rightarrow> int \<Rightarrow> int list" where
  "rotation n p = map (\<lambda>k. (p + k) mod n) [0 .. n - 1]"

text \<open>The indices a loop visits in \<open>k\<close> iterations.\<close>

primrec visits :: "int \<Rightarrow> nat \<Rightarrow> int \<Rightarrow> int list" where
  "visits n 0 p = []"
| "visits n (Suc k) p = p # visits n k (wrap_next n p)"

lemma wrap_next_mod: "0 \<le> p \<Longrightarrow> p < n \<Longrightarrow> wrap_next n p = (p + 1) mod n"
  by (cases "p + 1 = n") (auto simp: wrap_next_def)

lemma wrap_next_range: "0 \<le> p \<Longrightarrow> p < n \<Longrightarrow> 0 \<le> wrap_next n p \<and> wrap_next n p < n"
  by (auto simp: wrap_next_def)

lemma visits_mod: "0 \<le> p \<Longrightarrow> p < n \<Longrightarrow> visits n k p = map (\<lambda>j. (p + int j) mod n) [0..<k]"
proof (induction k arbitrary: p)
  case (Suc k)
  have "visits n k (wrap_next n p) = map (\<lambda>j. (wrap_next n p + int j) mod n) [0..<k]"
    using Suc.IH wrap_next_range [OF Suc.prems] by blast
  also have "\<dots> = map (\<lambda>j. (p + int (Suc j)) mod n) [0..<k]"
    using Suc.prems by (simp add: wrap_next_mod mod_simps add.assoc)
  also have "\<dots> = map (\<lambda>j. (p + int j) mod n) [Suc 0..<Suc k]"
    by (simp only: map_Suc_upt [symmetric] map_map comp_def)
  finally show ?case using Suc.prems by (simp add: upt_conv_Cons del: upt_Suc)
qed simp

lemma visits_rotation:
  assumes "0 \<le> p" "p < n"
  shows "visits n (nat n) p = rotation n p"
proof (rule nth_equalityI)
  show "length (visits n (nat n) p) = length (rotation n p)" using assms by (simp add: visits_mod rotation_def)
  fix i assume "i < length (visits n (nat n) p)"
  then show "visits n (nat n) p ! i = rotation n p ! i" using assms by (simp add: visits_mod rotation_def)
qed

lemma set_rotation:
  assumes "0 \<le> p" "p < n"
  shows "set (rotation n p) = {0..<n}"
proof
  show "set (rotation n p) \<subseteq> {0..<n}" using assms by (auto simp: rotation_def)
  show "{0..<n} \<subseteq> set (rotation n p)"
  proof
    fix i assume i: "i \<in> {0..<n}"
    have "(p + (i - p) mod n) mod n = i mod n" by (simp add: mod_simps)
    then have "i = (p + (i - p) mod n) mod n" using i by simp
    moreover have "(i - p) mod n \<in> {0..n - 1}" using assms by simp
    ultimately show "i \<in> set (rotation n p)" unfolding rotation_def set_map by (metis imageI set_upto)
  qed
qed

section \<open>Fairness of one arbiter\<close>

lemma scan_inports_visits:
  assumes "length row = nat n" "0 \<le> p" "p < n"
  shows "scan_inports row n k p = Inr (find (\<lambda>i. row ! nat i) (visits n k p))"
  using assms(2,3)
proof (induction k arbitrary: p)
  case (Suc k)
  then show ?case using assms(1) wrap_next_range [of p n] by simp
qed simp

lemma scan_inports_rotation:
  assumes "length row = nat n" "0 \<le> p" "p < n"
  shows "scan_inports row n (nat n) p = Inr (find (\<lambda>i. row ! nat i) (rotation n p))"
  using assms by (simp add: scan_inports_visits visits_rotation)

text \<open>An arbiter for \<open>n\<close> requesters over several wake-ups, each with its requests: the winners and the pointer.\<close>

fun rr_run :: "int \<Rightarrow> int \<Rightarrow> bool list list \<Rightarrow> int option list result" where
  "rr_run n p [] = Inr []"
| "rr_run n p (row # rows) =
     bindR (scan_inports row n (nat n) p) (\<lambda>w.
     bindR (rr_run n (case w of None \<Rightarrow> p | Some i \<Rightarrow> wrap_next n i) rows) (\<lambda>ws. Inr (w # ws)))"

lemma find_upt_least:
  assumes "find P (map f [0..<k]) = Some x"
  obtains j where "j < k" "x = f j" "P (f j)" "\<And>i. i < j \<Longrightarrow> \<not> P (f i)"
  using assms by (auto simp: find_Some_iff)

text \<open>The distance of a requester from the pointer.\<close>

lemma rr_distance:
  assumes r: "length row = nat n" "0 \<le> p" "p < n" "0 \<le> i" "i < n" "row ! nat i"
  obtains w where "scan_inports row n (nat n) p = Inr (Some w)" "0 \<le> w" "w < n"
    "w = i \<or> (i - wrap_next n w) mod n < (i - p) mod n"
proof -
  let ?d = "(i - p) mod n"
  have d: "0 \<le> ?d" "?d < n" using r by simp_all
  have at: "(p + ?d) mod n = i" using r by (simp add: mod_simps)
  have sc: "scan_inports row n (nat n) p = Inr (find (\<lambda>i. row ! nat i) (map (\<lambda>j. (p + int j) mod n) [0..<nat n]))"
    using r by (simp add: scan_inports_visits visits_mod)
  have "\<exists>x \<in> set (map (\<lambda>j. (p + int j) mod n) [0..<nat n]). row ! nat x"
    using at r(6) d by (intro bexI [of _ i]) (auto simp: image_iff intro: bexI [of _ "nat ?d"])
  then obtain w where w: "find (\<lambda>i. row ! nat i) (map (\<lambda>j. (p + int j) mod n) [0..<nat n]) = Some w"
    using find_None_iff [of "\<lambda>i. row ! nat i"] by (metis option.exhaust)
  then obtain j where j: "j < nat n" "w = (p + int j) mod n" "\<And>m. m < j \<Longrightarrow> \<not> row ! nat ((p + int m) mod n)"
    by (rule find_upt_least) blast
  have rng: "0 \<le> w" "w < n" using j(2) r by simp_all
  have le: "int j \<le> ?d"
  proof (rule ccontr)
    assume "\<not> int j \<le> ?d"
    then have "nat ?d < j" using d by simp
    from j(3) [OF this] show False using at r(6) d by simp
  qed
  have "(i - wrap_next n w) mod n < ?d" if ne: "w \<noteq> i"
  proof -
    have "int j \<noteq> ?d" using ne j(2) at by auto
    then have lt: "int j < ?d" using le by simp
    have "(i - wrap_next n w) mod n = (i - p - (int j + 1)) mod n"
      using rng j(2) by (simp add: wrap_next_mod mod_simps algebra_simps)
    also have "\<dots> = (?d - (int j + 1)) mod n" by (simp add: mod_simps)
    also have "\<dots> = ?d - (int j + 1)" using lt d by simp
    finally show ?thesis by simp
  qed
  then show ?thesis using that sc w rng by auto
qed

section \<open>The first stage: bids\<close>

text \<open>Whether a channel of an input port bids, and for which output port.\<close>

definition wants :: "cycles \<Rightarrow> Router \<Rightarrow> int \<Rightarrow> int \<Rightarrow> int option result" where
  "wants now rt inport invc =
     bindR (getInputUnit rt inport) (\<lambda>iu.
     bindR (iu_need_stage invc STAGE_SA now iu) (\<lambda>needs.
       if needs
       then bindR (iu_get_outport invc iu) (\<lambda>outport.
            bindR (iu_get_outvc invc iu) (\<lambda>outvc.
            bindR (send_allowed now rt inport invc outport outvc) (\<lambda>ok. Inr (if ok then Some outport else None))))
       else Inr None))"

fun first_bid :: "(int \<Rightarrow> int option result) \<Rightarrow> int list \<Rightarrow> (int \<times> int) option result" where
  "first_bid w [] = Inr None"
| "first_bid w (vc # vcs) =
     bindR (w vc) (\<lambda>r. case r of Some outport \<Rightarrow> Inr (Some (vc, outport)) | None \<Rightarrow> first_bid w vcs)"

text \<open>The bid of an input port: the first channel that may send, from the round-robin pointer on.\<close>

definition sa_bid :: "cycles \<Rightarrow> Router \<Rightarrow> int \<Rightarrow> (int \<times> int) option result" where
  "sa_bid now rt i =
     first_bid (wants now rt i) (rotation (sa_num_vcs (rt_sa rt)) (sa_round_robin_invc (rt_sa rt) ! nat i))"

lemma scan_invcs_visits:
  "scan_invcs now rt inport k invc = first_bid (wants now rt inport) (visits (sa_num_vcs (rt_sa rt)) k invc)"
proof (induction k arbitrary: invc)
  case (Suc k)
  show ?case unfolding scan_invcs.simps visits.simps first_bid.simps Suc.IH wants_def bindR_def
    by (auto split: sum.splits option.splits)
qed simp

lemma scan_invcs_bid:
  assumes "0 \<le> p" "p < sa_num_vcs (rt_sa rt)" "p = sa_round_robin_invc (rt_sa rt) ! nat i"
  shows "scan_invcs now rt i (nat (sa_num_vcs (rt_sa rt))) p = sa_bid now rt i"
  using assms by (simp add: scan_invcs_visits visits_rotation sa_bid_def)

text \<open>Only the sizes of the allocator and the two ports matter for what a channel wants.\<close>

lemma wants_cong:
  assumes "rt_input_unit rt' = rt_input_unit rt" "rt_output_unit rt' = rt_output_unit rt" "rt_net rt' = rt_net rt"
    "sa_vc_per_vnet (rt_sa rt') = sa_vc_per_vnet (rt_sa rt)"
  shows "wants now rt' = wants now rt"
proof -
  have eqs: "getInputUnit rt' = getInputUnit rt" "getOutputUnit rt' = getOutputUnit rt" "sa_get_vnet rt' = sa_get_vnet rt"
    using assms by (simp_all add: getInputUnit_def getOutputUnit_def sa_get_vnet_def fun_eq_iff)
  have allowed: "send_allowed now rt' = send_allowed now rt"
    unfolding send_allowed_def [abs_def] eqs assms(3,4) by (rule refl)
  show ?thesis unfolding wants_def [abs_def] eqs allowed by (rule refl)
qed

section \<open>Shape of the allocator\<close>

definition matrix :: "int \<Rightarrow> int \<Rightarrow> 'a list list \<Rightarrow> bool" where
  "matrix m n xss \<longleftrightarrow> length xss = nat m \<and> (\<forall>xs \<in> set xss. length xs = nat n)"

definition entry :: "int \<Rightarrow> int \<Rightarrow> 'a list list \<Rightarrow> 'a" where
  "entry p q xss = xss ! nat p ! nat q"

definition put_entry :: "int \<Rightarrow> int \<Rightarrow> 'a \<Rightarrow> 'a list list \<Rightarrow> 'a list list" where
  "put_entry p q x xss = xss[nat p := (xss ! nat p)[nat q := x]]"

lemma matrix_put_entry: "matrix m n xss \<Longrightarrow> 0 \<le> p \<Longrightarrow> p < m \<Longrightarrow> matrix m n (put_entry p q x xss)"
  by (auto simp: matrix_def put_entry_def dest!: set_update_subset_insert [THEN subsetD])

lemma entry_put_entry:
  assumes "matrix m n xss" "0 \<le> p" "p < m" "0 \<le> q" "q < n" "0 \<le> r" "r < m" "0 \<le> s" "s < n"
  shows "entry r s (put_entry p q x xss) = (if r = p \<and> s = q then x else entry r s xss)"
proof -
  have "nat p < length xss" "length (xss ! nat p) = nat n" using assms by (auto simp: matrix_def)
  then show ?thesis using assms by (auto simp: entry_def put_entry_def nth_list_update eq_nat_nat_iff)
qed

lemma vec_modify_entry:
  assumes "matrix m n xss" "vec_modify p (vec_put q x) xss = Inr yss"
  shows "yss = put_entry p q x xss" "0 \<le> p" "p < m" "0 \<le> q" "q < n"
proof -
  have p: "0 \<le> p" "nat p < length xss" and q: "0 \<le> q" "nat q < length (xss ! nat p)"
    and y: "yss = put_entry p q x xss"
    using assms(2) by (auto simp: vec_Inr_iffs put_entry_def)
  have len: "length xss = nat m" "length (xss ! nat p) = nat n" using assms(1) p by (auto simp: matrix_def)
  show "yss = put_entry p q x xss" "0 \<le> p" "p < m" "0 \<le> q" "q < n" using y p q len by simp_all
qed

definition sa_ok :: "SwitchAllocator \<Rightarrow> bool" where
  "sa_ok sa \<longleftrightarrow> length (sa_round_robin_invc sa) = nat (sa_num_inports sa)
     \<and> length (sa_round_robin_inport sa) = nat (sa_num_outports sa)
     \<and> matrix (sa_num_outports sa) (sa_num_inports sa) (sa_port_requests sa)
     \<and> matrix (sa_num_outports sa) (sa_num_inports sa) (sa_vc_winners sa)
     \<and> (\<forall>p \<in> set (sa_round_robin_invc sa). 0 \<le> p \<and> p < sa_num_vcs sa)
     \<and> (\<forall>p \<in> set (sa_round_robin_inport sa). 0 \<le> p \<and> p < sa_num_inports sa)"

definition sa_shape :: "Router \<Rightarrow> bool" where
  "sa_shape rt \<longleftrightarrow> sa_ok (rt_sa rt)
     \<and> sa_num_inports (rt_sa rt) = int (length (rt_input_unit rt))
     \<and> sa_num_outports (rt_sa rt) = int (length (rt_output_unit rt))
     \<and> length (rt_switchBuffers rt) = length (rt_input_unit rt)"

section \<open>The state after the first stage\<close>

fun put_bid :: "int \<Rightarrow> (int \<times> int) option \<Rightarrow> SwitchAllocator \<Rightarrow> SwitchAllocator" where
  "put_bid i None sa = sa"
| "put_bid i (Some (invc, outport)) sa =
     sa\<lparr>sa_port_requests := put_entry outport i True (sa_port_requests sa),
        sa_vc_winners := put_entry outport i invc (sa_vc_winners sa),
        sa_round_robin_invc := (sa_round_robin_invc sa)[nat i := wrap_next (sa_num_vcs sa) invc]\<rparr>"

definition bid_ok :: "SwitchAllocator \<Rightarrow> (int \<times> int) option \<Rightarrow> bool" where
  "bid_ok sa b \<longleftrightarrow> (case b of None \<Rightarrow> True
     | Some (invc, outport) \<Rightarrow> 0 \<le> invc \<and> invc < sa_num_vcs sa \<and> 0 \<le> outport \<and> outport < sa_num_outports sa)"

lemma put_bid_fields [simp]:
  "sa_num_inports (put_bid i b sa) = sa_num_inports sa" "sa_num_outports (put_bid i b sa) = sa_num_outports sa"
  "sa_num_vcs (put_bid i b sa) = sa_num_vcs sa" "sa_vc_per_vnet (put_bid i b sa) = sa_vc_per_vnet sa"
  "sa_round_robin_inport (put_bid i b sa) = sa_round_robin_inport sa"
  by (cases b; auto)+

lemma put_bid_ok:
  assumes "sa_ok sa" "bid_ok sa b" "0 \<le> i" "i < sa_num_inports sa"
  shows "sa_ok (put_bid i b sa)"
proof (cases b)
  case (Some vo)
  then obtain vc o' where "b = Some (vc, o')" by (cases vo) simp
  then show ?thesis using assms wrap_next_range [of vc "sa_num_vcs sa"]
    by (auto simp: sa_ok_def bid_ok_def matrix_put_entry dest!: set_update_subset_insert [THEN subsetD])
qed (use assms in simp)

lemma put_bid_entries:
  assumes "sa_ok sa" "bid_ok sa b" "0 \<le> i" "i < sa_num_inports sa" "0 \<le> p" "p < sa_num_outports sa" "0 \<le> q" "q < sa_num_inports sa"
  shows "entry p q (sa_port_requests (put_bid i b sa)) \<longleftrightarrow> q = i \<and> (\<exists>vc. b = Some (vc, p)) \<or> entry p q (sa_port_requests sa)"
    "entry p q (sa_vc_winners (put_bid i b sa)) = (if q = i \<and> (\<exists>vc. b = Some (vc, p)) then fst (the b) else entry p q (sa_vc_winners sa))"
    "sa_round_robin_invc (put_bid i b sa) ! nat q = (if q = i \<and> b \<noteq> None then wrap_next (sa_num_vcs sa) (fst (the b)) else sa_round_robin_invc sa ! nat q)"
proof (atomize (full), cases b)
  case (Some vo)
  then obtain vc o' where b: "b = Some (vc, o')" by (cases vo) simp
  have m: "matrix (sa_num_outports sa) (sa_num_inports sa) (sa_port_requests sa)"
      "matrix (sa_num_outports sa) (sa_num_inports sa) (sa_vc_winners sa)"
      "nat i < length (sa_round_robin_invc sa)" "0 \<le> o'" "o' < sa_num_outports sa"
    using assms(1-4) b by (simp_all add: sa_ok_def bid_ok_def)
  note e = entry_put_entry [OF m(1,4,5) assms(3-8)] entry_put_entry [OF m(2,4,5) assms(3-8)]
  show "(entry p q (sa_port_requests (put_bid i b sa)) \<longleftrightarrow> q = i \<and> (\<exists>vc. b = Some (vc, p)) \<or> entry p q (sa_port_requests sa)) \<and>
    entry p q (sa_vc_winners (put_bid i b sa)) = (if q = i \<and> (\<exists>vc. b = Some (vc, p)) then fst (the b) else entry p q (sa_vc_winners sa)) \<and>
    sa_round_robin_invc (put_bid i b sa) ! nat q = (if q = i \<and> b \<noteq> None then wrap_next (sa_num_vcs sa) (fst (the b)) else sa_round_robin_invc sa ! nat q)"
    unfolding b put_bid.simps using m(3) assms(3,7) by (auto simp: e nth_list_update eq_nat_nat_iff)
qed simp

lemma first_bid_mem: "first_bid w vcs = Inr (Some (vc, o')) \<Longrightarrow> vc \<in> set vcs \<and> w vc = Inr (Some o')"
  by (induction vcs) (auto simp: bindR_Inr_iff split: option.splits)

lemma arbitrate_inport_put:
  assumes sh: "sa_shape rt" and i: "0 \<le> i" "i < sa_num_inports (rt_sa rt)"
    and r: "arbitrate_inport now i rt = Inr rt'"
  shows "\<exists>b. sa_bid now rt i = Inr b \<and> bid_ok (rt_sa rt) b \<and> rt' = rt\<lparr>rt_sa := put_bid i b (rt_sa rt)\<rparr>"
proof -
  let ?sa = "rt_sa rt" and ?p = "sa_round_robin_invc (rt_sa rt) ! nat i"
  have ok: "sa_ok ?sa" using sh by (simp add: sa_shape_def)
  have len: "nat i < length (sa_round_robin_invc ?sa)" using ok i by (simp add: sa_ok_def)
  then have p: "0 \<le> ?p" "?p < sa_num_vcs ?sa" using ok by (auto simp: sa_ok_def)
  have eq: "arbitrate_inport now i rt = bindR (sa_bid now rt i) (\<lambda>r.
        case r of None \<Rightarrow> Inr rt
        | Some (invc, outport) \<Rightarrow>
            bindR (vec_modify outport (vec_put i True) (sa_port_requests ?sa)) (\<lambda>reqs.
            bindR (vec_modify outport (vec_put i invc) (sa_vc_winners ?sa)) (\<lambda>winners.
            bindR (vec_put i (wrap_next (sa_num_vcs ?sa) invc) (sa_round_robin_invc ?sa)) (\<lambda>rr.
              Inr (rt\<lparr>rt_sa := ?sa\<lparr>sa_port_requests := reqs, sa_vc_winners := winners,
                                 sa_round_robin_invc := rr\<rparr>\<rparr>)))))"
    unfolding arbitrate_inport_def Let_def vec_at_in [OF i(1) len] bindR_simps scan_invcs_bid [OF p refl] by (rule refl)
  obtain b where b: "sa_bid now rt i = Inr b" using r unfolding eq bindR_Inr_iff by blast
  note r' = r [unfolded eq b bindR_simps]
  show ?thesis
  proof (cases b)
    case None
    then show ?thesis using r' b by (simp add: bid_ok_def)
  next
    case (Some vo)
    then obtain vc o' where vo: "b = Some (vc, o')" by (cases vo) simp
    obtain reqs winners rr where q: "vec_modify o' (vec_put i True) (sa_port_requests ?sa) = Inr reqs"
        "vec_modify o' (vec_put i vc) (sa_vc_winners ?sa) = Inr winners"
        "vec_put i (wrap_next (sa_num_vcs ?sa) vc) (sa_round_robin_invc ?sa) = Inr rr"
        "rt' = rt\<lparr>rt_sa := ?sa\<lparr>sa_port_requests := reqs, sa_vc_winners := winners, sa_round_robin_invc := rr\<rparr>\<rparr>"
      using r' by (auto simp: vo bindR_Inr_iff)
    have m: "matrix (sa_num_outports ?sa) (sa_num_inports ?sa) (sa_port_requests ?sa)"
        "matrix (sa_num_outports ?sa) (sa_num_inports ?sa) (sa_vc_winners ?sa)"
      using ok by (simp_all add: sa_ok_def)
    note e = vec_modify_entry [OF m(1) q(1)] vec_modify_entry [OF m(2) q(2)]
    have "vc \<in> {0..<sa_num_vcs ?sa}"
      using first_bid_mem [OF b [unfolded vo sa_bid_def]] set_rotation [OF p] by simp
    then have "bid_ok ?sa b" using e by (simp add: bid_ok_def vo)
    moreover have "rr = (sa_round_robin_invc ?sa)[nat i := wrap_next (sa_num_vcs ?sa) vc]" using q(3) by (simp add: vec_put_Inr_iff)
    then have "rt' = rt\<lparr>rt_sa := put_bid i b ?sa\<rparr>" unfolding q(4) vo put_bid.simps e(1) e(6) by simp
    ultimately show ?thesis using b by blast
  qed
qed

lemma sa_bid_cong:
  assumes "sa_round_robin_invc sa ! nat j = sa_round_robin_invc (rt_sa rt) ! nat j" "sa_num_vcs sa = sa_num_vcs (rt_sa rt)"
    "sa_vc_per_vnet sa = sa_vc_per_vnet (rt_sa rt)"
  shows "sa_bid now (rt\<lparr>rt_sa := sa\<rparr>) j = sa_bid now rt j"
proof -
  have "wants now (rt\<lparr>rt_sa := sa\<rparr>) = wants now rt" by (rule wants_cong) (use assms in simp_all)
  then show ?thesis using assms by (simp add: sa_bid_def)
qed

definition bids_of :: "cycles \<Rightarrow> Router \<Rightarrow> int \<Rightarrow> (int \<times> int) option" where
  "bids_of now rt i = (case sa_bid now rt i of Inl _ \<Rightarrow> None | Inr b \<Rightarrow> b)"

lemma sa_shape_put_bid:
  assumes "sa_shape rt" "bid_ok (rt_sa rt) b" "0 \<le> i" "i < sa_num_inports (rt_sa rt)"
  shows "sa_shape (rt\<lparr>rt_sa := put_bid i b (rt_sa rt)\<rparr>)"
  using assms put_bid_ok by (simp add: sa_shape_def)

lemma inports_fold:
  assumes "sa_shape rt" "distinct is" "set is \<subseteq> {0..<sa_num_inports (rt_sa rt)}"
    "foldR (arbitrate_inport now) is rt = Inr rt'"
  shows "rt' = rt\<lparr>rt_sa := fold (\<lambda>i. put_bid i (bids_of now rt i)) is (rt_sa rt)\<rparr>
     \<and> (\<forall>i \<in> set is. sa_bid now rt i = Inr (bids_of now rt i) \<and> bid_ok (rt_sa rt) (bids_of now rt i))"
  using assms
proof (induction "is" arbitrary: rt)
  case (Cons i "is")
  let ?sa = "rt_sa rt"
  have i: "0 \<le> i" "i < sa_num_inports ?sa" using Cons.prems(3) by simp_all
  obtain rt1 where rt1: "arbitrate_inport now i rt = Inr rt1" "foldR (arbitrate_inport now) is rt1 = Inr rt'"
    using Cons.prems(4) by (auto simp: bindR_Inr_iff)
  obtain b where b: "sa_bid now rt i = Inr b" "bid_ok ?sa b" "rt1 = rt\<lparr>rt_sa := put_bid i b ?sa\<rparr>"
    using arbitrate_inport_put [OF Cons.prems(1) i rt1(1)] by blast
  have bi: "bids_of now rt i = b" using b(1) by (simp add: bids_of_def)
  have same: "sa_bid now rt1 j = sa_bid now rt j" if j: "j \<in> set is" for j
    unfolding b(3)
  proof (rule sa_bid_cong)
    have "j \<noteq> i" "0 \<le> j" "j < sa_num_inports ?sa" using j Cons.prems(2,3) by auto
    then show "sa_round_robin_invc (put_bid i b ?sa) ! nat j = sa_round_robin_invc (rt_sa rt) ! nat j"
      using i by (cases b) (auto simp: nth_list_update eq_nat_nat_iff)
  qed simp_all
  then have bids: "bids_of now rt1 j = bids_of now rt j" if "j \<in> set is" for j using that by (simp add: bids_of_def)
  have "sa_shape rt1" using sa_shape_put_bid [OF Cons.prems(1) b(2) i] b(3) by simp
  then have IH: "rt' = rt1\<lparr>rt_sa := fold (\<lambda>i. put_bid i (bids_of now rt1 i)) is (rt_sa rt1)\<rparr>
     \<and> (\<forall>i \<in> set is. sa_bid now rt1 i = Inr (bids_of now rt1 i) \<and> bid_ok (rt_sa rt1) (bids_of now rt1 i))"
    using Cons.IH [OF _ _ _ rt1(2)] Cons.prems(2,3) b(3) by simp
  have "fold (\<lambda>i. put_bid i (bids_of now rt1 i)) is (rt_sa rt1) = fold (\<lambda>i. put_bid i (bids_of now rt i)) is (rt_sa rt1)"
    by (rule fold_cong) (use bids in simp_all)
  then show ?case using IH b bids same bi by (simp add: bid_ok_def cong: option.case_cong)
qed simp

lemma fold_put_bid:
  assumes "sa_ok sa" "set is \<subseteq> {0..<sa_num_inports sa}" "\<And>i. i \<in> set is \<Longrightarrow> bid_ok sa (bids i)"
  defines "sa' \<equiv> fold (\<lambda>i. put_bid i (bids i)) is sa"
  shows "sa_ok sa' \<and> sa_num_inports sa' = sa_num_inports sa \<and> sa_num_outports sa' = sa_num_outports sa
     \<and> sa_num_vcs sa' = sa_num_vcs sa \<and> sa_vc_per_vnet sa' = sa_vc_per_vnet sa \<and> sa_round_robin_inport sa' = sa_round_robin_inport sa
     \<and> (\<forall>p q. 0 \<le> p \<longrightarrow> p < sa_num_outports sa \<longrightarrow> 0 \<le> q \<longrightarrow> q < sa_num_inports sa \<longrightarrow>
         (entry p q (sa_port_requests sa') \<longleftrightarrow> q \<in> set is \<and> (\<exists>vc. bids q = Some (vc, p)) \<or> entry p q (sa_port_requests sa))
         \<and> entry p q (sa_vc_winners sa') =
             (if q \<in> set is \<and> (\<exists>vc. bids q = Some (vc, p)) then fst (the (bids q)) else entry p q (sa_vc_winners sa)))"
  using assms(1-3) unfolding sa'_def
proof (induction "is" arbitrary: sa)
  case (Cons i "is")
  let ?sa = "put_bid i (bids i) sa"
  have i: "0 \<le> i" "i < sa_num_inports sa" "bid_ok sa (bids i)" using Cons.prems by auto
  have "bid_ok ?sa b = bid_ok sa b" for b by (simp add: bid_ok_def cong: option.case_cong)
  then have IH: "\<And>j. j \<in> set is \<Longrightarrow> bid_ok ?sa (bids j)" "set is \<subseteq> {0..<sa_num_inports ?sa}" "sa_ok ?sa"
    using Cons.prems put_bid_ok [OF Cons.prems(1) i(3,1,2)] by simp_all
  note e = put_bid_entries [OF Cons.prems(1) i(3,1,2)]
  from Cons.IH [OF IH(3,2,1)] show ?case by (simp add: e) blast
qed simp

section \<open>The second stage: grants\<close>

text \<open>What a grant does to the switch buffer of the input port: the first flit of the winning channel enters it, with
  its output port and the channel of the next router.\<close>

definition sent :: "cycles \<Rightarrow> int \<Rightarrow> int \<Rightarrow> InputUnit \<Rightarrow> flitBuffer \<Rightarrow> flitBuffer \<Rightarrow> bool" where
  "sent now invc outport iu b b' \<longleftrightarrow>
     (\<exists>q f outvc. getTopFlit (vc_inputBuffer (iu_virtualChannels iu ! nat invc)) = Inr (q, f)
        \<and> b' = fb_insert (advance_stage STAGE_ST now (f\<lparr>f_outport := outport, f_vc := outvc\<rparr>)) b)"

lemma getInputUnit_Inr: "getInputUnit rt i = Inr iu \<longleftrightarrow> 0 \<le> i \<and> i < int (length (rt_input_unit rt)) \<and> iu = rt_input_unit rt ! nat i"
  by (auto simp: getInputUnit_def bindR_Inr_iff)

lemma getOutputUnit_Inr: "getOutputUnit rt i = Inr ou \<longleftrightarrow> 0 \<le> i \<and> i < int (length (rt_output_unit rt)) \<and> ou = rt_output_unit rt ! nat i"
  by (auto simp: getOutputUnit_def bindR_Inr_iff)

lemma put_fields [simp]:
  "rt_sa (put_input i iu rt) = rt_sa rt" "rt_switchBuffers (put_input i iu rt) = rt_switchBuffers rt"
  "rt_output_unit (put_input i iu rt) = rt_output_unit rt" "rt_net (put_input i iu rt) = rt_net rt"
  "rt_input_unit (put_input i iu rt) = (rt_input_unit rt)[nat i := iu]"
  "rt_sa (put_output i ou rt) = rt_sa rt" "rt_switchBuffers (put_output i ou rt) = rt_switchBuffers rt"
  "rt_input_unit (put_output i ou rt) = rt_input_unit rt" "rt_net (put_output i ou rt) = rt_net rt"
  "rt_output_unit (put_output i ou rt) = (rt_output_unit rt)[nat i := ou]"
  "rt_sa (schedule_wakeups ws rt) = rt_sa rt" "rt_switchBuffers (schedule_wakeups ws rt) = rt_switchBuffers rt"
  "rt_input_unit (schedule_wakeups ws rt) = rt_input_unit rt" "rt_output_unit (schedule_wakeups ws rt) = rt_output_unit rt"
  "rt_net (schedule_wakeups ws rt) = rt_net rt"
  by (simp_all add: put_input_def put_output_def schedule_wakeups_def)

lemma vc_allocate_result:
  assumes "vc_allocate now o' i invc rt = Inr (rt1, outvc)"
  obtains iu1 ou1 where "rt1 = put_input i iu1 (put_output o' ou1 rt)" "0 \<le> i" "i < int (length (rt_input_unit rt))"
    "vc_inputBuffer (iu_virtualChannels iu1 ! nat invc) = vc_inputBuffer (iu_virtualChannels (rt_input_unit rt ! nat i) ! nat invc)"
proof -
  obtain iu1 ou1 where r: "grant_outvc invc outvc (rt_input_unit rt ! nat i) = Inr iu1" "0 \<le> i" "i < int (length (rt_input_unit rt))"
      "rt1 = put_input i iu1 (put_output o' ou1 rt)"
    using assms by (auto simp: vc_allocate_def bindR_Inr_iff getInputUnit_Inr split: prod.splits)
  have "vc_inputBuffer (iu_virtualChannels iu1 ! nat invc) = vc_inputBuffer (iu_virtualChannels (rt_input_unit rt ! nat i) ! nat invc)"
    using r(1) by (auto simp: grant_outvc_def bindR_Inr_iff vec_modify_Inr_iff)
  then show ?thesis using that r(2-4) by blast
qed

lemma grant_flit_result:
  assumes g: "grant_flit now o' i invc outvc rt = Inr rt'"
  shows "rt_sa rt' = rt_sa rt" "length (rt_input_unit rt') = length (rt_input_unit rt)"
    "length (rt_output_unit rt') = length (rt_output_unit rt)" "length (rt_switchBuffers rt') = length (rt_switchBuffers rt)"
    "\<And>j. 0 \<le> j \<Longrightarrow> j \<noteq> i \<Longrightarrow> rt_input_unit rt' ! nat j = rt_input_unit rt ! nat j \<and> rt_switchBuffers rt' ! nat j = rt_switchBuffers rt ! nat j"
    "sent now invc o' (rt_input_unit rt ! nat i) (rt_switchBuffers rt ! nat i) (rt_switchBuffers rt' ! nat i)"
proof -
  obtain iu2 f0 ou2 bufs iu3 ws where r: "0 \<le> i" "i < int (length (rt_input_unit rt))"
      "iu_getTopFlit invc (rt_input_unit rt ! nat i) = Inr (iu2, f0)"
      "vec_modify i (\<lambda>b. Inr (fb_insert (advance_stage STAGE_ST now (f0\<lparr>f_outport := o', f_vc := outvc\<rparr>)) b)) (rt_switchBuffers rt) = Inr bufs"
      "rt' = schedule_wakeups ws (put_input i iu3 (put_output o' ou2 rt))\<lparr>rt_switchBuffers := bufs\<rparr>"
    using g unfolding grant_flit_def by (auto simp: bindR_Inr_iff getInputUnit_Inr Let_def)
  show "rt_sa rt' = rt_sa rt" "length (rt_input_unit rt') = length (rt_input_unit rt)"
    "length (rt_output_unit rt') = length (rt_output_unit rt)" "length (rt_switchBuffers rt') = length (rt_switchBuffers rt)"
    using r(4) unfolding r(5) by (auto simp: vec_modify_Inr_iff)
  show "rt_input_unit rt' ! nat j = rt_input_unit rt ! nat j \<and> rt_switchBuffers rt' ! nat j = rt_switchBuffers rt ! nat j"
    if "0 \<le> j" "j \<noteq> i" for j
    using r(1,4) that unfolding r(5) by (auto simp: vec_modify_Inr_iff eq_nat_nat_iff)
  obtain q where "getTopFlit (vc_inputBuffer (iu_virtualChannels (rt_input_unit rt ! nat i) ! nat invc)) = Inr (q, f0)"
    using r(3) by (auto simp: iu_getTopFlit_def vc_getTopFlit_def bindR_Inr_iff vec_at_Inr_iff)
  then show "sent now invc o' (rt_input_unit rt ! nat i) (rt_switchBuffers rt ! nat i) (rt_switchBuffers rt' ! nat i)"
    using r(4) unfolding r(5) sent_def by (auto simp: vec_modify_Inr_iff)
qed

lemma grant_result:
  assumes g: "grant now o' i rt = Inr rt'"
  defines "invc \<equiv> entry o' i (sa_vc_winners (rt_sa rt))"
  shows "rt_sa rt' = rt_sa rt" "length (rt_input_unit rt') = length (rt_input_unit rt)"
    "length (rt_output_unit rt') = length (rt_output_unit rt)" "length (rt_switchBuffers rt') = length (rt_switchBuffers rt)"
    "\<And>j. 0 \<le> j \<Longrightarrow> j \<noteq> i \<Longrightarrow> rt_input_unit rt' ! nat j = rt_input_unit rt ! nat j \<and> rt_switchBuffers rt' ! nat j = rt_switchBuffers rt ! nat j"
    "sent now invc o' (rt_input_unit rt ! nat i) (rt_switchBuffers rt ! nat i) (rt_switchBuffers rt' ! nat i)"
proof -
  obtain outvc0 rt1 outvc where a: "(if outvc0 = - 1 then vc_allocate now o' i invc rt else Inr (rt, outvc0)) = Inr (rt1, outvc)"
      and f: "grant_flit now o' i invc outvc rt1 = Inr rt'"
    using g unfolding grant_def bindR_Inr_iff vec_at_Inr_iff invc_def entry_def by (auto simp del: if_split split del: if_split)
  have "rt1 = rt \<or> vc_allocate now o' i invc rt = Inr (rt1, outvc)" using a by (auto split: if_splits)
  then have rt1: "rt_sa rt1 = rt_sa rt" "length (rt_input_unit rt1) = length (rt_input_unit rt)"
      "length (rt_output_unit rt1) = length (rt_output_unit rt)" "rt_switchBuffers rt1 = rt_switchBuffers rt"
      "vc_inputBuffer (iu_virtualChannels (rt_input_unit rt1 ! nat i) ! nat invc) = vc_inputBuffer (iu_virtualChannels (rt_input_unit rt ! nat i) ! nat invc)"
      "\<And>j. 0 \<le> j \<Longrightarrow> j \<noteq> i \<Longrightarrow> rt_input_unit rt1 ! nat j = rt_input_unit rt ! nat j"
    by (auto elim!: vc_allocate_result simp: eq_nat_nat_iff)
  note r = grant_flit_result [OF f]
  show "rt_sa rt' = rt_sa rt" "length (rt_input_unit rt') = length (rt_input_unit rt)"
    "length (rt_output_unit rt') = length (rt_output_unit rt)" "length (rt_switchBuffers rt') = length (rt_switchBuffers rt)"
    using r(1-4) rt1 by simp_all
  show "rt_input_unit rt' ! nat j = rt_input_unit rt ! nat j \<and> rt_switchBuffers rt' ! nat j = rt_switchBuffers rt ! nat j"
    if "0 \<le> j" "j \<noteq> i" for j using r(5) [OF that] rt1 that by simp
  show "sent now invc o' (rt_input_unit rt ! nat i) (rt_switchBuffers rt ! nat i) (rt_switchBuffers rt' ! nat i)"
    using r(6) rt1(4,5) by (simp add: sent_def)
qed

definition sa_win :: "Router \<Rightarrow> int \<Rightarrow> int option" where
  "sa_win rt o' = find (\<lambda>i. entry o' i (sa_port_requests (rt_sa rt)))
     (rotation (sa_num_inports (rt_sa rt)) (sa_round_robin_inport (rt_sa rt) ! nat o'))"

lemma sa_win_mem:
  assumes "sa_ok (rt_sa rt)" "0 \<le> o'" "o' < sa_num_outports (rt_sa rt)" "sa_win rt o' = Some i"
  shows "0 \<le> i" "i < sa_num_inports (rt_sa rt)" "entry o' i (sa_port_requests (rt_sa rt))"
proof -
  have "nat o' < length (sa_round_robin_inport (rt_sa rt))" using assms(1-3) by (simp add: sa_ok_def)
  then have p: "0 \<le> sa_round_robin_inport (rt_sa rt) ! nat o'" "sa_round_robin_inport (rt_sa rt) ! nat o' < sa_num_inports (rt_sa rt)"
    using assms(1) by (auto simp: sa_ok_def)
  have "i \<in> set (rotation (sa_num_inports (rt_sa rt)) (sa_round_robin_inport (rt_sa rt) ! nat o'))"
      "entry o' i (sa_port_requests (rt_sa rt))"
    using assms(4) unfolding sa_win_def find_Some_iff by auto
  then show "0 \<le> i" "i < sa_num_inports (rt_sa rt)" "entry o' i (sa_port_requests (rt_sa rt))"
    using set_rotation [OF p] by auto
qed

text \<open>The allocator after output port \<open>o'\<close> has been granted.\<close>

fun put_win :: "int \<Rightarrow> int option \<Rightarrow> SwitchAllocator \<Rightarrow> SwitchAllocator" where
  "put_win o' None sa = sa"
| "put_win o' (Some i) sa =
     sa\<lparr>sa_port_requests := put_entry o' i False (sa_port_requests sa),
        sa_round_robin_inport := (sa_round_robin_inport sa)[nat o' := wrap_next (sa_num_inports sa) i]\<rparr>"

lemma put_win_fields [simp]:
  "sa_num_inports (put_win o' w sa) = sa_num_inports sa" "sa_num_outports (put_win o' w sa) = sa_num_outports sa"
  "sa_num_vcs (put_win o' w sa) = sa_num_vcs sa" "sa_vc_winners (put_win o' w sa) = sa_vc_winners sa"
  "sa_round_robin_invc (put_win o' w sa) = sa_round_robin_invc sa"
  by (cases w; simp)+

lemma put_win_ok:
  assumes "sa_ok sa" "0 \<le> o'" "o' < sa_num_outports sa" "\<And>i. w = Some i \<Longrightarrow> 0 \<le> i \<and> i < sa_num_inports sa"
  shows "sa_ok (put_win o' w sa)"
  using assms wrap_next_range
  by (cases w) (auto simp: sa_ok_def matrix_put_entry dest!: set_update_subset_insert [THEN subsetD])

lemma put_win_other:
  assumes "sa_ok sa" "0 \<le> o'" "o' < sa_num_outports sa" "\<And>i. w = Some i \<Longrightarrow> 0 \<le> i \<and> i < sa_num_inports sa" "0 \<le> p" "p < sa_num_outports sa" "p \<noteq> o'"
  shows "sa_round_robin_inport (put_win o' w sa) ! nat p = sa_round_robin_inport sa ! nat p"
    "entry p q (sa_port_requests (put_win o' w sa)) = entry p q (sa_port_requests sa)"
  using assms by (cases w; auto simp: entry_def put_entry_def eq_nat_nat_iff)+

text \<open>One step of the second stage.\<close>

lemma arbitrate_outport_result:
  assumes sh: "sa_shape rt" and o': "0 \<le> o'" "o' < sa_num_outports (rt_sa rt)"
    and r: "arbitrate_outport now o' rt = Inr rt'"
  shows "rt_sa rt' = put_win o' (sa_win rt o') (rt_sa rt)" "sa_shape rt'"
    "\<And>j. 0 \<le> j \<Longrightarrow> sa_win rt o' \<noteq> Some j \<Longrightarrow>
       rt_input_unit rt' ! nat j = rt_input_unit rt ! nat j \<and> rt_switchBuffers rt' ! nat j = rt_switchBuffers rt ! nat j"
    "\<And>i. sa_win rt o' = Some i \<Longrightarrow> sent now (entry o' i (sa_vc_winners (rt_sa rt))) o'
       (rt_input_unit rt ! nat i) (rt_switchBuffers rt ! nat i) (rt_switchBuffers rt' ! nat i)"
proof -
  let ?sa = "rt_sa rt" and ?p = "sa_round_robin_inport (rt_sa rt) ! nat o'" and ?row = "sa_port_requests (rt_sa rt) ! nat o'"
  have ok: "sa_ok ?sa" using sh by (simp add: sa_shape_def)
  have len: "nat o' < length (sa_round_robin_inport ?sa)" "nat o' < length (sa_port_requests ?sa)" "length ?row = nat (sa_num_inports ?sa)"
    using ok o' by (auto simp: sa_ok_def matrix_def)
  have p: "0 \<le> ?p" "?p < sa_num_inports ?sa" using ok len(1) by (auto simp: sa_ok_def)
  have "scan_inports ?row (sa_num_inports ?sa) (nat (sa_num_inports ?sa)) ?p = Inr (sa_win rt o')"
    using scan_inports_rotation [OF len(3) p] by (simp add: sa_win_def entry_def)
  note r' = r [unfolded arbitrate_outport_def Let_def vec_at_in [OF o'(1) len(1)] vec_at_in [OF o'(1) len(2)] bindR_simps this]
  have "rt_sa rt' = put_win o' (sa_win rt o') ?sa \<and> sa_shape rt' \<and>
      (\<forall>j. 0 \<le> j \<longrightarrow> sa_win rt o' \<noteq> Some j \<longrightarrow>
         rt_input_unit rt' ! nat j = rt_input_unit rt ! nat j \<and> rt_switchBuffers rt' ! nat j = rt_switchBuffers rt ! nat j) \<and>
      (\<forall>i. sa_win rt o' = Some i \<longrightarrow> sent now (entry o' i (sa_vc_winners ?sa)) o'
         (rt_input_unit rt ! nat i) (rt_switchBuffers rt ! nat i) (rt_switchBuffers rt' ! nat i))"
  proof (cases "sa_win rt o'")
    case None
    then show ?thesis using r' sh by simp
  next
    case (Some i)
    note w = sa_win_mem [OF ok o' Some]
    obtain rt1 reqs rr where q: "grant now o' i rt = Inr rt1"
        "vec_modify o' (vec_put i False) (sa_port_requests ?sa) = Inr reqs"
        "vec_put o' (wrap_next (sa_num_inports ?sa) i) (sa_round_robin_inport ?sa) = Inr rr"
        "rt' = rt1\<lparr>rt_sa := ?sa\<lparr>sa_port_requests := reqs, sa_round_robin_inport := rr\<rparr>\<rparr>"
      using r' by (auto simp: Some bindR_Inr_iff)
    have m: "matrix (sa_num_outports ?sa) (sa_num_inports ?sa) (sa_port_requests ?sa)" using ok by (simp add: sa_ok_def)
    have sa': "rt_sa rt' = put_win o' (sa_win rt o') ?sa"
      using q(3) vec_modify_entry(1) [OF m q(2)] by (simp add: q(4) Some vec_put_Inr_iff)
    have "sa_ok (put_win o' (sa_win rt o') ?sa)" by (rule put_win_ok [OF ok o']) (use w Some in simp)
    then have "sa_shape rt'" using sh sa' grant_result(2-4) [OF q(1)] by (simp add: sa_shape_def q(4))
    then show ?thesis using sa' grant_result(5,6) [OF q(1)] by (auto simp: q(4) Some)
  qed
  then show "rt_sa rt' = put_win o' (sa_win rt o') (rt_sa rt)" "sa_shape rt'"
    "\<And>j. 0 \<le> j \<Longrightarrow> sa_win rt o' \<noteq> Some j \<Longrightarrow>
       rt_input_unit rt' ! nat j = rt_input_unit rt ! nat j \<and> rt_switchBuffers rt' ! nat j = rt_switchBuffers rt ! nat j"
    "\<And>i. sa_win rt o' = Some i \<Longrightarrow> sent now (entry o' i (sa_vc_winners (rt_sa rt))) o'
       (rt_input_unit rt ! nat i) (rt_switchBuffers rt ! nat i) (rt_switchBuffers rt' ! nat i)"
    by blast+
qed

lemma sa_win_cong:
  assumes "sa_num_inports (rt_sa rt') = sa_num_inports (rt_sa rt)"
    "sa_round_robin_inport (rt_sa rt') ! nat p = sa_round_robin_inport (rt_sa rt) ! nat p"
    "\<And>q. entry p q (sa_port_requests (rt_sa rt')) = entry p q (sa_port_requests (rt_sa rt))"
  shows "sa_win rt' p = sa_win rt p"
  using assms by (simp add: sa_win_def)

text \<open>What the second stage has done for the output ports \<open>os\<close>.\<close>

definition stage2 :: "cycles \<Rightarrow> int list \<Rightarrow> Router \<Rightarrow> Router \<Rightarrow> bool" where
  "stage2 now os rt rt' \<longleftrightarrow> sa_shape rt' \<and> sa_num_inports (rt_sa rt') = sa_num_inports (rt_sa rt) \<and> sa_num_outports (rt_sa rt') = sa_num_outports (rt_sa rt)
     \<and> sa_num_vcs (rt_sa rt') = sa_num_vcs (rt_sa rt) \<and> sa_round_robin_invc (rt_sa rt') = sa_round_robin_invc (rt_sa rt)
     \<and> (\<forall>p. 0 \<le> p \<longrightarrow> p < sa_num_outports (rt_sa rt) \<longrightarrow> sa_round_robin_inport (rt_sa rt') ! nat p =
          (case (if p \<in> set os then sa_win rt p else None) of None \<Rightarrow> sa_round_robin_inport (rt_sa rt) ! nat p
           | Some i \<Rightarrow> wrap_next (sa_num_inports (rt_sa rt)) i))
     \<and> (\<forall>p i. p \<in> set os \<longrightarrow> sa_win rt p = Some i \<longrightarrow> sent now (entry p i (sa_vc_winners (rt_sa rt))) p
          (rt_input_unit rt ! nat i) (rt_switchBuffers rt ! nat i) (rt_switchBuffers rt' ! nat i))
     \<and> (\<forall>j. 0 \<le> j \<longrightarrow> (\<forall>p \<in> set os. sa_win rt p \<noteq> Some j) \<longrightarrow> rt_switchBuffers rt' ! nat j = rt_switchBuffers rt ! nat j)"

lemma stage2D:
  assumes "stage2 now os rt rt'"
  shows "sa_shape rt'" "sa_num_inports (rt_sa rt') = sa_num_inports (rt_sa rt)" "sa_num_outports (rt_sa rt') = sa_num_outports (rt_sa rt)"
    "sa_num_vcs (rt_sa rt') = sa_num_vcs (rt_sa rt)" "sa_round_robin_invc (rt_sa rt') = sa_round_robin_invc (rt_sa rt)"
    "\<And>p. 0 \<le> p \<Longrightarrow> p < sa_num_outports (rt_sa rt) \<Longrightarrow> sa_round_robin_inport (rt_sa rt') ! nat p =
          (case (if p \<in> set os then sa_win rt p else None) of None \<Rightarrow> sa_round_robin_inport (rt_sa rt) ! nat p
           | Some i \<Rightarrow> wrap_next (sa_num_inports (rt_sa rt)) i)"
    "\<And>p i. p \<in> set os \<Longrightarrow> sa_win rt p = Some i \<Longrightarrow> sent now (entry p i (sa_vc_winners (rt_sa rt))) p
          (rt_input_unit rt ! nat i) (rt_switchBuffers rt ! nat i) (rt_switchBuffers rt' ! nat i)"
    "\<And>j. 0 \<le> j \<Longrightarrow> (\<And>p. p \<in> set os \<Longrightarrow> sa_win rt p \<noteq> Some j) \<Longrightarrow> rt_switchBuffers rt' ! nat j = rt_switchBuffers rt ! nat j"
  using assms unfolding stage2_def by simp_all

lemma outports_fold:
  assumes "sa_shape rt" "distinct os" "set os \<subseteq> {0..<sa_num_outports (rt_sa rt)}"
    "\<And>p p' i. p \<in> set os \<Longrightarrow> p' \<in> set os \<Longrightarrow> sa_win rt p = Some i \<Longrightarrow> sa_win rt p' = Some i \<Longrightarrow> p = p'"
    "foldR (arbitrate_outport now) os rt = Inr rt'"
  shows "stage2 now os rt rt'"
  using assms
proof (induction os arbitrary: rt)
  case (Cons o' os)
  let ?sa = "rt_sa rt"
  have o': "0 \<le> o'" "o' < sa_num_outports ?sa" using Cons.prems(3) by simp_all
  have ok: "sa_ok ?sa" using Cons.prems(1) by (simp add: sa_shape_def)
  obtain rt1 where rt1: "arbitrate_outport now o' rt = Inr rt1" "foldR (arbitrate_outport now) os rt1 = Inr rt'"
    using Cons.prems(5) by (auto simp: bindR_Inr_iff)
  note a = arbitrate_outport_result [OF Cons.prems(1) o' rt1(1)]
  have rng: "\<And>i. sa_win rt o' = Some i \<Longrightarrow> 0 \<le> i \<and> i < sa_num_inports ?sa" using sa_win_mem [OF ok o'] by blast
  note other = put_win_other [OF ok o' rng]
  have p: "0 \<le> p" "p < sa_num_outports ?sa" "p \<noteq> o'" if "p \<in> set os" for p using that Cons.prems(2,3) by auto
  have win: "sa_win rt1 p = sa_win rt p" if "p \<in> set os" for p
    by (rule sa_win_cong) (use other [OF _ p [OF that]] in \<open>simp_all add: a(1)\<close>)
  have single: "p = p'" if "p \<in> set os" "p' \<in> set os" "sa_win rt1 p = Some i" "sa_win rt1 p' = Some i" for p p' i
    using that win Cons.prems(4) [of p p' i] by simp
  have sub: "set os \<subseteq> {0..<sa_num_outports (rt_sa rt1)}" "distinct os" using Cons.prems(2,3) by (simp_all add: a(1))
  have IH: "stage2 now os rt1 rt'" by (rule Cons.IH [OF a(2) sub(2,1) _ rt1(2)]) (rule single)
  note d = stage2D [OF IH]
  have sep: "sa_win rt o' \<noteq> Some i" if "p \<in> set os" "sa_win rt p = Some i" for p i
    using Cons.prems(4) [of o' p i] that p(3) [OF that(1)] by fastforce
  have send: "sent now (entry p i (sa_vc_winners ?sa)) p (rt_input_unit rt ! nat i) (rt_switchBuffers rt ! nat i) (rt_switchBuffers rt' ! nat i)"
    if w: "p \<in> set (o' # os)" "sa_win rt p = Some i" for p i
  proof (cases "p \<in> set os")
    case True
    have i0: "0 \<le> i" by (rule sa_win_mem(1) [OF ok p(1,2) [OF True] w(2)])
    have "sent now (entry p i (sa_vc_winners (rt_sa rt1))) p (rt_input_unit rt1 ! nat i) (rt_switchBuffers rt1 ! nat i) (rt_switchBuffers rt' ! nat i)"
      by (rule d(7) [OF True]) (simp only: win [OF True] w(2))
    then show ?thesis using a(3) [OF i0 sep [OF True w(2)]] by (simp add: a(1))
  next
    case False
    then have o: "p = o'" "sa_win rt o' = Some i" using w by simp_all
    have "sa_win rt1 q \<noteq> Some i" if "q \<in> set os" for q using sep [OF that] o(2) win [OF that] by auto
    then have "rt_switchBuffers rt' ! nat i = rt_switchBuffers rt1 ! nat i" using d(8) rng [OF o(2)] by blast
    then show ?thesis using a(4) [OF o(2)] o(1) by simp
  qed
  have keep: "rt_switchBuffers rt' ! nat j = rt_switchBuffers rt ! nat j"
    if j: "0 \<le> j" "\<forall>p \<in> set (o' # os). sa_win rt p \<noteq> Some j" for j
  proof -
    have "rt_switchBuffers rt' ! nat j = rt_switchBuffers rt1 ! nat j" by (rule d(8) [OF j(1)]) (use j(2) win in simp)
    then show ?thesis using a(3) [OF j(1)] j(2) by simp
  qed
  have ptr: "sa_round_robin_inport (rt_sa rt') ! nat p =
      (case (if p \<in> set (o' # os) then sa_win rt p else None) of None \<Rightarrow> sa_round_robin_inport ?sa ! nat p
       | Some i \<Rightarrow> wrap_next (sa_num_inports ?sa) i)" if pr: "0 \<le> p" "p < sa_num_outports ?sa" for p
  proof -
    have e: "sa_round_robin_inport (rt_sa rt') ! nat p =
      (case (if p \<in> set os then sa_win rt1 p else None) of None \<Rightarrow> sa_round_robin_inport (rt_sa rt1) ! nat p
       | Some i \<Rightarrow> wrap_next (sa_num_inports (rt_sa rt1)) i)"
      using d(6) [OF pr(1)] pr(2) by (simp add: a(1))
    show ?thesis
    proof (cases "p = o'")
      case True
      then have "p \<notin> set os" using Cons.prems(2) by simp
      then show ?thesis using e True o' ok by (cases "sa_win rt o'") (simp_all add: sa_ok_def a(1))
    next
      case False
      have same: "sa_round_robin_inport (rt_sa rt1) ! nat p = sa_round_robin_inport ?sa ! nat p"
        unfolding a(1) by (rule put_win_other(1) [OF ok o' _ pr False]) (rule rng)
      have num: "sa_num_inports (rt_sa rt1) = sa_num_inports ?sa" by (simp add: a(1))
      show ?thesis using False by (cases "p \<in> set os"; cases "sa_win rt p") (simp_all add: e win same num)
    qed
  qed
  show ?case unfolding stage2_def using d(1-5) send keep ptr by (simp add: a(1))
qed (simp add: stage2_def)

section \<open>The whole allocation\<close>

definition no_requests :: "SwitchAllocator \<Rightarrow> bool" where
  "no_requests sa \<longleftrightarrow> (\<forall>row \<in> set (sa_port_requests sa). \<forall>b \<in> set row. \<not> b)"

text \<open>The input port an output port is granted to: the first one, from its pointer on, that bids for it.\<close>

definition sa_winner :: "cycles \<Rightarrow> Router \<Rightarrow> int \<Rightarrow> int option" where
  "sa_winner now rt outport =
     find (\<lambda>i. \<exists>vc. bids_of now rt i = Some (vc, outport))
       (rotation (sa_num_inports (rt_sa rt)) (sa_round_robin_inport (rt_sa rt) ! nat outport))"

lemma no_requests_entry:
  assumes "sa_ok sa" "no_requests sa" "0 \<le> p" "p < sa_num_outports sa" "0 \<le> q" "q < sa_num_inports sa"
  shows "\<not> entry p q (sa_port_requests sa)"
proof -
  have "nat p < length (sa_port_requests sa)" "nat q < length (sa_port_requests sa ! nat p)"
    using assms by (auto simp: sa_ok_def matrix_def)
  then have "sa_port_requests sa ! nat p \<in> set (sa_port_requests sa)"
      "sa_port_requests sa ! nat p ! nat q \<in> set (sa_port_requests sa ! nat p)" by simp_all
  then show ?thesis using assms(2) unfolding no_requests_def entry_def by blast
qed

lemma first_stage:
  assumes sh: "sa_shape rt" and nr: "no_requests (rt_sa rt)" and r: "arbitrate_inports now rt = Inr rt1"
  shows "sa_shape rt1" "rt_input_unit rt1 = rt_input_unit rt" "rt_switchBuffers rt1 = rt_switchBuffers rt"
    "sa_num_inports (rt_sa rt1) = sa_num_inports (rt_sa rt)" "sa_num_outports (rt_sa rt1) = sa_num_outports (rt_sa rt)"
    "sa_round_robin_inport (rt_sa rt1) = sa_round_robin_inport (rt_sa rt)"
    "\<And>i. i \<in> {0..<sa_num_inports (rt_sa rt)} \<Longrightarrow> sa_bid now rt i = Inr (bids_of now rt i) \<and> bid_ok (rt_sa rt) (bids_of now rt i)"
    "\<And>p. p \<in> {0..<sa_num_outports (rt_sa rt)} \<Longrightarrow> sa_win rt1 p = sa_winner now rt p"
    "\<And>p i vc. p \<in> {0..<sa_num_outports (rt_sa rt)} \<Longrightarrow> i \<in> {0..<sa_num_inports (rt_sa rt)} \<Longrightarrow> bids_of now rt i = Some (vc, p) \<Longrightarrow>
       entry p i (sa_vc_winners (rt_sa rt1)) = vc"
proof -
  let ?sa = "rt_sa rt" and ?is = "[0 .. sa_num_inports (rt_sa rt) - 1]"
  have ok: "sa_ok ?sa" using sh by (simp add: sa_shape_def)
  have sub: "set ?is \<subseteq> {0..<sa_num_inports ?sa}" "set ?is = {0..<sa_num_inports ?sa}" by auto
  have f: "rt1 = rt\<lparr>rt_sa := fold (\<lambda>i. put_bid i (bids_of now rt i)) ?is ?sa\<rparr>"
      "\<And>i. i \<in> set ?is \<Longrightarrow> sa_bid now rt i = Inr (bids_of now rt i) \<and> bid_ok ?sa (bids_of now rt i)"
    using inports_fold [OF sh distinct_upto sub(1) r [unfolded arbitrate_inports_def]] by blast+
  have fp: "sa_ok (rt_sa rt1)" "sa_num_inports (rt_sa rt1) = sa_num_inports ?sa" "sa_num_outports (rt_sa rt1) = sa_num_outports ?sa"
      "sa_round_robin_inport (rt_sa rt1) = sa_round_robin_inport ?sa"
      "\<And>p q. 0 \<le> p \<Longrightarrow> p < sa_num_outports ?sa \<Longrightarrow> 0 \<le> q \<Longrightarrow> q < sa_num_inports ?sa \<Longrightarrow>
         (entry p q (sa_port_requests (rt_sa rt1)) \<longleftrightarrow> q \<in> set ?is \<and> (\<exists>vc. bids_of now rt q = Some (vc, p)) \<or> entry p q (sa_port_requests ?sa))
         \<and> entry p q (sa_vc_winners (rt_sa rt1)) =
             (if q \<in> set ?is \<and> (\<exists>vc. bids_of now rt q = Some (vc, p)) then fst (the (bids_of now rt q)) else entry p q (sa_vc_winners ?sa))"
    using fold_put_bid [OF ok sub(1), of "bids_of now rt"] f(2) unfolding f(1) by simp_all
  show "sa_shape rt1" using sh fp(1-3) unfolding sa_shape_def f(1) by simp
  show "rt_input_unit rt1 = rt_input_unit rt" "rt_switchBuffers rt1 = rt_switchBuffers rt" by (simp_all add: f(1))
  show "sa_num_inports (rt_sa rt1) = sa_num_inports ?sa" "sa_num_outports (rt_sa rt1) = sa_num_outports ?sa"
    "sa_round_robin_inport (rt_sa rt1) = sa_round_robin_inport ?sa" by (fact fp(2-4))+
  show "sa_bid now rt i = Inr (bids_of now rt i) \<and> bid_ok ?sa (bids_of now rt i)" if "i \<in> {0..<sa_num_inports ?sa}" for i
    using f(2) that sub(2) by blast
  show "sa_win rt1 p = sa_winner now rt p" if p: "p \<in> {0..<sa_num_outports ?sa}" for p
  proof -
    have "nat p < length (sa_round_robin_inport ?sa)" using ok p by (simp add: sa_ok_def)
    then have ptr: "0 \<le> sa_round_robin_inport ?sa ! nat p" "sa_round_robin_inport ?sa ! nat p < sa_num_inports ?sa"
      using ok by (auto simp: sa_ok_def)
    have "entry p q (sa_port_requests (rt_sa rt1)) \<longleftrightarrow> (\<exists>vc. bids_of now rt q = Some (vc, p))"
      if "q \<in> set (rotation (sa_num_inports ?sa) (sa_round_robin_inport ?sa ! nat p))" for q
      using fp(5) [of p q] that p no_requests_entry [OF ok nr, of p q] unfolding set_rotation [OF ptr] by auto
    then show ?thesis unfolding sa_win_def sa_winner_def fp(2,4) by (intro find_cong) auto
  qed
  show "entry p i (sa_vc_winners (rt_sa rt1)) = vc"
    if "p \<in> {0..<sa_num_outports ?sa}" "i \<in> {0..<sa_num_inports ?sa}" "bids_of now rt i = Some (vc, p)" for p i vc
    using fp(5) [of p i] that by auto
qed

section \<open>Properties\<close>



lemma sa_winner_bids: "sa_winner now rt p = Some i \<Longrightarrow> \<exists>vc. bids_of now rt i = Some (vc, p)"
  by (auto simp: sa_winner_def find_Some_iff)

text \<open>C11: The switch allocator computes the two round-robin choices it is described by. Let a wake-up of a router
  whose request vector is clear succeed. Then every input port has bid with the first channel, from its pointer on,
  that is ready and may send; every output port has been granted to the first input port, from its pointer on,
  that bid for it, and its pointer stands behind the winner; into the switch buffer of an input port one flit went,
  the first of the bidding channel, if its bid won, and none otherwise; and the request vector is clear again.\<close>

theorem switch_allocation:
  assumes "sa_shape rt" "no_requests (rt_sa rt)" "sa_wakeup now rt = Inr rt'"
  shows "sa_shape rt' \<and> no_requests (rt_sa rt')
     \<and> (\<forall>i \<in> {0..<sa_num_inports (rt_sa rt)}. sa_bid now rt i = Inr (bids_of now rt i))
     \<and> (\<forall>p \<in> {0..<sa_num_outports (rt_sa rt)}. sa_round_robin_inport (rt_sa rt') ! nat p =
          (case sa_winner now rt p of None \<Rightarrow> sa_round_robin_inport (rt_sa rt) ! nat p
           | Some i \<Rightarrow> wrap_next (sa_num_inports (rt_sa rt)) i))
     \<and> (\<forall>i \<in> {0..<sa_num_inports (rt_sa rt)}.
          case bids_of now rt i of
            None \<Rightarrow> rt_switchBuffers rt' ! nat i = rt_switchBuffers rt ! nat i
          | Some (vc, p) \<Rightarrow>
              if sa_winner now rt p = Some i
              then sent now vc p (rt_input_unit rt ! nat i) (rt_switchBuffers rt ! nat i) (rt_switchBuffers rt' ! nat i)
              else rt_switchBuffers rt' ! nat i = rt_switchBuffers rt ! nat i)"
proof -
  obtain rt1 rt2 where r: "arbitrate_inports now rt = Inr rt1" "arbitrate_outports now rt1 = Inr rt2"
      "check_for_wakeup now (clear_request_vector rt2) = Inr rt'"
    using assms(3) by (auto simp: sa_wakeup_def bindR_Inr_iff)
  note a = first_stage [OF assms(1,2) r(1)]
  let ?os = "[0 .. sa_num_outports (rt_sa rt1) - 1]"
  have os: "set ?os \<subseteq> {0..<sa_num_outports (rt_sa rt1)}" "set ?os = {0..<sa_num_outports (rt_sa rt)}" by (auto simp: a(5))
  have single: "p = p'" if "p \<in> set ?os" "p' \<in> set ?os" "sa_win rt1 p = Some i" "sa_win rt1 p' = Some i" for p p' i
  proof -
    have "sa_winner now rt p = Some i" "sa_winner now rt p' = Some i" using that a(8) unfolding os(2) by simp_all
    then obtain vc vc' where "bids_of now rt i = Some (vc, p)" "bids_of now rt i = Some (vc', p')"
      using sa_winner_bids by blast
    then show ?thesis by simp
  qed
  have "stage2 now ?os rt1 rt2"
    by (rule outports_fold [OF a(1) distinct_upto os(1) single r(2) [unfolded arbitrate_outports_def]])
  note d = stage2D [OF this]
  have fin: "rt_switchBuffers rt' = rt_switchBuffers rt2" "rt_input_unit rt' = rt_input_unit rt2" "rt_output_unit rt' = rt_output_unit rt2"
      "rt_sa rt' = rt_sa (clear_request_vector rt2)"
    using r(3) by (auto simp: check_for_wakeup_def bindR_Inr_iff clear_request_vector_def)
  have "sa_shape rt'" using d(1) fin by (auto simp: sa_shape_def sa_ok_def matrix_def clear_request_vector_def)
  moreover have "no_requests (rt_sa rt')" by (auto simp: fin(4) no_requests_def clear_request_vector_def)
  moreover have "sa_round_robin_inport (rt_sa rt') ! nat p =
          (case sa_winner now rt p of None \<Rightarrow> sa_round_robin_inport (rt_sa rt) ! nat p
           | Some i \<Rightarrow> wrap_next (sa_num_inports (rt_sa rt)) i)" if "p \<in> {0..<sa_num_outports (rt_sa rt)}" for p
    using d(6) [of p] that os(2) a(4-6,8) by (cases "sa_winner now rt p") (simp_all add: fin(4) clear_request_vector_def)
  moreover have "case bids_of now rt i of
            None \<Rightarrow> rt_switchBuffers rt' ! nat i = rt_switchBuffers rt ! nat i
          | Some (vc, p) \<Rightarrow>
              if sa_winner now rt p = Some i
              then sent now vc p (rt_input_unit rt ! nat i) (rt_switchBuffers rt ! nat i) (rt_switchBuffers rt' ! nat i)
              else rt_switchBuffers rt' ! nat i = rt_switchBuffers rt ! nat i" if i: "i \<in> {0..<sa_num_inports (rt_sa rt)}" for i
  proof (cases "\<exists>p \<in> set ?os. sa_winner now rt p = Some i")
    case True
    then obtain p vc where p: "p \<in> set ?os" "sa_winner now rt p = Some i" "bids_of now rt i = Some (vc, p)"
      using sa_winner_bids by blast
    have p': "p \<in> {0..<sa_num_outports (rt_sa rt)}" using p(1) os(2) by blast
    have "sent now (entry p i (sa_vc_winners (rt_sa rt1))) p (rt_input_unit rt1 ! nat i) (rt_switchBuffers rt1 ! nat i) (rt_switchBuffers rt2 ! nat i)"
      by (rule d(7) [OF p(1)]) (simp only: a(8) [OF p'] p(2))
    then show ?thesis using p(2,3) a(9) [OF p' i p(3)] a(2,3) by (simp add: fin(1))
  next
    case False
    then have "rt_switchBuffers rt2 ! nat i = rt_switchBuffers rt1 ! nat i"
      using i os(2) by (intro d(8)) (auto simp: a(8))
    moreover have "sa_winner now rt p \<noteq> Some i" if b: "bids_of now rt i = Some (vc, p)" for vc p
    proof -
      have "p \<in> set ?os" using a(7) [OF i] b os(2) by (simp add: bid_ok_def)
      then show ?thesis using False by blast
    qed
    ultimately show ?thesis by (auto simp: fin(1) a(3) split: option.split)
  qed
  ultimately show ?thesis using a(7) by blast
qed

text \<open>The state a router starts in has the shape.\<close>

lemma Router_init_shape:
  assumes "rt_input_unit rt \<noteq> []" "0 < sa_num_vcs (rt_sa rt)"
  shows "sa_shape (Router_init rt)" "no_requests (rt_sa (Router_init rt))"
  using assms by (auto simp: Router_init_def sa_init_def sa_shape_def sa_ok_def matrix_def no_requests_def Let_def)

text \<open>A router with one input port and one output port of one channel each, and a flit that waits for the switch.\<close>

definition one_net :: GarnetNetwork where
  "one_net = demo_net\<lparr>g_virtual_networks := 1, g_vcs_per_vnet := 1\<rparr>"

definition demo_flit :: flit where
  "demo_flit = advance_stage STAGE_SA 0 (flit_new 0 0 0 null_route 1 0 0)"

definition demo_router :: Router where
  "demo_router = Router_init
     ((Router_new 0 1 one_net)
       \<lparr>rt_input_unit := [(InputUnit_new 0 ''West'' one_net 0 1)
           \<lparr>iu_virtualChannels := [insertFlit demo_flit ((set_active 0 VirtualChannel_new)\<lparr>vc_output_port := 0\<rparr>)]\<rparr>],
        rt_output_unit := [\<lparr>ou_id = 0, ou_direction = ''East'', ou_vc_per_vnet = 1, ou_out_link = 2, ou_credit_link = 3,
           ou_outBuffer = flitBuffer_new, ou_outVcState = [\<lparr>ovs_id = 0, ovs_time = 0, ovs_vc_state = IDLE,
             ovs_credit_count = 1, ovs_max_credit_count = 1\<rparr>]\<rparr>]\<rparr>)"

lemma demo_router_shape: "sa_shape demo_router" "no_requests (rt_sa demo_router)"
  unfolding demo_router_def by (rule Router_init_shape; simp add: Router_new_def SwitchAllocator_new_def one_net_def demo_net_def)+

lemmas demo_unfold = demo_router_def Router_init_def Router_new_def SwitchAllocator_new_def one_net_def demo_net_def
  sa_init_def Let_def InputUnit_new_def

lemmas run_unfold = getInputUnit_def getOutputUnit_def iu_need_stage_def need_stage_def insertFlit_def set_active_def
  VirtualChannel_new_def fb_insert_def flitBuffer_new_def push_heap_def sift_up.simps fb_isReady_def peekTopFlit_def demo_flit_def
  is_stage_def advance_stage_def flit_new_def iu_get_outport_def iu_get_outvc_def send_allowed_def sa_get_vnet_def has_free_vc_def
  is_vc_idle_def isInState_def vnet_vcs_def isVNetOrdered_def rotation_def

lemma demo_router_bids: "bids_of 1 demo_router 0 = Some (0, 0)"
  by (simp add: bids_of_def sa_bid_def wants_def demo_unfold run_unfold)

lemma demo_router_wakeup: "\<exists>rt'. sa_wakeup 1 demo_router = Inr rt'"
  by (simp add: sa_wakeup_def arbitrate_inports_def arbitrate_inport_def demo_unfold run_unfold vec_modify_def
      arbitrate_outports_def arbitrate_outport_def grant_def vc_allocate_def select_free_vc_def set_vc_state_def ovs_setState_def
      grant_outvc_def put_input_def put_output_def grant_flit_def iu_getTopFlit_def vc_getTopFlit_def getTopFlit_def pop_heap_def
      ou_decrement_credit_def ovs_decrement_credit_def release_vc_def iu_isReady_def set_vc_idle_def set_idle_def
      iu_increment_credit_def schedule_wakeups_def clear_request_vector_def check_for_wakeup_def wrap_next_def)

theorem switch_allocation_witness:
  "\<exists>rt'. sa_wakeup 1 demo_router = Inr rt' \<and> no_requests (rt_sa rt') \<and> sa_winner 1 demo_router 0 = Some 0
     \<and> sent 1 0 0 (rt_input_unit demo_router ! 0) (rt_switchBuffers demo_router ! 0) (rt_switchBuffers rt' ! 0)"
proof -
  obtain rt' where r: "sa_wakeup 1 demo_router = Inr rt'"
    using demo_router_wakeup by blast
  have rot: "rotation (sa_num_inports (rt_sa demo_router)) (sa_round_robin_inport (rt_sa demo_router) ! nat 0) = [0]"
    by (simp add: rotation_def demo_unfold)
  have n: "0 \<in> {0..<sa_num_inports (rt_sa demo_router)}" by (simp add: demo_unfold)
  have w: "sa_winner 1 demo_router 0 = Some 0"
    unfolding sa_winner_def rot using demo_router_bids by simp
  note t = switch_allocation [OF demo_router_shape r]
  have "case bids_of 1 demo_router 0 of None \<Rightarrow> rt_switchBuffers rt' ! nat 0 = rt_switchBuffers demo_router ! nat 0
      | Some (vc, p) \<Rightarrow> if sa_winner 1 demo_router p = Some 0
          then sent 1 vc p (rt_input_unit demo_router ! nat 0) (rt_switchBuffers demo_router ! nat 0) (rt_switchBuffers rt' ! nat 0)
          else rt_switchBuffers rt' ! nat 0 = rt_switchBuffers demo_router ! nat 0"
    using t n by blast
  then have "sent 1 0 0 (rt_input_unit demo_router ! 0) (rt_switchBuffers demo_router ! 0) (rt_switchBuffers rt' ! 0)"
    unfolding demo_router_bids using w by simp
  then show ?thesis using t r w by blast
qed

end
