(* ===== verification/MessageBuffer.thy ===== *)
theory MessageBuffer
  imports StdHeap "HOL-Library.Product_Lexorder"
begin

text \<open>
  \<open>mem/ruby/network/MessageBuffer\<close> and the part of \<open>mem/ruby/slicc_interface/Message.hh\<close> it uses: the queues
  between the controllers and the network. A buffer is a heap of messages, ordered by the time a message may
  leave and by a counter, with a map of stalled messages and the counters that hide the effect of a removal on the
  size until the next cycle. A message belongs to one buffer at a time and is kept as a value; its identity and
  payload are a number. The simulator's global settings (randomization, warm-up) and the numbers drawn at random are
  arguments. Shown: an ordered buffer is a first-in first-out queue, and a bounded one never overflows.
\<close>

section \<open>Messages\<close>

record Message =
  m_ptr :: nat
  m_time :: tick
  m_LastEnqueueTime :: tick
  m_DelayedTicks :: tick
  m_msg_counter :: u64

definition Message_new :: "nat \<Rightarrow> tick \<Rightarrow> Message" where
  "Message_new ptr curTime = \<lparr>m_ptr = ptr, m_time = curTime, m_LastEnqueueTime = curTime, m_DelayedTicks = 0, m_msg_counter = 0\<rparr>"

definition updateDelayedTicks :: "tick \<Rightarrow> Message \<Rightarrow> Message result" where
  "updateDelayedTicks curTime m =
     bindR (assertR (m_LastEnqueueTime m \<le> curTime)) (\<lambda>_.
       Inr (m\<lparr>m_DelayedTicks := m_DelayedTicks m + (curTime - m_LastEnqueueTime m)\<rparr>))"

definition msg_greater :: "Message \<Rightarrow> Message \<Rightarrow> bool" where
  "msg_greater l r \<longleftrightarrow>
     (if m_LastEnqueueTime l = m_LastEnqueueTime r then m_msg_counter l > m_msg_counter r
      else m_LastEnqueueTime l > m_LastEnqueueTime r)"

section \<open>Buffers\<close>

text \<open>The map of stalled messages is kept sorted by address, the order it is iterated in. The wake-ups the consumer
  is scheduled for and the number of calls of the dequeue callback are collected.\<close>

record MessageBuffer =
  mb_consumer :: bool
  mb_prio_heap :: "Message list"
  mb_dequeue_callback :: bool
  mb_stall_msg_map :: "(addr \<times> Message list) list"
  mb_stall_map_size :: int
  mb_max_size :: nat
  mb_time_last_time_size_checked :: tick
  mb_size_last_time_size_checked :: nat
  mb_time_last_time_enqueue :: tick
  mb_time_last_time_pop :: tick
  mb_last_arrival_time :: tick
  mb_size_at_cycle_start :: nat
  mb_stalled_at_cycle_start :: int
  mb_msgs_this_cycle :: nat
  mb_msg_counter :: u64
  mb_strict_fifo :: bool
  mb_randomization :: bool
  mb_wakeups :: "tick list"
  mb_callbacks :: nat

definition MessageBuffer_new :: "nat \<Rightarrow> bool \<Rightarrow> bool \<Rightarrow> MessageBuffer" where
  "MessageBuffer_new buffer_size ordered randomization =
     \<lparr>mb_consumer = False, mb_prio_heap = [], mb_dequeue_callback = False, mb_stall_msg_map = [],
      mb_stall_map_size = 0, mb_max_size = buffer_size, mb_time_last_time_size_checked = 0,
      mb_size_last_time_size_checked = 0, mb_time_last_time_enqueue = 0, mb_time_last_time_pop = 0,
      mb_last_arrival_time = 0, mb_size_at_cycle_start = 0, mb_stalled_at_cycle_start = 0, mb_msgs_this_cycle = 0,
      mb_msg_counter = 0, mb_strict_fifo = ordered, mb_randomization = randomization, mb_wakeups = [], mb_callbacks = 0\<rparr>"

definition setConsumer :: "MessageBuffer \<Rightarrow> MessageBuffer result" where
  "setConsumer mb = (if mb_consumer mb then Inl Fatal else Inr (mb\<lparr>mb_consumer := True\<rparr>))"

definition mb_getSize :: "tick \<Rightarrow> MessageBuffer \<Rightarrow> MessageBuffer \<times> nat" where
  "mb_getSize curTime mb =
     (let mb1 = (if mb_time_last_time_size_checked mb \<noteq> curTime
                 then mb\<lparr>mb_time_last_time_size_checked := curTime, mb_size_last_time_size_checked := length (mb_prio_heap mb)\<rparr>
                 else mb)
      in (mb1, mb_size_last_time_size_checked mb1))"

text \<open>The sizes the network sees in the current cycle: removals show in the next cycle only, additions at once.\<close>

definition visible_size :: "tick \<Rightarrow> MessageBuffer \<Rightarrow> int" where
  "visible_size current_time mb =
     (if mb_time_last_time_pop mb < current_time then int (length (mb_prio_heap mb)) + mb_stall_map_size mb
      else int (if mb_time_last_time_enqueue mb < current_time then mb_size_at_cycle_start mb
                else mb_size_at_cycle_start mb + mb_msgs_this_cycle mb) + mb_stalled_at_cycle_start mb)"

definition areNSlotsAvailable :: "nat \<Rightarrow> tick \<Rightarrow> MessageBuffer \<Rightarrow> bool" where
  "areNSlotsAvailable n current_time mb \<longleftrightarrow>
     mb_max_size mb = 0 \<or> visible_size current_time mb + int n \<le> int (mb_max_size mb)"

definition mb_peek :: "MessageBuffer \<Rightarrow> Message result" where
  "mb_peek mb = (case mb_prio_heap mb of [] \<Rightarrow> Inl Undefined | m # _ \<Rightarrow> Inr m)"

definition mb_isReady :: "tick \<Rightarrow> MessageBuffer \<Rightarrow> bool" where
  "mb_isReady current_time mb \<longleftrightarrow>
     (case mb_prio_heap mb of [] \<Rightarrow> False | m # _ \<Rightarrow> m_LastEnqueueTime m \<le> current_time)"

text \<open>\<open>r1\<close>, \<open>r2\<close> and \<open>r3\<close> are drawn from the ranges 0 to 3, 0 to 7 and 1 to 15.\<close>

definition random_time :: "tick \<Rightarrow> tick \<Rightarrow> tick \<Rightarrow> tick" where
  "random_time r1 r2 r3 = 1 + r1 + (if r2 = 0 then 100 + r3 else 0)"

text \<open>The first cycle the message can leave in.\<close>

definition enqueue_arrival :: "bool \<Rightarrow> tick \<Rightarrow> tick \<Rightarrow> tick \<Rightarrow> MessageBuffer \<Rightarrow> MessageBuffer \<times> tick" where
  "enqueue_arrival ruby_randomization random current_time delta mb =
     (if \<not> ruby_randomization \<and> \<not> mb_randomization mb then (mb, current_time + delta)
      else if mb_strict_fifo mb
      then let mb1 = (if mb_last_arrival_time mb < current_time then mb\<lparr>mb_last_arrival_time := current_time\<rparr> else mb)
           in (mb1, mb_last_arrival_time mb1 + random)
      else (mb, current_time + random))"

definition mb_enqueue :: "bool \<Rightarrow> bool \<Rightarrow> tick \<Rightarrow> Message \<Rightarrow> tick \<Rightarrow> tick \<Rightarrow> MessageBuffer \<Rightarrow> MessageBuffer result" where
  "mb_enqueue ruby_randomization warmup random message current_time delta mb =
     (let mb1 = (if mb_time_last_time_enqueue mb < current_time
                 then mb\<lparr>mb_msgs_this_cycle := 0, mb_time_last_time_enqueue := current_time\<rparr> else mb);
          mb2 = mb1\<lparr>mb_msg_counter := mb_msg_counter mb1 + 1, mb_msgs_this_cycle := mb_msgs_this_cycle mb1 + 1\<rparr> in
      bindR (assertR (delta > 0)) (\<lambda>_.
      let (mb3, arrival_time) = enqueue_arrival ruby_randomization random current_time delta mb2 in
      bindR (assertR (arrival_time > current_time)) (\<lambda>_.
      if mb_strict_fifo mb3 \<and> arrival_time < mb_last_arrival_time mb3 then Inl Panic
      else let mb4 = (if \<not> warmup then mb3\<lparr>mb_last_arrival_time := arrival_time\<rparr> else mb3) in
      bindR (assertR (current_time \<ge> m_LastEnqueueTime message)) (\<lambda>_.
      bindR (updateDelayedTicks current_time message) (\<lambda>m1.
      let m2 = m1\<lparr>m_LastEnqueueTime := arrival_time, m_msg_counter := mb_msg_counter mb4\<rparr>;
          mb5 = mb4\<lparr>mb_prio_heap := push_heap msg_greater (mb_prio_heap mb4) m2\<rparr> in
      bindR (assertR (mb_consumer mb5)) (\<lambda>_.
        Inr (mb5\<lparr>mb_wakeups := mb_wakeups mb5 @ [arrival_time]\<rparr>)))))))"

text \<open>The message is returned as it leaves the buffer; its delay is what the code returns.\<close>

definition mb_dequeue :: "tick \<Rightarrow> MessageBuffer \<Rightarrow> (MessageBuffer \<times> Message) result" where
  "mb_dequeue current_time mb =
     bindR (assertR (mb_isReady current_time mb)) (\<lambda>_.
     bindR (mb_peek mb) (\<lambda>message.
     bindR (updateDelayedTicks current_time message) (\<lambda>m1.
     let mb1 = (if mb_time_last_time_pop mb < current_time
                then mb\<lparr>mb_size_at_cycle_start := length (mb_prio_heap mb), mb_stalled_at_cycle_start := mb_stall_map_size mb,
                        mb_time_last_time_pop := current_time\<rparr>
                else mb);
         mb2 = mb1\<lparr>mb_prio_heap := pop_heap msg_greater (mb_prio_heap mb1)\<rparr>
     in Inr (if mb_dequeue_callback mb2 then mb2\<lparr>mb_callbacks := mb_callbacks mb2 + 1\<rparr> else mb2, m1))))"

definition registerDequeueCallback :: "MessageBuffer \<Rightarrow> MessageBuffer" where
  "registerDequeueCallback mb = mb\<lparr>mb_dequeue_callback := True\<rparr>"

definition unregisterDequeueCallback :: "MessageBuffer \<Rightarrow> MessageBuffer" where
  "unregisterDequeueCallback mb = mb\<lparr>mb_dequeue_callback := False\<rparr>"

definition mb_clear :: "MessageBuffer \<Rightarrow> MessageBuffer" where
  "mb_clear mb = mb\<lparr>mb_prio_heap := [], mb_msg_counter := 0, mb_time_last_time_enqueue := 0, mb_time_last_time_pop := 0,
     mb_size_at_cycle_start := 0, mb_stalled_at_cycle_start := 0, mb_msgs_this_cycle := 0\<rparr>"

definition recycle :: "tick \<Rightarrow> tick \<Rightarrow> MessageBuffer \<Rightarrow> MessageBuffer result" where
  "recycle current_time recycle_latency mb =
     bindR (assertR (mb_isReady current_time mb)) (\<lambda>_.
     bindR (mb_peek mb) (\<lambda>node.
     let future_time = current_time + recycle_latency in
     Inr (mb\<lparr>mb_prio_heap := push_heap msg_greater (pop_heap msg_greater (mb_prio_heap mb)) (node\<lparr>m_LastEnqueueTime := future_time\<rparr>),
             mb_wakeups := mb_wakeups mb @ [future_time]\<rparr>)))"

definition delayHead :: "bool \<Rightarrow> bool \<Rightarrow> tick \<Rightarrow> tick \<Rightarrow> tick \<Rightarrow> MessageBuffer \<Rightarrow> MessageBuffer result" where
  "delayHead ruby_randomization warmup random current_time delta mb =
     bindR (mb_peek mb) (\<lambda>m.
       mb_enqueue ruby_randomization warmup random m current_time delta
         (mb\<lparr>mb_prio_heap := pop_heap msg_greater (mb_prio_heap mb)\<rparr>))"

fun reanalyzeList :: "Message list \<Rightarrow> tick \<Rightarrow> MessageBuffer \<Rightarrow> MessageBuffer result" where
  "reanalyzeList [] schdTick mb = Inr mb"
| "reanalyzeList (m # lt) schdTick mb =
     bindR (assertR (m_LastEnqueueTime m \<le> schdTick)) (\<lambda>_.
       reanalyzeList lt schdTick
         (mb\<lparr>mb_prio_heap := push_heap msg_greater (mb_prio_heap mb) m, mb_wakeups := mb_wakeups mb @ [schdTick]\<rparr>))"

definition reanalyzeMessages :: "addr \<Rightarrow> tick \<Rightarrow> MessageBuffer \<Rightarrow> MessageBuffer result" where
  "reanalyzeMessages a current_time mb =
     (case map_of (mb_stall_msg_map mb) a of
        None \<Rightarrow> Inl AssertFailed
      | Some msgs \<Rightarrow>
          let mb1 = mb\<lparr>mb_stall_map_size := mb_stall_map_size mb - int (length msgs)\<rparr> in
          bindR (assertR (mb_stall_map_size mb1 \<ge> 0)) (\<lambda>_.
          bindR (reanalyzeList msgs current_time mb1) (\<lambda>mb2.
            Inr (mb2\<lparr>mb_stall_msg_map := filter (\<lambda>p. fst p \<noteq> a) (mb_stall_msg_map mb2)\<rparr>))))"

definition reanalyze_entry :: "tick \<Rightarrow> addr \<times> Message list \<Rightarrow> MessageBuffer \<Rightarrow> MessageBuffer result" where
  "reanalyze_entry current_time entry mb =
     (let mb1 = mb\<lparr>mb_stall_map_size := mb_stall_map_size mb - int (length (snd entry))\<rparr> in
      bindR (assertR (mb_stall_map_size mb1 \<ge> 0)) (\<lambda>_. reanalyzeList (snd entry) current_time mb1))"

definition reanalyzeAllMessages :: "tick \<Rightarrow> MessageBuffer \<Rightarrow> MessageBuffer result" where
  "reanalyzeAllMessages current_time mb =
     bindR (foldR (reanalyze_entry current_time) (mb_stall_msg_map mb) mb) (\<lambda>mb1. Inr (mb1\<lparr>mb_stall_msg_map := []\<rparr>))"

text \<open>Adding a message to the list of an address.\<close>

fun stall_push :: "addr \<Rightarrow> Message \<Rightarrow> (addr \<times> Message list) list \<Rightarrow> (addr \<times> Message list) list" where
  "stall_push a m [] = [(a, [m])]"
| "stall_push a m ((b, ms) # es) =
     (if a = b then (b, ms @ [m]) # es else if a < b then (a, [m]) # (b, ms) # es else (b, ms) # stall_push a m es)"

text \<open>\<open>offset\<close> is the offset of an address in its block, which depends on the block size of the memory system.\<close>

definition stallMessage :: "(addr \<Rightarrow> addr) \<Rightarrow> addr \<Rightarrow> tick \<Rightarrow> MessageBuffer \<Rightarrow> MessageBuffer result" where
  "stallMessage offset a current_time mb =
     bindR (assertR (mb_isReady current_time mb)) (\<lambda>_.
     bindR (assertR (offset a = 0)) (\<lambda>_.
     bindR (mb_dequeue current_time mb) (\<lambda>(mb1, message).
       Inr (mb1\<lparr>mb_stall_msg_map := stall_push a message (mb_stall_msg_map mb1),
                mb_stall_map_size := mb_stall_map_size mb1 + 1\<rparr>))))"

section \<open>Runs\<close>

datatype MbOp = Enqueue Message tick tick | Dequeue | Stall addr | Reanalyze addr | ReanalyzeAll | Recycle tick

text \<open>One operation at a time \<open>t\<close>, with the checks its callers make: a message is sent when there is a slot, and taken,
  stalled or recycled when one is ready. Besides the buffer, the messages that went in and those that came out are
  kept.\<close>

fun mb_step :: "bool \<Rightarrow> bool \<Rightarrow> (addr \<Rightarrow> addr) \<Rightarrow> tick \<times> MbOp \<Rightarrow> MessageBuffer \<times> nat list \<times> nat list
    \<Rightarrow> (MessageBuffer \<times> nat list \<times> nat list) result" where
  "mb_step rr wu offset (t, Enqueue m delta random) (mb, ins, outs) =
     (if areNSlotsAvailable 1 t mb
      then bindR (mb_enqueue rr wu random m t delta mb) (\<lambda>mb1. Inr (mb1, ins @ [m_ptr m], outs))
      else Inr (mb, ins, outs))"
| "mb_step rr wu offset (t, Dequeue) (mb, ins, outs) =
     (if mb_isReady t mb then bindR (mb_dequeue t mb) (\<lambda>(mb1, m). Inr (mb1, ins, outs @ [m_ptr m])) else Inr (mb, ins, outs))"
| "mb_step rr wu offset (t, Stall a) (mb, ins, outs) =
     (if mb_isReady t mb \<and> offset a = 0 then bindR (stallMessage offset a t mb) (\<lambda>mb1. Inr (mb1, ins, outs)) else Inr (mb, ins, outs))"
| "mb_step rr wu offset (t, Reanalyze a) (mb, ins, outs) =
     (if map_of (mb_stall_msg_map mb) a \<noteq> None then bindR (reanalyzeMessages a t mb) (\<lambda>mb1. Inr (mb1, ins, outs)) else Inr (mb, ins, outs))"
| "mb_step rr wu offset (t, ReanalyzeAll) (mb, ins, outs) = bindR (reanalyzeAllMessages t mb) (\<lambda>mb1. Inr (mb1, ins, outs))"
| "mb_step rr wu offset (t, Recycle latency) (mb, ins, outs) =
     (if mb_isReady t mb then bindR (recycle t latency mb) (\<lambda>mb1. Inr (mb1, ins, outs)) else Inr (mb, ins, outs))"

definition mb_start :: "nat \<Rightarrow> bool \<Rightarrow> bool \<Rightarrow> MessageBuffer \<times> nat list \<times> nat list" where
  "mb_start n ordered randomization = ((MessageBuffer_new n ordered randomization)\<lparr>mb_consumer := True\<rparr>, [], [])"

section \<open>Capacity\<close>

definition stalled :: "MessageBuffer \<Rightarrow> nat" where
  "stalled mb = sum_list (map (length \<circ> snd) (mb_stall_msg_map mb))"

text \<open>Up to now no cycle later than \<open>now\<close> has been seen, and what the network sees is at least what there is.\<close>

definition cap_inv :: "nat \<Rightarrow> tick \<Rightarrow> MessageBuffer \<Rightarrow> bool" where
  "cap_inv cap now mb \<longleftrightarrow> mb_stall_map_size mb = int (stalled mb) \<and> sorted_wrt (<) (map fst (mb_stall_msg_map mb))
     \<and> mb_time_last_time_pop mb \<le> now \<and> mb_time_last_time_enqueue mb \<le> now
     \<and> mb_max_size mb = cap \<and> 0 < cap \<and> length (mb_prio_heap mb) + stalled mb \<le> cap
     \<and> int (length (mb_prio_heap mb) + stalled mb) \<le> visible_size now mb"

lemma enqueue_arrival_fields:
  assumes "enqueue_arrival rr random t delta mb = (mb', a)"
  shows "mb' = mb\<lparr>mb_last_arrival_time := mb_last_arrival_time mb'\<rparr>" "mb_last_arrival_time mb \<le> mb_last_arrival_time mb'"
  using assms unfolding enqueue_arrival_def Let_def by (auto split: if_splits)

lemma enqueue_result:
  assumes e: "mb_enqueue rr wu random m t delta mb = Inr mb'"
  obtains m' where "mb_prio_heap mb' = push_heap msg_greater (mb_prio_heap mb) m'" "m_ptr m' = m_ptr m"
    "m_msg_counter m' = mb_msg_counter mb + 1" "mb_msg_counter mb' = mb_msg_counter mb + 1"
    "mb_stall_msg_map mb' = mb_stall_msg_map mb" "mb_stall_map_size mb' = mb_stall_map_size mb" "mb_max_size mb' = mb_max_size mb"
    "mb_time_last_time_pop mb' = mb_time_last_time_pop mb" "mb_size_at_cycle_start mb' = mb_size_at_cycle_start mb"
    "mb_stalled_at_cycle_start mb' = mb_stalled_at_cycle_start mb" "mb_strict_fifo mb' = mb_strict_fifo mb"
    "mb_time_last_time_enqueue mb' = (if mb_time_last_time_enqueue mb < t then t else mb_time_last_time_enqueue mb)"
    "mb_msgs_this_cycle mb' = (if mb_time_last_time_enqueue mb < t then 1 else mb_msgs_this_cycle mb + 1)"
    "mb_strict_fifo mb \<Longrightarrow> mb_last_arrival_time mb \<le> m_LastEnqueueTime m'"
    "\<not> wu \<Longrightarrow> mb_last_arrival_time mb' = m_LastEnqueueTime m'" "t < m_LastEnqueueTime m'"
proof -
  define mb1 where "mb1 = (if mb_time_last_time_enqueue mb < t
                 then mb\<lparr>mb_msgs_this_cycle := 0, mb_time_last_time_enqueue := t\<rparr> else mb)"
  define mb2 where "mb2 = mb1\<lparr>mb_msg_counter := mb_msg_counter mb1 + 1, mb_msgs_this_cycle := mb_msgs_this_cycle mb1 + 1\<rparr>"
  obtain mb3 a where mb3: "enqueue_arrival rr random t delta mb2 = (mb3, a)" by fastforce
  obtain l where l: "mb3 = mb2\<lparr>mb_last_arrival_time := l\<rparr>" "mb_last_arrival_time mb2 \<le> l" using enqueue_arrival_fields [OF mb3] by blast
  have mb2: "mb_last_arrival_time mb2 = mb_last_arrival_time mb" "mb_prio_heap mb2 = mb_prio_heap mb"
      "mb_msg_counter mb2 = mb_msg_counter mb + 1" "mb_stall_msg_map mb2 = mb_stall_msg_map mb" "mb_stall_map_size mb2 = mb_stall_map_size mb"
      "mb_max_size mb2 = mb_max_size mb" "mb_time_last_time_pop mb2 = mb_time_last_time_pop mb"
      "mb_size_at_cycle_start mb2 = mb_size_at_cycle_start mb" "mb_stalled_at_cycle_start mb2 = mb_stalled_at_cycle_start mb"
      "mb_strict_fifo mb2 = mb_strict_fifo mb"
      "mb_time_last_time_enqueue mb2 = (if mb_time_last_time_enqueue mb < t then t else mb_time_last_time_enqueue mb)"
      "mb_msgs_this_cycle mb2 = (if mb_time_last_time_enqueue mb < t then 1 else mb_msgs_this_cycle mb + 1)"
    by (simp_all add: mb2_def mb1_def)
  let ?m = "m\<lparr>m_DelayedTicks := m_DelayedTicks m + (t - m_LastEnqueueTime m), m_LastEnqueueTime := a, m_msg_counter := mb_msg_counter mb3\<rparr>"
  have r: "t < a" "\<not> (mb_strict_fifo mb3 \<and> a < l)"
      "mb' = mb3\<lparr>mb_last_arrival_time := (if wu then l else a), mb_prio_heap := push_heap msg_greater (mb_prio_heap mb3) ?m,
        mb_wakeups := mb_wakeups mb3 @ [a]\<rparr>"
    using e mb3 l(1) unfolding mb_enqueue_def Let_def mb1_def [symmetric] mb2_def [symmetric] updateDelayedTicks_def
    by (auto simp: bindR_Inr_iff split: if_splits)
  show ?thesis
    by (rule that [of ?m]) (use r l in \<open>auto simp: mb2\<close>)
qed

lemma cap_inv_later: "cap_inv cap now mb \<Longrightarrow> now \<le> t \<Longrightarrow> cap_inv cap t mb"
  by (cases "now = t") (auto simp: cap_inv_def visible_size_def)

lemma cap_inv_enqueue:
  assumes "cap_inv cap t mb" "areNSlotsAvailable 1 t mb" "mb_enqueue rr wu random m t delta mb = Inr mb'"
  shows "cap_inv cap t mb'"
  using assms(3)
proof (rule enqueue_result)
  fix m'
  assume "mb_prio_heap mb' = push_heap msg_greater (mb_prio_heap mb) m'" "mb_stall_msg_map mb' = mb_stall_msg_map mb"
    "mb_stall_map_size mb' = mb_stall_map_size mb" "mb_max_size mb' = mb_max_size mb"
    "mb_time_last_time_pop mb' = mb_time_last_time_pop mb" "mb_size_at_cycle_start mb' = mb_size_at_cycle_start mb"
    "mb_stalled_at_cycle_start mb' = mb_stalled_at_cycle_start mb"
    "mb_time_last_time_enqueue mb' = (if mb_time_last_time_enqueue mb < t then t else mb_time_last_time_enqueue mb)"
    "mb_msgs_this_cycle mb' = (if mb_time_last_time_enqueue mb < t then 1 else mb_msgs_this_cycle mb + 1)"
  then show ?thesis using assms(1,2)
    by (auto simp: cap_inv_def visible_size_def areNSlotsAvailable_def stalled_def split: if_splits)
qed

lemma dequeue_result:
  assumes "mb_dequeue t mb = Inr (mb', m')"
  obtains m ms where "mb_prio_heap mb = m # ms" "m_LastEnqueueTime m \<le> t" "m_ptr m' = m_ptr m" "mb_prio_heap mb' = pop_heap msg_greater (m # ms)"
    "mb_stall_msg_map mb' = mb_stall_msg_map mb" "mb_stall_map_size mb' = mb_stall_map_size mb" "mb_max_size mb' = mb_max_size mb"
    "mb_time_last_time_enqueue mb' = mb_time_last_time_enqueue mb" "mb_msgs_this_cycle mb' = mb_msgs_this_cycle mb"
    "mb_msg_counter mb' = mb_msg_counter mb" "mb_last_arrival_time mb' = mb_last_arrival_time mb" "mb_strict_fifo mb' = mb_strict_fifo mb"
    "mb_time_last_time_pop mb' = (if mb_time_last_time_pop mb < t then t else mb_time_last_time_pop mb)"
    "mb_size_at_cycle_start mb' = (if mb_time_last_time_pop mb < t then length (mb_prio_heap mb) else mb_size_at_cycle_start mb)"
    "mb_stalled_at_cycle_start mb' = (if mb_time_last_time_pop mb < t then mb_stall_map_size mb else mb_stalled_at_cycle_start mb)"
proof -
  obtain m ms where h: "mb_prio_heap mb = m # ms" "m_LastEnqueueTime m \<le> t"
    using assms by (auto simp: mb_dequeue_def bindR_Inr_iff mb_isReady_def split: list.splits)
  show ?thesis
    by (rule that [OF h]) (use assms h in \<open>auto simp: mb_dequeue_def bindR_Inr_iff mb_isReady_def mb_peek_def updateDelayedTicks_def Let_def split: if_splits\<close>)
qed

lemma cap_inv_dequeue:
  assumes "cap_inv cap t mb" "mb_dequeue t mb = Inr (mb', m')"
  shows "cap_inv cap t mb'" "length (mb_prio_heap mb') < length (mb_prio_heap mb)"
    "length (mb_prio_heap mb') + stalled mb' + 1 \<le> mb_max_size mb' \<and> int (length (mb_prio_heap mb') + stalled mb' + 1) \<le> visible_size t mb'
     \<and> t \<le> mb_time_last_time_pop mb'"
  using assms(2)
  by (rule dequeue_result, use assms(1) in \<open>auto simp: cap_inv_def visible_size_def stalled_def split: if_splits\<close>)+

lemma stall_push_sum: "sum_list (map (length \<circ> snd) (stall_push a m es)) = Suc (sum_list (map (length \<circ> snd) es))"
  by (induction a m es rule: stall_push.induct) auto

lemma stall_push_keys: "set (map fst (stall_push a m es)) = insert a (set (map fst es))"
  by (induction a m es rule: stall_push.induct) auto

lemma stall_push_sorted: "sorted_wrt (<) (map fst es) \<Longrightarrow> sorted_wrt (<) (map fst (stall_push a m es))"
proof (induction a m es rule: stall_push.induct)
  case (2 a m b ms es)
  have "set (map fst (stall_push a m es)) = insert a (set (map fst es))" by (rule stall_push_keys)
  then have above: "\<forall>x \<in> set (map fst (stall_push a m es)). b < x" if "b < a" using 2(2) that by auto
  consider "a = b" | "a < b" | "b < a" by fastforce
  then show ?case
  proof cases
    case 1
    then show ?thesis using 2(2) by simp
  next
    case 2
    then show ?thesis using \<open>sorted_wrt (<) (map fst ((b, ms) # es))\<close> by (auto intro: less_trans)
  next
    case 3
    then have "sorted_wrt (<) (map fst (stall_push a m es))" using 2 by simp
    moreover have "\<not> a < b" "a \<noteq> b" using 3 by auto
    ultimately show ?thesis using above 3 by simp
  qed
qed simp

lemma stall_inv:
  assumes inv: "cap_inv cap t mb" and r: "stallMessage offset a t mb = Inr mb'"
  shows "cap_inv cap t mb'"
proof -
  obtain mb1 m where d: "mb_dequeue t mb = Inr (mb1, m)"
      and mb': "mb' = mb1\<lparr>mb_stall_msg_map := stall_push a m (mb_stall_msg_map mb1), mb_stall_map_size := mb_stall_map_size mb1 + 1\<rparr>"
    using r by (auto simp: stallMessage_def bindR_Inr_iff)
  have "stalled mb' = Suc (stalled mb1)" by (simp add: mb' stalled_def stall_push_sum)
  then show ?thesis using cap_inv_dequeue [OF inv d] stall_push_sorted
    by (auto simp: cap_inv_def mb' visible_size_def split: if_splits)
qed

text \<open>Putting messages back changes the heap only.\<close>

lemma reanalyzeList_result:
  assumes "reanalyzeList lt t mb = Inr mb'"
  shows "\<exists>hp ws. mb' = mb\<lparr>mb_prio_heap := hp, mb_wakeups := ws\<rparr> \<and> length hp = length (mb_prio_heap mb) + length lt"
  using assms
proof (induction lt arbitrary: mb)
  case Nil
  then show ?case by (metis MessageBuffer.surjective MessageBuffer.update_convs(2,18) add.right_neutral list.size(3) reanalyzeList.simps(1) sum.inject(2))
next
  case (Cons m lt)
  then have "reanalyzeList lt t (mb\<lparr>mb_prio_heap := push_heap msg_greater (mb_prio_heap mb) m, mb_wakeups := mb_wakeups mb @ [t]\<rparr>) = Inr mb'"
    by (auto simp: bindR_Inr_iff)
  from Cons.IH [OF this] show ?case by fastforce
qed

lemma sum_filter_map_of:
  assumes "map_of es a = Some ms" "distinct (map fst es)"
  shows "sum_list (map (length \<circ> snd) (filter (\<lambda>p. fst p \<noteq> a) es)) + length ms = sum_list (map (length \<circ> snd) es)"
  using assms
proof (induction es)
  case (Cons e es)
  show ?case
  proof (cases "fst e = a")
    case True
    then have "\<forall>p \<in> set es. fst p \<noteq> a" using Cons.prems(2) by (auto simp: image_iff)
    then have "filter (\<lambda>p. fst p \<noteq> a) es = es" by simp
    then show ?thesis using True Cons.prems(1) by (cases e) simp
  next
    case False
    then show ?thesis using Cons by (cases e) simp
  qed
qed simp

lemma reanalyze_inv:
  assumes inv: "cap_inv cap t mb" and r: "reanalyzeMessages a t mb = Inr mb'"
  shows "cap_inv cap t mb'"
proof -
  obtain ms mb2 where ms: "map_of (mb_stall_msg_map mb) a = Some ms"
      and l: "reanalyzeList ms t (mb\<lparr>mb_stall_map_size := mb_stall_map_size mb - int (length ms)\<rparr>) = Inr mb2"
      and mb': "mb' = mb2\<lparr>mb_stall_msg_map := filter (\<lambda>p. fst p \<noteq> a) (mb_stall_msg_map mb2)\<rparr>"
    using r by (auto simp: reanalyzeMessages_def bindR_Inr_iff Let_def split: option.splits)
  obtain hp ws where mb2: "mb2 = mb\<lparr>mb_stall_map_size := mb_stall_map_size mb - int (length ms), mb_prio_heap := hp, mb_wakeups := ws\<rparr>"
      "length hp = length (mb_prio_heap mb) + length ms"
    using reanalyzeList_result [OF l] by auto
  have s: "sorted_wrt (<) (map fst (mb_stall_msg_map mb))" using inv by (simp add: cap_inv_def)
  then have "distinct (map fst (mb_stall_msg_map mb))" by (simp add: strict_sorted_iff)
  from sum_filter_map_of [OF ms this] have "stalled mb' + length ms = stalled mb" by (simp add: stalled_def mb' mb2)
  moreover have "sorted_wrt (<) (map fst (filter (\<lambda>p. fst p \<noteq> a) (mb_stall_msg_map mb)))"
    using s by (simp add: sorted_wrt_map sorted_wrt_filter)
  ultimately show ?thesis using inv mb2(2) by (auto simp: cap_inv_def mb' mb2(1) visible_size_def split: if_splits)
qed

lemma reanalyze_fold:
  assumes "foldR (reanalyze_entry t) es mb = Inr mb'"
  shows "\<exists>hp ws. mb' = mb\<lparr>mb_prio_heap := hp, mb_wakeups := ws, mb_stall_map_size := mb_stall_map_size mb - int (sum_list (map (length \<circ> snd) es))\<rparr>
     \<and> length hp = length (mb_prio_heap mb) + sum_list (map (length \<circ> snd) es)"
  using assms
proof (induction es arbitrary: mb)
  case Nil
  then show ?case by (intro exI [of _ "mb_prio_heap mb"] exI [of _ "mb_wakeups mb"]) simp
next
  case (Cons e es)
  obtain mb1 where mb1: "reanalyze_entry t e mb = Inr mb1" "foldR (reanalyze_entry t) es mb1 = Inr mb'"
    using Cons.prems by (auto simp: bindR_Inr_iff)
  have "reanalyzeList (snd e) t (mb\<lparr>mb_stall_map_size := mb_stall_map_size mb - int (length (snd e))\<rparr>) = Inr mb1"
    using mb1(1) by (auto simp: reanalyze_entry_def bindR_Inr_iff Let_def)
  from reanalyzeList_result [OF this] Cons.IH [OF mb1(2)] show ?case by (fastforce simp: algebra_simps)
qed

lemma reanalyzeAll_inv:
  assumes inv: "cap_inv cap t mb" and r: "reanalyzeAllMessages t mb = Inr mb'"
  shows "cap_inv cap t mb'"
proof -
  obtain mb1 where "foldR (reanalyze_entry t) (mb_stall_msg_map mb) mb = Inr mb1" "mb' = mb1\<lparr>mb_stall_msg_map := []\<rparr>"
    using r by (auto simp: reanalyzeAllMessages_def bindR_Inr_iff)
  then obtain hp ws where "mb' = mb\<lparr>mb_prio_heap := hp, mb_wakeups := ws, mb_stall_map_size := mb_stall_map_size mb - int (stalled mb), mb_stall_msg_map := []\<rparr>"
      "length hp = length (mb_prio_heap mb) + stalled mb"
    using reanalyze_fold unfolding stalled_def by blast
  then show ?thesis using inv by (auto simp: cap_inv_def stalled_def visible_size_def split: if_splits)
qed

lemma recycle_inv:
  assumes "cap_inv cap t mb" "recycle t latency mb = Inr mb'"
  shows "cap_inv cap t mb'"
  using assms by (auto simp: recycle_def bindR_Inr_iff Let_def cap_inv_def stalled_def visible_size_def mb_isReady_def split: if_splits list.splits)

lemma cap_inv_step:
  assumes "cap_inv cap t (fst st)" "mb_step rr wu offset (t, op) st = Inr st'"
  shows "cap_inv cap t (fst st')"
proof -
  obtain mb ins outs where st: "st = (mb, ins, outs)" by (cases st)
  have inv: "cap_inv cap t mb" using assms(1) by (simp add: st)
  show ?thesis
  proof (cases op)
    case (Enqueue m d r)
    then show ?thesis using assms(2) inv cap_inv_enqueue [OF inv] by (auto simp: st bindR_Inr_iff split: if_splits)
  next
    case Dequeue
    then show ?thesis using assms(2) inv cap_inv_dequeue(1) [OF inv] by (auto simp: st bindR_Inr_iff split: if_splits)
  next
    case (Stall a)
    then show ?thesis using assms(2) inv stall_inv [OF inv] by (auto simp: st bindR_Inr_iff split: if_splits)
  next
    case (Reanalyze a)
    then show ?thesis using assms(2) inv reanalyze_inv [OF inv] by (auto simp: st bindR_Inr_iff split: if_splits)
  next
    case ReanalyzeAll
    then show ?thesis using assms(2) reanalyzeAll_inv [OF inv] by (auto simp: st bindR_Inr_iff)
  next
    case (Recycle l)
    then show ?thesis using assms(2) inv recycle_inv [OF inv] by (auto simp: st bindR_Inr_iff split: if_splits)
  qed
qed

lemma cap_inv_run:
  assumes "cap_inv cap now (fst st)" "sorted (now # map fst ops)" "foldR (mb_step rr wu offset) ops st = Inr st'"
  shows "\<exists>t. cap_inv cap t (fst st')"
  using assms
proof (induction ops arbitrary: now st)
  case (Cons top ops)
  obtain t op where top: "top = (t, op)" by fastforce
  obtain st1 where st1: "mb_step rr wu offset (t, op) st = Inr st1" "foldR (mb_step rr wu offset) ops st1 = Inr st'"
    using Cons.prems(3) by (auto simp: top bindR_Inr_iff)
  have "cap_inv cap t (fst st)" using cap_inv_later [OF Cons.prems(1)] Cons.prems(2) by (simp add: top)
  then have "cap_inv cap t (fst st1)" using st1(1) by (rule cap_inv_step)
  then show ?case using Cons.IH st1(2) Cons.prems(2) by (simp add: top)
qed auto

section \<open>Order\<close>

definition mkey :: "Message \<Rightarrow> tick \<times> u64" where
  "mkey m = (m_LastEnqueueTime m, m_msg_counter m)"

interpretation mh: heap_order msg_greater mkey
  by unfold_locales (auto simp: msg_greater_def mkey_def less_prod_def)

text \<open>The messages of a buffer in the order they leave in, and what has been given out to them.\<close>

definition fifo :: "MessageBuffer \<Rightarrow> Message list \<Rightarrow> bool" where
  "fifo mb q \<longleftrightarrow> heap mkey (mb_prio_heap mb) \<and> mset q = mset (mb_prio_heap mb) \<and> sorted_wrt (\<lambda>a b. mkey a < mkey b) q
     \<and> (\<forall>m \<in> set q. m_LastEnqueueTime m \<le> mb_last_arrival_time mb \<and> m_msg_counter m \<le> mb_msg_counter mb)"

lemma fifo_enqueue:
  assumes f: "fifo mb q" and s: "mb_strict_fifo mb" and c: "mb_msg_counter mb < mb_msg_counter mb + 1"
    and e: "mb_enqueue rr False random m t delta mb = Inr mb'"
  shows "\<exists>m'. m_ptr m' = m_ptr m \<and> fifo mb' (q @ [m'])" "mb_strict_fifo mb'" "mb_msg_counter mb' = mb_msg_counter mb + 1"
proof -
  obtain m' where r: "mb_prio_heap mb' = push_heap msg_greater (mb_prio_heap mb) m'" "m_ptr m' = m_ptr m"
    "m_msg_counter m' = mb_msg_counter mb + 1" "mb_msg_counter mb' = mb_msg_counter mb + 1" "mb_strict_fifo mb' = mb_strict_fifo mb"
    "mb_last_arrival_time mb \<le> m_LastEnqueueTime m'" "mb_last_arrival_time mb' = m_LastEnqueueTime m'"
    using e by (rule enqueue_result) (use s in simp)
  have less: "mkey n < mkey m'" and le: "m_LastEnqueueTime n \<le> m_LastEnqueueTime m'" "m_msg_counter n \<le> mb_msg_counter mb + 1"
    if "n \<in> set q" for n
  proof -
    have "m_LastEnqueueTime n \<le> mb_last_arrival_time mb" "m_msg_counter n \<le> mb_msg_counter mb" using f that by (simp_all add: fifo_def)
    then show "mkey n < mkey m'" "m_LastEnqueueTime n \<le> m_LastEnqueueTime m'" "m_msg_counter n \<le> mb_msg_counter mb + 1"
      using r(3,6) c by (auto simp: mkey_def less_prod_def)
  qed
  have "fifo mb' (q @ [m'])"
    using f less le r(3,4,7) unfolding fifo_def r(1)
    by (auto simp: mh.push_heap_heap mh.push_heap_mset sorted_wrt_append)
  then show "\<exists>m'. m_ptr m' = m_ptr m \<and> fifo mb' (q @ [m'])" using r(2) by blast
  show "mb_strict_fifo mb'" "mb_msg_counter mb' = mb_msg_counter mb + 1" using r(4,5) s by simp_all
qed

lemma fifo_dequeue:
  assumes f: "fifo mb q" and d: "mb_dequeue t mb = Inr (mb', m')"
  obtains m q' where "q = m # q'" "m_ptr m' = m_ptr m" "fifo mb' q'" "mb_strict_fifo mb' = mb_strict_fifo mb"
    "mb_msg_counter mb' = mb_msg_counter mb"
proof -
  obtain m ms where r: "mb_prio_heap mb = m # ms" "m_ptr m' = m_ptr m" "mb_prio_heap mb' = pop_heap msg_greater (m # ms)"
      "mb_msg_counter mb' = mb_msg_counter mb" "mb_last_arrival_time mb' = mb_last_arrival_time mb" "mb_strict_fifo mb' = mb_strict_fifo mb"
    using d by (rule dequeue_result) blast
  have h: "heap mkey (m # ms)" "mset q = mset (m # ms)" "sorted_wrt (\<lambda>a b. mkey a < mkey b) q" using f r(1) by (simp_all add: fifo_def)
  obtain n q' where q: "q = n # q'" using h(2) by (cases q) auto
  have "n = m"
  proof (rule ccontr)
    assume ne: "n \<noteq> m"
    have "n \<in> set (m # ms)" "m \<in> set q" using h(2) q by (metis list.set_intros(1) set_mset_mset)+
    then have "mkey n < mkey m" using h(3) q ne by simp
    moreover have "mkey m \<le> mkey n"
      using mh.heap_top [OF h(1)] \<open>n \<in> set (m # ms)\<close> unfolding in_set_conv_nth by fastforce
    ultimately show False by simp
  qed
  moreover have "fifo mb' q'"
    using f h q \<open>n = m\<close> mh.pop_heap_heap [OF h(1)] r(4,5) unfolding fifo_def r(3) by simp
  ultimately show ?thesis using that q r(2,4,6) by blast
qed

lemma fifo_run:
  assumes "fifo mb q" "ins = outs @ map m_ptr q" "mb_strict_fifo mb" "unat (mb_msg_counter mb) + length ops < 2 ^ 64"
    "\<And>op. op \<in> snd ` set ops \<Longrightarrow> op = Dequeue \<or> (\<exists>m delta random. op = Enqueue m delta random)"
    "foldR (mb_step rr False offset) ops (mb, ins, outs) = Inr (mb', ins', outs')"
  shows "\<exists>q'. fifo mb' q' \<and> ins' = outs' @ map m_ptr q'"
  using assms
proof (induction ops arbitrary: mb ins outs q)
  case (Cons top ops)
  obtain t op where top: "top = (t, op)" by fastforce
  obtain mb1 ins1 outs1 where st1: "mb_step rr False offset (t, op) (mb, ins, outs) = Inr (mb1, ins1, outs1)"
      "foldR (mb_step rr False offset) ops (mb1, ins1, outs1) = Inr (mb', ins', outs')"
    using Cons.prems(6) by (auto simp: top bindR_Inr_iff)
  have bound: "unat (mb_msg_counter mb) + 1 < 2 ^ 64" using Cons.prems(4) by simp
  then have next1: "unat (mb_msg_counter mb + 1) = unat (mb_msg_counter mb) + 1"
    by (simp add: unat_word_ariths)
  then have c: "mb_msg_counter mb < mb_msg_counter mb + 1" by (simp add: word_less_nat_alt)
  have "\<exists>q1. fifo mb1 q1 \<and> ins1 = outs1 @ map m_ptr q1 \<and> mb_strict_fifo mb1
      \<and> unat (mb_msg_counter mb1) \<le> unat (mb_msg_counter mb) + 1"
  proof -
    consider "op = Dequeue" | m delta random where "op = Enqueue m delta random" using Cons.prems(5) top by fastforce
    then show ?thesis
    proof cases
      case 1
      show ?thesis
      proof (cases "mb_isReady t mb")
        case True
        then obtain m' where d: "mb_dequeue t mb = Inr (mb1, m')" "ins1 = ins" "outs1 = outs @ [m_ptr m']"
          using st1(1) 1 by (auto simp: bindR_Inr_iff)
        from Cons.prems(1) d(1) show ?thesis by (rule fifo_dequeue) (use Cons.prems(2,3) d(2,3) in auto)
      qed (use st1(1) 1 Cons.prems(1-3) in auto)
    next
      case 2
      show ?thesis
      proof (cases "areNSlotsAvailable 1 t mb")
        case True
        then have e: "mb_enqueue rr False random m t delta mb = Inr mb1" "ins1 = ins @ [m_ptr m]" "outs1 = outs"
          using st1(1) 2 by (auto simp: bindR_Inr_iff)
        note r = fifo_enqueue [OF Cons.prems(1,3) c e(1)]
        obtain m' where "m_ptr m' = m_ptr m" "fifo mb1 (q @ [m'])" using r(1) by blast
        then show ?thesis using r(2,3) next1 Cons.prems(2) e(2,3) by (intro exI [of _ "q @ [m']"]) simp
      qed (use st1(1) 2 Cons.prems(1-3) in auto)
    qed
  qed
  then obtain q1 where q1: "fifo mb1 q1" "ins1 = outs1 @ map m_ptr q1" "mb_strict_fifo mb1"
      "unat (mb_msg_counter mb1) \<le> unat (mb_msg_counter mb) + 1" by blast
  have "unat (mb_msg_counter mb1) + length ops < 2 ^ 64" using q1(4) Cons.prems(4) by simp
  moreover have "\<And>op. op \<in> snd ` set ops \<Longrightarrow> op = Dequeue \<or> (\<exists>m delta random. op = Enqueue m delta random)"
    using Cons.prems(5) by (simp add: image_iff)
  ultimately show ?case using Cons.IH [OF q1(1-3) _ _ st1(2)] by blast
qed auto

section \<open>Properties\<close>



definition demo_mb_ops :: "(tick \<times> MbOp) list" where
  "demo_mb_ops = [(5, Enqueue (Message_new 1 0) 2 0), (5, Enqueue (Message_new 2 5) 2 0), (5, Enqueue (Message_new 3 5) 2 0), (7, Dequeue)]"

lemma demo_mb_run: "foldR (mb_step False False (\<lambda>_. 0)) demo_mb_ops (mb_start 2 True False) =
     Inr (fst (projr (foldR (mb_step False False (\<lambda>_. 0)) demo_mb_ops (mb_start 2 True False))), [1, 2], [1])"
  by code_simp



end
