(* ===== verification/NetworkInterface.thy ===== *)
theory NetworkInterface
  imports GarnetUnits MessageBuffer
begin

text \<open>
  \<open>mem/ruby/network/garnet2.0/NetworkInterface\<close>: the end point between the protocol's message buffers and the
  network. It cuts messages into flits, one packet for each destination, sends them under credit, and hands the
  packets that arrive over to the protocol, keeping the last flit of a packet when there is no room.
  Messages that flits point to live in a store, a list indexed by pointer, since a message and its copies are
  changed through pointers. Links are arguments, as in \<open>GarnetUnits\<close>; statistics counters are not kept, but the
  subtractions of cycle counts that can throw are.
\<close>

section \<open>Messages and the surroundings\<close>

datatype MessageSizeType = Control | Data | Request_Control | Reissue_Control | Response_Data | ResponseL2hit_Data
  | ResponseLocal_Data | Response_Control | Writeback_Data | Writeback_Control | Broadcast_Control
  | Multicast_Control | Forwarded_Control | Invalidate_Control | Unblock_Control | Persistent_Control
  | Completion_Control

record NetMsg =
  nm_msg :: Message
  nm_Destination :: NetDest
  nm_MessageSize :: MessageSizeType

type_synonym MsgStore = "NetMsg list"

text \<open>What a wake-up of an interface depends on: the network, the clock, the generated numbering of the machines
  (\<open>e_base_number i\<close> is the first number of type \<open>i\<close>, \<open>e_base_count\<close> the number of machines of each type), the
  router of each interface, and the settings and the random delay of the message buffers.\<close>

record NiEnv =
  e_net :: GarnetNetwork
  e_control_msg_size :: int
  e_data_msg_size :: int
  e_clockPeriod :: tick
  e_curCycle :: cycles
  e_curTime :: tick
  e_base_number :: "nat \<Rightarrow> nat"
  e_base_count :: "nat list"
  e_router_of :: "nat \<Rightarrow> int"
  e_randomization :: bool
  e_warmup :: bool
  e_random :: tick

definition MessageSizeType_to_int :: "NiEnv \<Rightarrow> MessageSizeType \<Rightarrow> int" where
  "MessageSizeType_to_int env size_type =
     (if size_type \<in> {Control, Request_Control, Reissue_Control, Response_Control, Writeback_Control, Broadcast_Control,
        Multicast_Control, Forwarded_Control, Invalidate_Control, Unblock_Control, Persistent_Control, Completion_Control}
      then e_control_msg_size env else e_data_msg_size env)"

definition cycles_minus :: "cycles \<Rightarrow> cycles \<Rightarrow> cycles result" where
  "cycles_minus c b = (if c \<ge> b then Inr (c - b) else Inl Exception)"

definition ticksToCycles :: "NiEnv \<Rightarrow> tick \<Rightarrow> cycles result" where
  "ticksToCycles env t = bindR (divCeil t (e_clockPeriod env)) (\<lambda>c. Inr (unat c))"

section \<open>The interface\<close>

text \<open>A pointer to a message buffer may be null.\<close>

record NetworkInterface =
  ni_id :: int
  ni_virtual_networks :: int
  ni_vc_per_vnet :: int
  ni_router_id :: int
  ni_vc_allocator :: "int list"
  ni_vc_round_robin :: int
  ni_outFlitQueue :: flitBuffer
  ni_outCreditQueue :: flitBuffer
  ni_deadlock_threshold :: int
  ni_outVcState :: "OutVcState list"
  ni_inNetLink :: nat
  ni_outNetLink :: nat
  ni_inCreditLink :: nat
  ni_outCreditLink :: nat
  ni_stall_queue :: "flit list"
  ni_stall_count :: "int list"
  ni_niOutVcs :: "flitBuffer list"
  ni_out_vcs_enqueue_time :: "cycles list"
  ni_inNode_ptr :: "MessageBuffer option list"
  ni_outNode_ptr :: "MessageBuffer option list"
  ni_vc_busy_counter :: "int list"

definition NetworkInterface_new :: "int \<Rightarrow> GarnetNetwork \<Rightarrow> int \<Rightarrow> NetworkInterface" where
  "NetworkInterface_new nid g deadlock_threshold =
     (let nets = nat (g_virtual_networks g); num_vcs = nat (g_vcs_per_vnet g * g_virtual_networks g) in
      \<lparr>ni_id = nid, ni_virtual_networks = g_virtual_networks g, ni_vc_per_vnet = g_vcs_per_vnet g, ni_router_id = - 1,
       ni_vc_allocator = replicate nets 0, ni_vc_round_robin = 0, ni_outFlitQueue = flitBuffer_new,
       ni_outCreditQueue = flitBuffer_new, ni_deadlock_threshold = deadlock_threshold, ni_outVcState = [],
       ni_inNetLink = 0, ni_outNetLink = 0, ni_inCreditLink = 0, ni_outCreditLink = 0,
       ni_stall_queue = [], ni_stall_count = replicate nets 0, ni_niOutVcs = replicate num_vcs flitBuffer_new,
       ni_out_vcs_enqueue_time = replicate num_vcs INFINITE, ni_inNode_ptr = [], ni_outNode_ptr = [],
       ni_vc_busy_counter = replicate nets 0\<rparr>)"

definition ni_init :: "GarnetNetwork \<Rightarrow> NetworkInterface \<Rightarrow> NetworkInterface result" where
  "ni_init g ni =
     bindR (new_states g [0 .. ni_vc_per_vnet ni * ni_virtual_networks ni - 1]) (\<lambda>states.
       Inr (ni\<lparr>ni_outVcState := ni_outVcState ni @ states\<rparr>))"

definition ni_addInPort :: "nat \<Rightarrow> nat \<Rightarrow> NetworkInterface \<Rightarrow> NetworkInterface" where
  "ni_addInPort in_link credit_link ni = ni\<lparr>ni_inNetLink := in_link, ni_outCreditLink := credit_link\<rparr>"

definition ni_addOutPort :: "nat \<Rightarrow> nat \<Rightarrow> int \<Rightarrow> NetworkInterface \<Rightarrow> NetworkInterface" where
  "ni_addOutPort out_link credit_link router_id ni =
     ni\<lparr>ni_inCreditLink := credit_link, ni_outNetLink := out_link, ni_router_id := router_id\<rparr>"

fun set_consumers :: "MessageBuffer option list \<Rightarrow> MessageBuffer option list result" where
  "set_consumers [] = Inr []"
| "set_consumers (None # bs) = bindR (set_consumers bs) (\<lambda>cs. Inr (None # cs))"
| "set_consumers (Some b # bs) = bindR (setConsumer b) (\<lambda>c. bindR (set_consumers bs) (\<lambda>cs. Inr (Some c # cs)))"

definition addNode :: "MessageBuffer option list \<Rightarrow> MessageBuffer option list \<Rightarrow> NetworkInterface \<Rightarrow> NetworkInterface result" where
  "addNode ins outs ni =
     bindR (set_consumers ins) (\<lambda>ins1. Inr (ni\<lparr>ni_inNode_ptr := ins1, ni_outNode_ptr := outs\<rparr>))"

definition dequeueCallback :: "NiEnv \<Rightarrow> Wakeup list" where
  "dequeueCallback env = [WakeConsumer (e_curCycle env + 1)]"

text \<open>The network and queueing delays that are added to the counters.\<close>

definition incrementStats :: "NiEnv \<Rightarrow> flit \<Rightarrow> (cycles \<times> cycles) result" where
  "incrementStats env t_flit =
     bindR (cycles_minus (f_dequeue_time t_flit) (f_enqueue_time t_flit)) (\<lambda>d.
     bindR (cycles_minus d 1) (\<lambda>network_delay.
     bindR (cycles_minus (e_curCycle env) (f_dequeue_time t_flit)) (\<lambda>dest_queueing_delay.
       Inr (network_delay, f_src_delay t_flit + dest_queueing_delay))))"

definition sendCredit :: "NiEnv \<Rightarrow> flit \<Rightarrow> bool \<Rightarrow> NetworkInterface \<Rightarrow> NetworkInterface" where
  "sendCredit env t_flit is_free ni =
     ni\<lparr>ni_outCreditQueue := fb_insert (Credit_new (f_vc t_flit) is_free (e_curCycle env)) (ni_outCreditQueue ni)\<rparr>"

section \<open>Handing messages over to the protocol\<close>

definition out_buffer :: "MessageBuffer option list \<Rightarrow> int \<Rightarrow> MessageBuffer result" where
  "out_buffer outs vnet = bindR (vec_at outs vnet) (\<lambda>b. case b of None \<Rightarrow> Inl Undefined | Some b \<Rightarrow> Inr b)"

definition put_out_buffer :: "int \<Rightarrow> MessageBuffer \<Rightarrow> NetworkInterface \<Rightarrow> NetworkInterface result" where
  "put_out_buffer vnet b ni =
     bindR (vec_put vnet (Some b) (ni_outNode_ptr ni)) (\<lambda>outs. Inr (ni\<lparr>ni_outNode_ptr := outs\<rparr>))"

text \<open>The common part of the two places a packet is handed over in: the message enters the protocol buffer, a
  credit with a free signal goes back and the counters are updated.\<close>

definition eject :: "NiEnv \<Rightarrow> MsgStore \<Rightarrow> flit \<Rightarrow> NetworkInterface \<Rightarrow> NetworkInterface result" where
  "eject env store t_flit ni =
     bindR (out_buffer (ni_outNode_ptr ni) (f_vnet t_flit)) (\<lambda>b.
     bindR (vec_at store (int (f_msg_ptr t_flit))) (\<lambda>nm.
     bindR (mb_enqueue (e_randomization env) (e_warmup env) (e_random env) (nm_msg nm) (e_curTime env) (e_clockPeriod env) b) (\<lambda>b1.
     bindR (put_out_buffer (f_vnet t_flit) b1 ni) (\<lambda>ni1.
     bindR (incrementStats env t_flit) (\<lambda>_. Inr (sendCredit env t_flit True ni1))))))"

text \<open>The place of the first stalled flit whose protocol buffer has a slot.\<close>

fun first_ejectable :: "tick \<Rightarrow> MessageBuffer option list \<Rightarrow> nat \<Rightarrow> flit list \<Rightarrow> nat option result" where
  "first_ejectable curTime outs i [] = Inr None"
| "first_ejectable curTime outs i (f # fs) =
     bindR (out_buffer outs (f_vnet f)) (\<lambda>b.
       if areNSlotsAvailable 1 curTime b then Inr (Some i) else first_ejectable curTime outs (Suc i) fs)"

definition checkStallQueue :: "NiEnv \<Rightarrow> MsgStore \<Rightarrow> NetworkInterface \<Rightarrow> (NetworkInterface \<times> bool) result" where
  "checkStallQueue env store ni =
     bindR (first_ejectable (e_curTime env) (ni_outNode_ptr ni) 0 (ni_stall_queue ni)) (\<lambda>r.
       case r of
         None \<Rightarrow> Inr (ni, False)
       | Some i \<Rightarrow>
           let stallFlit = ni_stall_queue ni ! i; vnet = f_vnet stallFlit in
           bindR (eject env store stallFlit ni) (\<lambda>ni1.
           bindR (vec_modify vnet (\<lambda>c. Inr (c - 1)) (ni_stall_count ni1)) (\<lambda>count.
           let ni2 = ni1\<lparr>ni_stall_queue := take i (ni_stall_queue ni1) @ drop (Suc i) (ni_stall_queue ni1), ni_stall_count := count\<rparr> in
           bindR (vec_at count vnet) (\<lambda>c.
             if c = 0
             then bindR (out_buffer (ni_outNode_ptr ni2) vnet) (\<lambda>b.
                  bindR (put_out_buffer vnet (unregisterDequeueCallback b) ni2) (\<lambda>ni3. Inr (ni3, True)))
             else Inr (ni2, True)))))"

definition is_tail :: "flit \<Rightarrow> bool" where
  "is_tail f \<longleftrightarrow> f_type f = TAIL \<or> f_type f = HEAD_TAIL"

text \<open>The part of \<open>wakeup\<close> that stalls a flit, and the one that reads the incoming link.\<close>

definition stall_flit :: "flit \<Rightarrow> NetworkInterface \<Rightarrow> NetworkInterface result" where
  "stall_flit t_flit ni =
     bindR (vec_modify (f_vnet t_flit) (\<lambda>c. Inr (c + 1)) (ni_stall_count ni)) (\<lambda>count.
     bindR (out_buffer (ni_outNode_ptr ni) (f_vnet t_flit)) (\<lambda>b.
       put_out_buffer (f_vnet t_flit) (registerDequeueCallback b)
         (ni\<lparr>ni_stall_queue := ni_stall_queue ni @ [t_flit], ni_stall_count := count\<rparr>)))"

definition receive_flit :: "NiEnv \<Rightarrow> MsgStore \<Rightarrow> bool \<Rightarrow> flit \<Rightarrow> NetworkInterface \<Rightarrow> NetworkInterface result" where
  "receive_flit env store messageEnqueuedThisCycle t_flit ni =
     (if is_tail t_flit
      then bindR (if messageEnqueuedThisCycle then Inr False
                  else bindR (out_buffer (ni_outNode_ptr ni) (f_vnet t_flit)) (\<lambda>b. Inr (areNSlotsAvailable 1 (e_curTime env) b)))
             (\<lambda>space. if space then eject env store t_flit ni else stall_flit t_flit ni)
      else bindR (incrementStats env t_flit) (\<lambda>_. Inr (sendCredit env t_flit False ni)))"

definition receive :: "NiEnv \<Rightarrow> MsgStore \<Rightarrow> bool \<Rightarrow> NetworkLink \<Rightarrow> NetworkInterface \<Rightarrow> (NetworkLink \<times> NetworkInterface) result" where
  "receive env store messageEnqueuedThisCycle in_link ni =
     (if nl_isReady (e_curCycle env) in_link
      then bindR (consumeLink in_link) (\<lambda>(l1, f0).
           bindR (receive_flit env store messageEnqueuedThisCycle (f0\<lparr>f_dequeue_time := e_curCycle env\<rparr>) ni) (\<lambda>ni1. Inr (l1, ni1)))
      else Inr (in_link, ni))"

definition receive_credit :: "NiEnv \<Rightarrow> NetworkLink \<Rightarrow> NetworkInterface \<Rightarrow> (NetworkLink \<times> NetworkInterface) result" where
  "receive_credit env credit_link ni =
     (if nl_isReady (e_curCycle env) credit_link
      then bindR (consumeLink credit_link) (\<lambda>(l1, t_credit).
           bindR (vec_modify (f_vc t_credit) ovs_increment_credit (ni_outVcState ni)) (\<lambda>ss.
           bindR (if f_is_free_signal t_credit
                  then vec_modify (f_vc t_credit) (\<lambda>s. Inr (ovs_setState IDLE (e_curCycle env) s)) ss else Inr ss) (\<lambda>ss1.
             Inr (l1, ni\<lparr>ni_outVcState := ss1\<rparr>))))
      else Inr (credit_link, ni))"

section \<open>Cutting messages into flits\<close>

text \<open>The search of \<open>calculateVC\<close> over the channels of a virtual network, starting where the last one ended.\<close>

fun vc_scan :: "cycles \<Rightarrow> int \<Rightarrow> nat \<Rightarrow> NetworkInterface \<Rightarrow> (NetworkInterface \<times> int option) result" where
  "vc_scan curCycle vnet 0 ni = Inr (ni, None)"
| "vc_scan curCycle vnet (Suc n) ni =
     bindR (vec_at (ni_vc_allocator ni) vnet) (\<lambda>delta.
     bindR (vec_put vnet (if delta + 1 = ni_vc_per_vnet ni then 0 else delta + 1) (ni_vc_allocator ni)) (\<lambda>al.
     let ni1 = ni\<lparr>ni_vc_allocator := al\<rparr>; vc = vnet * ni_vc_per_vnet ni + delta in
     bindR (vec_at (ni_outVcState ni) vc) (\<lambda>s.
       if isInState IDLE curCycle s then Inr (ni1, Some vc) else vc_scan curCycle vnet n ni1)))"

definition calculateVC :: "cycles \<Rightarrow> int \<Rightarrow> NetworkInterface \<Rightarrow> (NetworkInterface \<times> int) result" where
  "calculateVC curCycle vnet ni =
     bindR (vc_scan curCycle vnet (nat (ni_vc_per_vnet ni)) ni) (\<lambda>(ni1, r).
       case r of
         Some vc \<Rightarrow> bindR (vec_put vnet 0 (ni_vc_busy_counter ni1)) (\<lambda>busy. Inr (ni1\<lparr>ni_vc_busy_counter := busy\<rparr>, vc))
       | None \<Rightarrow>
           bindR (vec_at (ni_vc_busy_counter ni1) vnet) (\<lambda>c.
             if c + 1 > ni_deadlock_threshold ni1 then Inl Panic
             else bindR (vec_put vnet (c + 1) (ni_vc_busy_counter ni1)) (\<lambda>busy.
                    Inr (ni1\<lparr>ni_vc_busy_counter := busy\<rparr>, - 1))))"

text \<open>The size in bytes over the flit size, rounded up. The code divides doubles, which is exact enough for 32-bit
  numbers.\<close>

definition num_flits_of :: "NiEnv \<Rightarrow> MessageSizeType \<Rightarrow> int result" where
  "num_flits_of env size_type =
     (let sz = g_ni_flit_size (e_net env)
      in if sz = 0 then Inl Undefined else Inr ((MessageSizeType_to_int env size_type + sz - 1) div sz))"

text \<open>The destination set of one machine, given by its number, and whether its type was found.\<close>

definition personal_dest_of :: "NiEnv \<Rightarrow> nat \<Rightarrow> (NetDest \<times> bool) result" where
  "personal_dest_of env destID =
     bindR (nd_new (e_base_count env)) (\<lambda>personal_dest.
       case find (\<lambda>m. destID \<ge> e_base_number env m \<and> destID < e_base_number env (m + 1)) [0 ..< length (e_base_count env)] of
         None \<Rightarrow> Inr (personal_dest, False)
       | Some m \<Rightarrow> bindR (nd_add (m, destID - e_base_number env m) (nd_clear personal_dest)) (\<lambda>d. Inr (d, True)))"

definition insert_flit :: "NiEnv \<Rightarrow> int \<Rightarrow> int \<Rightarrow> RouteInfo \<Rightarrow> int \<Rightarrow> tick \<Rightarrow> nat \<Rightarrow> int \<Rightarrow> flitBuffer list \<Rightarrow> flitBuffer list result" where
  "insert_flit env vc vnet route num_flits msg_time ptr i bufs =
     bindR (ticksToCycles env msg_time) (\<lambda>t.
     bindR (cycles_minus (e_curCycle env) t) (\<lambda>src_delay.
       vec_modify vc (\<lambda>b. Inr (fb_insert ((flit_new i vc vnet route num_flits ptr (e_curCycle env))\<lparr>f_src_delay := src_delay\<rparr>) b)) bufs))"

text \<open>The body of the loop over the destinations once a channel is found. The local copy of the destination set,
  which the code updates along with the one in the message, is not read again.\<close>

definition send_packet :: "NiEnv \<Rightarrow> int \<Rightarrow> int \<Rightarrow> bool \<Rightarrow> Message \<Rightarrow> nat \<Rightarrow> int \<Rightarrow> MsgStore \<Rightarrow> NetworkInterface
    \<Rightarrow> (MsgStore \<times> NetworkInterface) result" where
  "send_packet env vnet num_flits multi msg destID vc store ni =
     bindR (vec_at store (int (m_ptr msg))) (\<lambda>nm.
     let ptr = length store; clone = nm\<lparr>nm_msg := msg\<lparr>m_ptr := ptr\<rparr>\<rparr> in
     bindR (if multi
            then bindR (personal_dest_of env destID) (\<lambda>(personal_dest, found).
                 bindR (nd_removeNetDest personal_dest (nm_Destination nm)) (\<lambda>rest.
                   Inr (if found then clone\<lparr>nm_Destination := personal_dest\<rparr> else clone, nm\<lparr>nm_Destination := rest\<rparr>)))
            else Inr (clone, nm)) (\<lambda>(clone1, nm1).
     let route = \<lparr>r_vnet = vnet, r_net_dest = nm_Destination clone1, r_src_ni = ni_id ni, r_src_router = ni_router_id ni,
                  r_dest_ni = int destID, r_dest_router = e_router_of env destID, r_hops_traversed = - 1\<rparr> in
     bindR (foldR (insert_flit env vc vnet route num_flits (m_time msg) ptr) [0 .. num_flits - 1] (ni_niOutVcs ni)) (\<lambda>bufs.
     bindR (vec_put vc (e_curCycle env) (ni_out_vcs_enqueue_time ni)) (\<lambda>times.
     bindR (vec_modify vc (\<lambda>s. Inr (ovs_setState ACTIVE (e_curCycle env) s)) (ni_outVcState ni)) (\<lambda>states.
       Inr (store[m_ptr msg := nm1] @ [clone1],
            ni\<lparr>ni_niOutVcs := bufs, ni_out_vcs_enqueue_time := times, ni_outVcState := states\<rparr>))))))"

fun flitisize_dests :: "NiEnv \<Rightarrow> int \<Rightarrow> int \<Rightarrow> bool \<Rightarrow> Message \<Rightarrow> nat list \<Rightarrow> MsgStore \<times> NetworkInterface
    \<Rightarrow> (MsgStore \<times> NetworkInterface \<times> bool) result" where
  "flitisize_dests env vnet num_flits multi msg [] (store, ni) = Inr (store, ni, True)"
| "flitisize_dests env vnet num_flits multi msg (destID # dests) (store, ni) =
     bindR (calculateVC (e_curCycle env) vnet ni) (\<lambda>(ni1, vc).
       if vc = - 1 then Inr (store, ni1, False)
       else bindR (send_packet env vnet num_flits multi msg destID vc store ni1)
              (flitisize_dests env vnet num_flits multi msg dests))"

definition flitisizeMessage :: "NiEnv \<Rightarrow> Message \<Rightarrow> int \<Rightarrow> MsgStore \<times> NetworkInterface \<Rightarrow> (MsgStore \<times> NetworkInterface \<times> bool) result" where
  "flitisizeMessage env msg vnet st =
     bindR (vec_at (fst st) (int (m_ptr msg))) (\<lambda>nm.
     let dest_nodes = nd_getAllDest (e_base_number env) (nm_Destination nm) in
     bindR (num_flits_of env (nm_MessageSize nm)) (\<lambda>num_flits.
       flitisize_dests env vnet num_flits (length dest_nodes > 1) msg dest_nodes st))"

section \<open>Sending flits\<close>

definition ni_get_vnet :: "NetworkInterface \<Rightarrow> int \<Rightarrow> int result" where
  "ni_get_vnet ni vc =
     (case find (\<lambda>i. vc \<ge> i * ni_vc_per_vnet ni \<and> vc < (i + 1) * ni_vc_per_vnet ni) [0 .. ni_virtual_networks ni - 1] of
        None \<Rightarrow> Inl Fatal
      | Some i \<Rightarrow> Inr i)"

text \<open>In an ordered virtual network no channel may overtake one whose message is older.\<close>

fun none_older :: "cycles \<Rightarrow> NetworkInterface \<Rightarrow> int \<Rightarrow> int list \<Rightarrow> bool result" where
  "none_older curCycle ni vc [] = Inr True"
| "none_older curCycle ni vc (t_vc # vcs) =
     bindR (vec_at (ni_niOutVcs ni) t_vc) (\<lambda>b.
       if fb_isReady curCycle b
       then bindR (vec_at (ni_out_vcs_enqueue_time ni) t_vc) (\<lambda>t.
            bindR (vec_at (ni_out_vcs_enqueue_time ni) vc) (\<lambda>v.
              if t < v then Inr False else none_older curCycle ni vc vcs))
       else none_older curCycle ni vc vcs)"

definition is_candidate_vc :: "NiEnv \<Rightarrow> NetworkInterface \<Rightarrow> int \<Rightarrow> bool result" where
  "is_candidate_vc env ni vc =
     bindR (ni_get_vnet ni vc) (\<lambda>t_vnet.
     let vc_base = t_vnet * ni_vc_per_vnet ni in
     bindR (isVNetOrdered (e_net env) t_vnet) (\<lambda>ordered.
       if ordered then none_older (e_curCycle env) ni vc [vc_base .. vc_base + ni_vc_per_vnet ni - 1] else Inr True))"

definition send_flit :: "NiEnv \<Rightarrow> int \<Rightarrow> NetworkInterface \<Rightarrow> (NetworkInterface \<times> Wakeup list) result" where
  "send_flit env vc ni =
     bindR (vec_modify vc ovs_decrement_credit (ni_outVcState ni)) (\<lambda>states.
     bindR (vec_at (ni_niOutVcs ni) vc) (\<lambda>b.
     bindR (getTopFlit b) (\<lambda>(b1, t_flit).
     bindR (vec_put vc b1 (ni_niOutVcs ni)) (\<lambda>bufs.
     bindR (if is_tail t_flit then vec_put vc INFINITE (ni_out_vcs_enqueue_time ni) else Inr (ni_out_vcs_enqueue_time ni)) (\<lambda>times.
       Inr (ni\<lparr>ni_vc_round_robin := vc, ni_outVcState := states, ni_niOutVcs := bufs, ni_out_vcs_enqueue_time := times,
               ni_outFlitQueue := fb_insert (t_flit\<lparr>f_time := e_curCycle env + 1\<rparr>) (ni_outFlitQueue ni)\<rparr>,
            [WakeLink (ni_outNetLink ni) (e_curCycle env + 1)]))))))"

fun out_scan :: "NiEnv \<Rightarrow> int \<Rightarrow> nat \<Rightarrow> NetworkInterface \<Rightarrow> (NetworkInterface \<times> Wakeup list) result" where
  "out_scan env vc0 0 ni = Inr (ni, [])"
| "out_scan env vc0 (Suc n) ni =
     (let vc = (if vc0 + 1 = int (length (ni_niOutVcs ni)) then 0 else vc0 + 1) in
      bindR (vec_at (ni_niOutVcs ni) vc) (\<lambda>b.
        if fb_isReady (e_curCycle env) b
        then bindR (vec_at (ni_outVcState ni) vc) (\<lambda>s.
               if ovs_has_credit s
               then bindR (is_candidate_vc env ni vc) (\<lambda>candidate.
                      if candidate then send_flit env vc ni else out_scan env vc n ni)
               else out_scan env vc n ni)
        else out_scan env vc n ni))"

definition scheduleOutputLink :: "NiEnv \<Rightarrow> NetworkInterface \<Rightarrow> (NetworkInterface \<times> Wakeup list) result" where
  "scheduleOutputLink env ni = out_scan env (ni_vc_round_robin ni) (length (ni_niOutVcs ni)) ni"

definition checkReschedule :: "NiEnv \<Rightarrow> NetworkInterface \<Rightarrow> Wakeup list" where
  "checkReschedule env ni =
     (if (\<exists>it \<in> set (ni_inNode_ptr ni). case it of None \<Rightarrow> False | Some b \<Rightarrow> mb_isReady (e_curTime env) b)
         \<or> (\<exists>b \<in> set (ni_niOutVcs ni). fb_isReady (e_curCycle env + 1) b)
      then [WakeConsumer (e_curCycle env + 1)] else [])"

section \<open>The wake-up\<close>

definition pick_message :: "NiEnv \<Rightarrow> nat \<Rightarrow> MsgStore \<times> NetworkInterface \<Rightarrow> (MsgStore \<times> NetworkInterface) result" where
  "pick_message env vnet st =
     (case ni_inNode_ptr (snd st) ! vnet of
        None \<Rightarrow> Inr st
      | Some b \<Rightarrow>
          if mb_isReady (e_curTime env) b
          then bindR (mb_peek b) (\<lambda>msg.
               bindR (flitisizeMessage env msg (int vnet) st) (\<lambda>(store1, ni1, ok).
                 if ok
                 then bindR (mb_dequeue (e_curTime env) b) (\<lambda>(b1, _).
                        Inr (store1, ni1\<lparr>ni_inNode_ptr := (ni_inNode_ptr ni1)[vnet := Some b1]\<rparr>))
                 else Inr (store1, ni1)))
          else Inr st)"

definition ni_wakeup :: "NiEnv \<Rightarrow> NetworkLink \<Rightarrow> NetworkLink \<Rightarrow> MsgStore \<Rightarrow> NetworkInterface
    \<Rightarrow> (NetworkLink \<times> NetworkLink \<times> MsgStore \<times> NetworkInterface \<times> Wakeup list) result" where
  "ni_wakeup env in_link credit_link store ni =
     bindR (foldR (pick_message env) [0 ..< length (ni_inNode_ptr ni)] (store, ni)) (\<lambda>(store1, ni1).
     bindR (scheduleOutputLink env ni1) (\<lambda>(ni2, out_wakeups).
     let self_wakeups = checkReschedule env ni2 in
     bindR (checkStallQueue env store1 ni2) (\<lambda>(ni3, messageEnqueuedThisCycle).
     bindR (receive env store1 messageEnqueuedThisCycle in_link ni3) (\<lambda>(in_link1, ni4).
     bindR (receive_credit env credit_link ni4) (\<lambda>(credit_link1, ni5).
       Inr (in_link1, credit_link1, store1, ni5,
            out_wakeups @ self_wakeups @
            (if length (fb_buffer (ni_outCreditQueue ni5)) > 0 then [WakeLink (ni_outCreditLink ni5) (e_curCycle env + 1)] else [])))))))"

end
