(* ===== verification/PacketFlow.thy ===== *)
theory PacketFlow
  imports NetworkInterface
begin

text \<open>
  What a network interface promises: the channel for a new packet is the next idle one and the deadlock check
  stops the simulation exactly when it is meant to; a message is cut into one packet for each of its
  destinations, and one that only some of the packets could be sent of keeps the other destinations; packets are
  handed over to the protocol in the order they arrive in, and a stalled one never misses its wake-up.
\<close>

section \<open>Choosing a channel\<close>

text \<open>The vectors of the interface have an element for the virtual network and each of its channels.\<close>

definition vnet_ok :: "int \<Rightarrow> NetworkInterface \<Rightarrow> bool" where
  "vnet_ok vnet ni \<longleftrightarrow> 0 \<le> vnet \<and> nat vnet < length (ni_vc_allocator ni) \<and> nat vnet < length (ni_vc_busy_counter ni)
     \<and> 0 < ni_vc_per_vnet ni \<and> (vnet + 1) * ni_vc_per_vnet ni \<le> int (length (ni_outVcState ni))
     \<and> 0 \<le> ni_vc_allocator ni ! nat vnet \<and> ni_vc_allocator ni ! nat vnet < ni_vc_per_vnet ni"

text \<open>The channels of the network, starting with the one the search starts at.\<close>

definition vc_order :: "int \<Rightarrow> NetworkInterface \<Rightarrow> int \<Rightarrow> nat \<Rightarrow> int list" where
  "vc_order vnet ni delta n = map (\<lambda>k. vnet * ni_vc_per_vnet ni + (delta + int k) mod ni_vc_per_vnet ni) [0 ..< n]"

definition vc_is_idle :: "cycles \<Rightarrow> NetworkInterface \<Rightarrow> int \<Rightarrow> bool" where
  "vc_is_idle curCycle ni vc \<longleftrightarrow> isInState IDLE curCycle (ni_outVcState ni ! nat vc)"

lemma vc_order_Suc:
  assumes "0 \<le> delta" "delta < ni_vc_per_vnet ni"
  shows "vc_order vnet ni delta (Suc n) = (vnet * ni_vc_per_vnet ni + delta) #
     vc_order vnet ni (if delta + 1 = ni_vc_per_vnet ni then 0 else delta + 1) n"
proof -
  let ?e = "if delta + 1 = ni_vc_per_vnet ni then 0 else delta + 1"
  have "?e mod ni_vc_per_vnet ni = (delta + 1) mod ni_vc_per_vnet ni" by simp
  then have "(?e + int k) mod ni_vc_per_vnet ni = (delta + 1 + int k) mod ni_vc_per_vnet ni" for k by (rule mod_add_cong) simp
  then have "(delta + int (Suc k)) mod ni_vc_per_vnet ni = (?e + int k) mod ni_vc_per_vnet ni" for k
    by (simp only: of_nat_Suc add.assoc add.commute [of 1])
  then show ?thesis using assms unfolding vc_order_def map_upt_Suc by (simp only:) simp
qed

lemma vc_scan_result:
  assumes "vnet_ok vnet ni"
  shows "vc_scan curCycle vnet n ni =
     (case find (vc_is_idle curCycle ni) (vc_order vnet ni (ni_vc_allocator ni ! nat vnet) n) of
        Some vc \<Rightarrow> Inr (ni\<lparr>ni_vc_allocator := (ni_vc_allocator ni)[nat vnet := (vc - vnet * ni_vc_per_vnet ni + 1) mod ni_vc_per_vnet ni]\<rparr>, Some vc)
      | None \<Rightarrow> Inr (ni\<lparr>ni_vc_allocator := (ni_vc_allocator ni)[nat vnet := (ni_vc_allocator ni ! nat vnet + int n) mod ni_vc_per_vnet ni]\<rparr>, None))"
  using assms
proof (induction n arbitrary: ni)
  case 0
  then show ?case by (simp add: vc_order_def vnet_ok_def)
next
  case (Suc n)
  let ?d = "ni_vc_allocator ni ! nat vnet" and ?per = "ni_vc_per_vnet ni"
  let ?e = "if ?d + 1 = ?per then 0 else ?d + 1"
  let ?ni = "ni\<lparr>ni_vc_allocator := (ni_vc_allocator ni)[nat vnet := ?e]\<rparr>"
  have d: "0 \<le> ?d" "?d < ?per" "0 \<le> vnet" "nat vnet < length (ni_vc_allocator ni)" using Suc.prems by (simp_all add: vnet_ok_def)
  have e: "?e = (?d + 1) mod ?per" using d by auto
  have ok: "vnet_ok vnet ?ni" using Suc.prems by (auto simp: vnet_ok_def)
  have "vnet * ?per + ?d < (vnet + 1) * ?per" using d by (simp add: distrib_right)
  moreover have "0 \<le> vnet * ?per" "(vnet + 1) * ?per \<le> int (length (ni_outVcState ni))"
    using Suc.prems by (simp_all add: vnet_ok_def)
  ultimately have v: "0 \<le> vnet * ?per + ?d" "nat (vnet * ?per + ?d) < length (ni_outVcState ni)" using d(1) by linarith+
  have same: "vc_is_idle curCycle ?ni = vc_is_idle curCycle ni" "vc_order vnet ?ni = vc_order vnet ni"
    by (simp_all add: vc_is_idle_def vc_order_def fun_eq_iff)
  have at: "vec_at (ni_outVcState ni) (vnet * ?per + ?d) = Inr (ni_outVcState ni ! nat (vnet * ?per + ?d))" using v by simp
  show ?case
  proof (cases "vc_is_idle curCycle ni (vnet * ?per + ?d)")
    case True
    then show ?thesis using d at e
      by (simp add: vc_order_Suc Let_def vc_is_idle_def [symmetric])
  next
    case False
    have "vc_scan curCycle vnet (Suc n) ni = vc_scan curCycle vnet n ?ni"
      using d at False by (simp add: Let_def vc_is_idle_def [symmetric])
    moreover have "(?e + int n) mod ?per = (?d + int (Suc n)) mod ?per" unfolding e by (simp add: mod_simps add_ac)
    ultimately show ?thesis using Suc.IH [OF ok] False d
      by (simp add: vc_order_Suc same nth_list_update del: vc_scan.simps cong: option.case_cong)
  qed
qed

lemma vc_order_in:
  assumes "vnet_ok vnet ni" "vc \<in> set (vc_order vnet ni delta n)"
  shows "vnet * ni_vc_per_vnet ni \<le> vc" "vc < (vnet + 1) * ni_vc_per_vnet ni" "0 \<le> vc" "nat vc < length (ni_outVcState ni)"
proof -
  have p: "0 < ni_vc_per_vnet ni" "0 \<le> vnet" "(vnet + 1) * ni_vc_per_vnet ni \<le> int (length (ni_outVcState ni))"
    using assms(1) by (simp_all add: vnet_ok_def)
  then show b: "vnet * ni_vc_per_vnet ni \<le> vc" "vc < (vnet + 1) * ni_vc_per_vnet ni"
    using assms(2) by (auto simp: vc_order_def distrib_right)
  have "0 \<le> vnet * ni_vc_per_vnet ni" using p by simp
  then show "0 \<le> vc" "nat vc < length (ni_outVcState ni)" using b p(3) by linarith+
qed

lemma set_vc_order:
  assumes "vnet_ok vnet ni"
  shows "set (vc_order vnet ni (ni_vc_allocator ni ! nat vnet) (nat (ni_vc_per_vnet ni))) =
     {vnet * ni_vc_per_vnet ni ..< vnet * ni_vc_per_vnet ni + ni_vc_per_vnet ni}"
proof -
  let ?per = "ni_vc_per_vnet ni" and ?d = "ni_vc_allocator ni ! nat vnet"
  have p: "0 < ?per" using assms by (simp add: vnet_ok_def)
  have "\<exists>k < nat ?per. x = (?d + int k) mod ?per" if "0 \<le> x" "x < ?per" for x
  proof (intro exI conjI)
    show "nat ((x - ?d) mod ?per) < nat ?per" using p by simp
    show "x = (?d + int (nat ((x - ?d) mod ?per))) mod ?per" using p that by (simp add: mod_simps)
  qed
  then have "(\<lambda>k. (?d + int k) mod ?per) ` {0 ..< nat ?per} = {0 ..< ?per}" using p by fastforce
  then have "(+) (vnet * ?per) ` (\<lambda>k. (?d + int k) mod ?per) ` {0 ..< nat ?per} = {vnet * ?per ..< vnet * ?per + ?per}"
    by (simp add: add.commute)
  then show ?thesis by (simp add: vc_order_def image_image)
qed

text \<open>What \<open>calculateVC\<close> does on each branch.\<close>

definition next_vc :: "cycles \<Rightarrow> int \<Rightarrow> NetworkInterface \<Rightarrow> int option" where
  "next_vc curCycle vnet ni =
     find (vc_is_idle curCycle ni) (vc_order vnet ni (ni_vc_allocator ni ! nat vnet) (nat (ni_vc_per_vnet ni)))"

lemma calculateVC_result:
  assumes ok: "vnet_ok vnet ni"
  shows "calculateVC curCycle vnet ni =
     (case next_vc curCycle vnet ni of
        Some vc \<Rightarrow> Inr (ni\<lparr>ni_vc_allocator := (ni_vc_allocator ni)[nat vnet := (vc - vnet * ni_vc_per_vnet ni + 1) mod ni_vc_per_vnet ni],
                           ni_vc_busy_counter := (ni_vc_busy_counter ni)[nat vnet := 0]\<rparr>, vc)
      | None \<Rightarrow> if ni_vc_busy_counter ni ! nat vnet < ni_deadlock_threshold ni
                then Inr (ni\<lparr>ni_vc_busy_counter := (ni_vc_busy_counter ni)[nat vnet := ni_vc_busy_counter ni ! nat vnet + 1]\<rparr>, - 1)
                else Inl Panic)"
proof -
  have d: "0 \<le> vnet" "nat vnet < length (ni_vc_busy_counter ni)" "0 \<le> ni_vc_per_vnet ni"
      "(ni_vc_allocator ni ! nat vnet + int (nat (ni_vc_per_vnet ni))) mod ni_vc_per_vnet ni = ni_vc_allocator ni ! nat vnet"
    using ok by (auto simp: vnet_ok_def)
  show ?thesis
  proof (cases "next_vc curCycle vnet ni")
    case None
    then show ?thesis using d unfolding calculateVC_def vc_scan_result [OF ok] next_vc_def by simp
  next
    case (Some vc)
    then show ?thesis using d unfolding calculateVC_def vc_scan_result [OF ok] next_vc_def by simp
  qed
qed

section \<open>Handing packets over\<close>

definition at_vnet :: "int \<Rightarrow> flit list \<Rightarrow> flit list" where
  "at_vnet v fs = filter (\<lambda>f. f_vnet f = v) fs"

lemma at_vnet_simps [simp]:
  "at_vnet v [] = []"
  "at_vnet v (f # fs) = (if f_vnet f = v then f # at_vnet v fs else at_vnet v fs)"
  "at_vnet v (fs @ gs) = at_vnet v fs @ at_vnet v gs"
  by (simp_all add: at_vnet_def)

text \<open>The counters agree with the stalled flits, and a buffer of the protocol calls back exactly when a flit waits
  for it.\<close>

definition stall_ok :: "NetworkInterface \<Rightarrow> bool" where
  "stall_ok ni \<longleftrightarrow>
     (\<forall>v < length (ni_stall_count ni). ni_stall_count ni ! v = int (length (at_vnet (int v) (ni_stall_queue ni))))
     \<and> (\<forall>v < length (ni_outNode_ptr ni). \<forall>b. ni_outNode_ptr ni ! v = Some b \<longrightarrow>
          mb_dequeue_callback b = (at_vnet (int v) (ni_stall_queue ni) \<noteq> []))"

text \<open>The messages in a buffer of the protocol, and what the flits \<open>out\<close> add to the buffers.\<close>

definition waiting :: "MessageBuffer \<Rightarrow> nat multiset" where
  "waiting b = mset (map m_ptr (mb_prio_heap b))"

definition delivered :: "MsgStore \<Rightarrow> NetworkInterface \<Rightarrow> flit list \<Rightarrow> NetworkInterface \<Rightarrow> bool" where
  "delivered store ni out ni' \<longleftrightarrow> length (ni_outNode_ptr ni') = length (ni_outNode_ptr ni) \<and>
     (\<forall>v < length (ni_outNode_ptr ni). case ni_outNode_ptr ni ! v of
        None \<Rightarrow> ni_outNode_ptr ni' ! v = None
      | Some b \<Rightarrow> \<exists>b'. ni_outNode_ptr ni' ! v = Some b' \<and>
          waiting b' = waiting b + mset (map (\<lambda>f. m_ptr (nm_msg (store ! f_msg_ptr f))) (at_vnet (int v) out)))"

definition same_out :: "NetworkInterface \<Rightarrow> NetworkInterface \<Rightarrow> bool" where
  "same_out ni ni' \<longleftrightarrow> ni_stall_queue ni' = ni_stall_queue ni \<and> ni_stall_count ni' = ni_stall_count ni
     \<and> ni_outNode_ptr ni' = ni_outNode_ptr ni"

lemma same_out_refl [simp]: "same_out ni ni"
  by (simp add: same_out_def)

lemma same_out_trans: "same_out a b \<Longrightarrow> same_out b c \<Longrightarrow> same_out a c"
  by (simp add: same_out_def)

lemma vc_scan_same: "vc_scan curCycle vnet n ni = Inr (ni', r) \<Longrightarrow> same_out ni ni'"
proof (induction n arbitrary: ni)
  case (Suc n)
  obtain al vc s where "(if isInState IDLE curCycle s then Inr (ni\<lparr>ni_vc_allocator := al\<rparr>, Some vc)
      else vc_scan curCycle vnet n (ni\<lparr>ni_vc_allocator := al\<rparr>)) = Inr (ni', r)"
    using Suc.prems unfolding vc_scan.simps Let_def bindR_Inr_iff by blast
  moreover have "same_out ni (ni\<lparr>ni_vc_allocator := al\<rparr>)" by (simp add: same_out_def)
  ultimately show ?case using Suc.IH same_out_trans by (cases "isInState IDLE curCycle s") auto
qed simp

lemma calculateVC_same: "calculateVC curCycle vnet ni = Inr (ni', vc) \<Longrightarrow> same_out ni ni'"
proof -
  assume a: "calculateVC curCycle vnet ni = Inr (ni', vc)"
  then obtain ni1 r where s: "vc_scan curCycle vnet (nat (ni_vc_per_vnet ni)) ni = Inr (ni1, r)"
    by (auto simp: calculateVC_def bindR_Inr_iff)
  have "same_out ni1 ni'"
    using a by (cases r) (auto simp: calculateVC_def s bindR_Inr_iff same_out_def split: if_splits)
  then show ?thesis using vc_scan_same [OF s] same_out_trans by blast
qed

lemma send_packet_same: "send_packet env vnet n multi msg d vc store ni = Inr (store', ni') \<Longrightarrow> same_out ni ni'"
  unfolding send_packet_def Let_def same_out_def by (auto simp: bindR_Inr_iff)

lemma flitisize_same: "flitisize_dests env vnet n multi msg ds (store, ni) = Inr (store', ni', ok) \<Longrightarrow> same_out ni ni'"
proof (induction ds arbitrary: store ni)
  case (Cons d ds)
  obtain ni1 vc where c: "calculateVC (e_curCycle env) vnet ni = Inr (ni1, vc)"
      "(if vc = - 1 then Inr (store, ni1, False)
        else bindR (send_packet env vnet n multi msg d vc store ni1) (flitisize_dests env vnet n multi msg ds)) = Inr (store', ni', ok)"
    using Cons.prems by (auto simp: bindR_Inr_iff)
  show ?case
  proof (cases "vc = - 1")
    case True
    then show ?thesis using c calculateVC_same by auto
  next
    case False
    then obtain store2 ni2 where "send_packet env vnet n multi msg d vc store ni1 = Inr (store2, ni2)"
        "flitisize_dests env vnet n multi msg ds (store2, ni2) = Inr (store', ni', ok)"
      using c(2) by (auto simp: bindR_Inr_iff)
    then show ?thesis using calculateVC_same [OF c(1)] send_packet_same Cons.IH same_out_trans by metis
  qed
qed simp

lemma pick_message_same:
  assumes "pick_message env vnet st = Inr st'"
  shows "same_out (snd st) (snd st')"
proof -
  obtain store ni where st: "st = (store, ni)" by fastforce
  show ?thesis
  proof (cases "\<exists>b. ni_inNode_ptr ni ! vnet = Some b \<and> mb_isReady (e_curTime env) b")
    case True
    then obtain b msg store1 ni1 ok where r: "flitisizeMessage env msg (int vnet) st = Inr (store1, ni1, ok)"
        "(if ok then bindR (mb_dequeue (e_curTime env) b) (\<lambda>(b1, _).
            Inr (store1, ni1\<lparr>ni_inNode_ptr := (ni_inNode_ptr ni1)[vnet := Some b1]\<rparr>)) else Inr (store1, ni1)) = Inr st'"
      using assms by (auto simp: pick_message_def st bindR_Inr_iff)
    have "same_out ni ni1" using r(1) by (auto simp: flitisizeMessage_def st bindR_Inr_iff Let_def dest: flitisize_same)
    then show ?thesis using r(2) by (auto simp: st bindR_Inr_iff same_out_def split: if_splits)
  next
    case False
    then show ?thesis using assms by (auto simp: pick_message_def st split: option.splits)
  qed
qed

lemma pick_messages_same:
  "foldR (pick_message env) vnets st = Inr st' \<Longrightarrow> same_out (snd st) (snd st')"
  by (induction vnets arbitrary: st) (auto simp: bindR_Inr_iff intro: same_out_trans dest: pick_message_same)

lemma send_flit_same: "send_flit env vc ni = Inr (ni', ws) \<Longrightarrow> same_out ni ni'"
  by (auto simp: send_flit_def bindR_Inr_iff same_out_def)

lemma out_scan_same: "out_scan env vc n ni = Inr (ni', ws) \<Longrightarrow> same_out ni ni'"
proof (induction n arbitrary: vc)
  case (Suc n)
  define v where "v = (if vc + 1 = int (length (ni_niOutVcs ni)) then 0 else vc + 1)"
  have "send_flit env v ni = Inr (ni', ws) \<or> out_scan env v n ni = Inr (ni', ws)"
    using Suc.prems unfolding out_scan.simps Let_def v_def [symmetric] by (auto simp: bindR_Inr_iff split: if_splits)
  then show ?case using Suc.IH send_flit_same by blast
qed simp

lemma enqueue_callback:
  assumes "mb_enqueue rr wu random m t delta b = Inr b'"
  shows "mb_dequeue_callback b' = mb_dequeue_callback b"
  using assms unfolding mb_enqueue_def enqueue_arrival_def Let_def
  by (auto simp: bindR_Inr_iff split: if_splits)

lemma enqueue_waiting:
  assumes "mb_enqueue rr wu random m t delta b = Inr b'"
  shows "waiting b' = add_mset (m_ptr m) (waiting b)"
  using assms by (rule enqueue_result) (simp add: waiting_def mh.push_heap_mset)

lemma out_buffer_Inr_iff: "out_buffer outs v = Inr b \<longleftrightarrow> 0 \<le> v \<and> nat v < length outs \<and> outs ! nat v = Some b"
  by (auto simp: out_buffer_def bindR_Inr_iff vec_Inr_iffs split: option.splits)

lemma put_out_buffer_Inr_iff:
  "put_out_buffer v b ni = Inr ni' \<longleftrightarrow>
     0 \<le> v \<and> nat v < length (ni_outNode_ptr ni) \<and> ni' = ni\<lparr>ni_outNode_ptr := (ni_outNode_ptr ni)[nat v := Some b]\<rparr>"
  by (auto simp: put_out_buffer_def bindR_Inr_iff vec_Inr_iffs)

lemma eject_result:
  assumes "eject env store f ni = Inr ni'"
  obtains b b' where "0 \<le> f_vnet f" "nat (f_vnet f) < length (ni_outNode_ptr ni)" "ni_outNode_ptr ni ! nat (f_vnet f) = Some b"
    "ni_outNode_ptr ni' = (ni_outNode_ptr ni)[nat (f_vnet f) := Some b']" "mb_dequeue_callback b' = mb_dequeue_callback b"
    "waiting b' = add_mset (m_ptr (nm_msg (store ! f_msg_ptr f))) (waiting b)"
    "ni_stall_queue ni' = ni_stall_queue ni" "ni_stall_count ni' = ni_stall_count ni"
proof -
  obtain b nm b' ni1 where e: "out_buffer (ni_outNode_ptr ni) (f_vnet f) = Inr b" "vec_at store (int (f_msg_ptr f)) = Inr nm"
      "mb_enqueue (e_randomization env) (e_warmup env) (e_random env) (nm_msg nm) (e_curTime env) (e_clockPeriod env) b = Inr b'"
      "put_out_buffer (f_vnet f) b' ni = Inr ni1" "ni' = sendCredit env f True ni1"
    using assms unfolding eject_def bindR_Inr_iff by blast
  show ?thesis
    by (rule that [of b b'])
      (use e enqueue_callback [OF e(3)] enqueue_waiting [OF e(3)] in
        \<open>auto simp: out_buffer_Inr_iff put_out_buffer_Inr_iff vec_Inr_iffs sendCredit_def\<close>)
qed

lemma delivered_put:
  assumes "0 \<le> f_vnet f" "nat (f_vnet f) < length (ni_outNode_ptr ni)" "ni_outNode_ptr ni ! nat (f_vnet f) = Some b"
    "ni_outNode_ptr ni' = (ni_outNode_ptr ni)[nat (f_vnet f) := Some b']"
    "waiting b' = add_mset (m_ptr (nm_msg (store ! f_msg_ptr f))) (waiting b)"
  shows "delivered store ni [f] ni'"
  using assms by (auto simp: delivered_def nth_list_update split: option.splits)

lemma delivered_Nil: "same_out ni ni' \<Longrightarrow> delivered store ni [] ni'"
  by (auto simp: delivered_def same_out_def split: option.splits)

definition can_eject :: "tick \<Rightarrow> MessageBuffer option list \<Rightarrow> int \<Rightarrow> bool" where
  "can_eject t outs v \<longleftrightarrow> (\<exists>b. out_buffer outs v = Inr b \<and> areNSlotsAvailable 1 t b)"

lemma first_ejectable_result:
  assumes "first_ejectable t outs i fs = Inr r"
  shows "case r of None \<Rightarrow> \<forall>f \<in> set fs. \<not> can_eject t outs (f_vnet f)
    | Some j \<Rightarrow> \<exists>pre f post. fs = pre @ f # post \<and> j = i + length pre \<and> can_eject t outs (f_vnet f)
        \<and> (\<forall>g \<in> set pre. \<not> can_eject t outs (f_vnet g))"
  using assms
proof (induction t outs i fs rule: first_ejectable.induct)
  case (2 t outs i f fs)
  obtain b where b: "out_buffer outs (f_vnet f) = Inr b"
      "(if areNSlotsAvailable 1 t b then Inr (Some i) else first_ejectable t outs (Suc i) fs) = Inr r"
    using 2(2) by (auto simp: bindR_Inr_iff)
  show ?case
  proof (cases "areNSlotsAvailable 1 t b")
    case True
    then have "can_eject t outs (f_vnet f)" "r = Some i" using b by (auto simp: can_eject_def)
    then show ?thesis by fastforce
  next
    case False
    then have nc: "\<not> can_eject t outs (f_vnet f)" using b by (simp add: can_eject_def)
    have fe: "first_ejectable t outs (Suc i) fs = Inr r" using b False by simp
    note IH = 2(1) [OF b(1) False fe]
    show ?thesis
    proof (cases r)
      case (Some j)
      then obtain pre g post where "fs = pre @ g # post" "j = Suc i + length pre" "can_eject t outs (f_vnet g)"
          "\<forall>h \<in> set pre. \<not> can_eject t outs (f_vnet h)"
        using IH by auto
      then show ?thesis using Some nc by (auto intro!: exI [of _ "f # pre"])
    qed (use IH nc in auto)
  qed
qed simp

lemma at_vnet_first:
  assumes "can_eject t outs (f_vnet f)" "\<forall>g \<in> set pre. \<not> can_eject t outs (f_vnet g)"
  shows "at_vnet v [f] @ at_vnet v (pre @ post) = at_vnet v (pre @ f # post)"
proof (cases "v = f_vnet f")
  case True
  then have "\<forall>g \<in> set pre. f_vnet g \<noteq> v" using assms by metis
  then have "at_vnet v pre = []" by (simp add: at_vnet_def filter_empty_conv)
  then show ?thesis using True by simp
qed auto

text \<open>One step of the side that hands packets over: from \<open>arr\<close> newly arrived flits, \<open>out\<close> are delivered and the
  others join the stalled ones.\<close>

definition handed_over :: "MsgStore \<Rightarrow> NetworkInterface \<Rightarrow> flit list \<Rightarrow> flit list \<Rightarrow> NetworkInterface \<Rightarrow> bool" where
  "handed_over store ni arr out ni' \<longleftrightarrow> stall_ok ni' \<and> delivered store ni out ni'
     \<and> (\<forall>v. at_vnet v out @ at_vnet v (ni_stall_queue ni') = at_vnet v (ni_stall_queue ni) @ at_vnet v arr)"

lemma stall_ok_put:
  assumes ok: "stall_ok ni" and v: "0 \<le> v" "nat v < length (ni_outNode_ptr ni)"
    and q: "\<And>u. u \<noteq> v \<Longrightarrow> at_vnet u (ni_stall_queue ni') = at_vnet u (ni_stall_queue ni)"
    and c: "ni_stall_count ni' = (ni_stall_count ni)[nat v := int (length (at_vnet v (ni_stall_queue ni')))]"
    and o: "ni_outNode_ptr ni' = (ni_outNode_ptr ni)[nat v := Some b]"
    and b: "mb_dequeue_callback b = (at_vnet v (ni_stall_queue ni') \<noteq> [])"
  shows "stall_ok ni'"
proof -
  have q': "at_vnet (int u) (ni_stall_queue ni') = at_vnet (int u) (ni_stall_queue ni)" if "u \<noteq> nat v" for u
    using that v by (intro q) auto
  have "ni_stall_count ni' ! u = int (length (at_vnet (int u) (ni_stall_queue ni')))" if "u < length (ni_stall_count ni')" for u
    using that ok v c q' by (cases "u = nat v") (auto simp: stall_ok_def)
  moreover have "mb_dequeue_callback b' = (at_vnet (int u) (ni_stall_queue ni') \<noteq> [])"
    if "u < length (ni_outNode_ptr ni')" "ni_outNode_ptr ni' ! u = Some b'" for u b'
    using that ok v o b q' by (cases "u = nat v") (auto simp: stall_ok_def)
  ultimately show ?thesis unfolding stall_ok_def by blast
qed

lemma at_vnet_count:
  assumes "stall_ok ni" "0 \<le> v" "nat v < length (ni_stall_count ni)"
  shows "ni_stall_count ni ! nat v = int (length (at_vnet v (ni_stall_queue ni)))"
proof -
  have "ni_stall_count ni ! nat v = int (length (at_vnet (int (nat v)) (ni_stall_queue ni)))"
    using assms(1,3) unfolding stall_ok_def by blast
  then show ?thesis using assms(2) by simp
qed

lemma callback_waits:
  assumes "stall_ok ni" "0 \<le> v" "nat v < length (ni_outNode_ptr ni)" "ni_outNode_ptr ni ! nat v = Some b"
  shows "mb_dequeue_callback b = (at_vnet v (ni_stall_queue ni) \<noteq> [])"
proof -
  have "mb_dequeue_callback b = (at_vnet (int (nat v)) (ni_stall_queue ni) \<noteq> [])"
    using assms(1,3,4) unfolding stall_ok_def by blast
  then show ?thesis using assms(2) by simp
qed

lemma eject_handed_over:
  assumes ok: "stall_ok ni" and e: "eject env store f ni = Inr ni'" and free: "at_vnet (f_vnet f) (ni_stall_queue ni) = []"
  shows "handed_over store ni [f] [f] ni'"
  using e
proof (rule eject_result)
  fix b b'
  assume b: "0 \<le> f_vnet f" "nat (f_vnet f) < length (ni_outNode_ptr ni)" "ni_outNode_ptr ni ! nat (f_vnet f) = Some b"
    "ni_outNode_ptr ni' = (ni_outNode_ptr ni)[nat (f_vnet f) := Some b']" "mb_dequeue_callback b' = mb_dequeue_callback b"
    "waiting b' = add_mset (m_ptr (nm_msg (store ! f_msg_ptr f))) (waiting b)"
    "ni_stall_queue ni' = ni_stall_queue ni" "ni_stall_count ni' = ni_stall_count ni"
  have "ni_stall_count ni' = (ni_stall_count ni)[nat (f_vnet f) := int (length (at_vnet (f_vnet f) (ni_stall_queue ni')))]"
  proof (cases "nat (f_vnet f) < length (ni_stall_count ni)")
    case True
    show ?thesis unfolding b(7,8) at_vnet_count [OF ok b(1) True, symmetric] by simp
  qed (use b in \<open>simp add: list_update_beyond\<close>)
  moreover have "mb_dequeue_callback b' = (at_vnet (f_vnet f) (ni_stall_queue ni') \<noteq> [])"
    using callback_waits [OF ok b(1-3)] b(5,7) by simp
  ultimately have "stall_ok ni'" using stall_ok_put [OF ok b(1,2) _ _ b(4)] b(7) by simp
  moreover have "delivered store ni [f] ni'" using b by (intro delivered_put)
  moreover have "at_vnet v [f] @ at_vnet v (ni_stall_queue ni') = at_vnet v (ni_stall_queue ni) @ at_vnet v [f]" for v
    using free b(7) by (cases "v = f_vnet f") auto
  ultimately show ?thesis unfolding handed_over_def by blast
qed

lemma stall_handed_over:
  assumes ok: "stall_ok ni" and r: "stall_flit f ni = Inr ni'"
  shows "handed_over store ni [f] [] ni'"
proof -
  obtain b where b: "0 \<le> f_vnet f" "nat (f_vnet f) < length (ni_outNode_ptr ni)" "nat (f_vnet f) < length (ni_stall_count ni)"
      "ni_outNode_ptr ni ! nat (f_vnet f) = Some b"
      "ni' = ni\<lparr>ni_stall_queue := ni_stall_queue ni @ [f],
        ni_stall_count := (ni_stall_count ni)[nat (f_vnet f) := ni_stall_count ni ! nat (f_vnet f) + 1],
        ni_outNode_ptr := (ni_outNode_ptr ni)[nat (f_vnet f) := Some (registerDequeueCallback b)]\<rparr>"
    using r by (auto simp: stall_flit_def bindR_Inr_iff out_buffer_Inr_iff put_out_buffer_Inr_iff vec_Inr_iffs)
  have "stall_ok ni'"
    by (rule stall_ok_put [OF ok b(1,2)])
      (use b at_vnet_count [OF ok b(1,3)] in \<open>auto simp: registerDequeueCallback_def add.commute\<close>)
  moreover have "delivered store ni [] ni'"
    using b by (auto simp: delivered_def nth_list_update waiting_def registerDequeueCallback_def split: option.splits)
  ultimately show ?thesis using b(5) by (simp add: handed_over_def)
qed

lemma handed_over_trans:
  assumes "handed_over store ni [] out1 ni1" "handed_over store ni1 arr out2 ni2"
  shows "handed_over store ni arr (out1 @ out2) ni2"
proof -
  have "delivered store ni (out1 @ out2) ni2"
    unfolding delivered_def
  proof (intro conjI allI impI)
    show "length (ni_outNode_ptr ni2) = length (ni_outNode_ptr ni)" using assms by (simp add: handed_over_def delivered_def)
    fix v assume v: "v < length (ni_outNode_ptr ni)"
    show "case ni_outNode_ptr ni ! v of None \<Rightarrow> ni_outNode_ptr ni2 ! v = None
      | Some b \<Rightarrow> \<exists>b'. ni_outNode_ptr ni2 ! v = Some b' \<and>
          waiting b' = waiting b + mset (map (\<lambda>f. m_ptr (nm_msg (store ! f_msg_ptr f))) (at_vnet (int v) (out1 @ out2)))"
      using assms v unfolding handed_over_def delivered_def by (fastforce split: option.splits)
  qed
  moreover have "at_vnet v (out1 @ out2) @ at_vnet v (ni_stall_queue ni2) = at_vnet v (ni_stall_queue ni) @ at_vnet v arr" for v
    using assms unfolding handed_over_def by (metis append.assoc append_Nil2 at_vnet_simps(1,3))
  ultimately show ?thesis using assms(2) by (simp add: handed_over_def)
qed

lemma checkStallQueue_result:
  assumes ok: "stall_ok ni" and r: "checkStallQueue env store ni = Inr (ni', e)"
  shows "if e then \<exists>f. handed_over store ni [] [f] ni'
     else ni' = ni \<and> (\<forall>f \<in> set (ni_stall_queue ni). \<not> can_eject (e_curTime env) (ni_outNode_ptr ni) (f_vnet f))"
proof -
  obtain j where j: "first_ejectable (e_curTime env) (ni_outNode_ptr ni) 0 (ni_stall_queue ni) = Inr j"
    using r unfolding checkStallQueue_def bindR_Inr_iff by blast
  show ?thesis
  proof (cases j)
    case None
    then show ?thesis using r first_ejectable_result [OF j] by (simp add: checkStallQueue_def j)
  next
    case (Some i)
    obtain pre f post where q: "ni_stall_queue ni = pre @ f # post" "i = length pre"
        "can_eject (e_curTime env) (ni_outNode_ptr ni) (f_vnet f)"
        "\<forall>g \<in> set pre. \<not> can_eject (e_curTime env) (ni_outNode_ptr ni) (f_vnet g)"
      using first_ejectable_result [OF j] Some by auto
    define v where "v = f_vnet f"
    have j': "first_ejectable (e_curTime env) (ni_outNode_ptr ni) 0 (pre @ f # post) = Inr (Some (length pre))"
      using j Some q by simp
    obtain ni1 where e1: "eject env store f ni = Inr ni1" using r by (auto simp: checkStallQueue_def j' q(1) bindR_Inr_iff Let_def)
    then obtain b b' where b: "0 \<le> v" "nat v < length (ni_outNode_ptr ni)" "ni_outNode_ptr ni ! nat v = Some b"
      "ni_outNode_ptr ni1 = (ni_outNode_ptr ni)[nat v := Some b']" "mb_dequeue_callback b' = mb_dequeue_callback b"
      "waiting b' = add_mset (m_ptr (nm_msg (store ! f_msg_ptr f))) (waiting b)"
      "ni_stall_queue ni1 = ni_stall_queue ni" "ni_stall_count ni1 = ni_stall_count ni"
      by (rule eject_result) (auto simp: v_def)
    let ?c = "ni_stall_count ni ! nat v - 1"
    obtain b2 where r2: "e" "nat v < length (ni_stall_count ni)" "ni_stall_queue ni' = pre @ post"
        "ni_stall_count ni' = (ni_stall_count ni)[nat v := ?c]" "ni_outNode_ptr ni' = (ni_outNode_ptr ni)[nat v := Some b2]"
        "waiting b2 = waiting b'" "mb_dequeue_callback b2 = (mb_dequeue_callback b' \<and> ?c \<noteq> 0)"
      using r e1 b by (auto simp: checkStallQueue_def j' q(1) bindR_Inr_iff Let_def v_def [symmetric] vec_Inr_iffs
        out_buffer_Inr_iff put_out_buffer_Inr_iff unregisterDequeueCallback_def waiting_def split: if_splits)
    have len: "?c = int (length (at_vnet v (pre @ post)))"
      using at_vnet_count [OF ok b(1) r2(2)] by (simp add: q v_def)
    have cb: "mb_dequeue_callback b" using callback_waits [OF ok b(1-3)] by (simp add: q v_def)
    have cb2: "mb_dequeue_callback b2 = (at_vnet v (ni_stall_queue ni') \<noteq> [])"
      unfolding r2(3,7) b(5) len using cb by (simp del: at_vnet_simps)
    have "stall_ok ni'"
      by (rule stall_ok_put [OF ok b(1,2) _ _ r2(5) cb2]) (use r2(3,4) len in \<open>auto simp: q v_def\<close>)
    moreover have "delivered store ni [f] ni'" using b r2(5,6) unfolding v_def by (intro delivered_put [where b = b and b' = b2]) simp_all
    ultimately have "handed_over store ni [] [f] ni'"
      unfolding handed_over_def r2(3) q(1) at_vnet_first [OF q(3,4)] by simp
    then show ?thesis using r2(1) by auto
  qed
qed

lemma receive_flit_result:
  assumes ok: "stall_ok ni" and r: "receive_flit env store e f ni = Inr ni'"
    and full: "\<not> e \<Longrightarrow> \<forall>g \<in> set (ni_stall_queue ni). \<not> can_eject (e_curTime env) (ni_outNode_ptr ni) (f_vnet g)"
  shows "\<exists>out. length out \<le> (if e then 0 else 1) \<and> handed_over store ni (filter is_tail [f]) out ni'"
proof (cases "is_tail f")
  case False
  then have "same_out ni ni'" using r by (auto simp: receive_flit_def bindR_Inr_iff same_out_def sendCredit_def)
  then have "stall_ok ni'" "delivered store ni [] ni'" using ok by (simp_all add: delivered_Nil) (simp add: stall_ok_def same_out_def)
  then show ?thesis using False \<open>same_out ni ni'\<close> by (intro exI [of _ "[]"]) (simp add: handed_over_def same_out_def)
next
  case tail: True
  show ?thesis
  proof (cases "\<not> e \<and> can_eject (e_curTime env) (ni_outNode_ptr ni) (f_vnet f)")
    case True
    then have "at_vnet (f_vnet f) (ni_stall_queue ni) = []" using full by (auto simp: at_vnet_def filter_empty_conv)
    moreover have "eject env store f ni = Inr ni'" using r True tail by (auto simp: receive_flit_def bindR_Inr_iff can_eject_def)
    ultimately show ?thesis using eject_handed_over [OF ok] True tail by (intro exI [of _ "[f]"]) simp
  next
    case False
    then have "stall_flit f ni = Inr ni'" using r tail
      by (auto simp: receive_flit_def bindR_Inr_iff can_eject_def split: if_splits)
    then show ?thesis using stall_handed_over [OF ok] tail by (intro exI [of _ "[]"]) simp
  qed
qed

text \<open>The last flits of packets that arrive over the link.\<close>

definition arriving :: "NiEnv \<Rightarrow> NetworkLink \<Rightarrow> flit list" where
  "arriving env l =
     (case fb_buffer (nl_linkBuffer l) of
        [] \<Rightarrow> []
      | f # _ \<Rightarrow> if f_time f \<le> e_curCycle env \<and> is_tail f then [f\<lparr>f_dequeue_time := e_curCycle env\<rparr>] else [])"

lemma handed_over_same:
  assumes "same_out ni0 ni" "handed_over store ni arr out ni'" "same_out ni' ni1"
  shows "handed_over store ni0 arr out ni1"
  using assms by (simp add: handed_over_def same_out_def delivered_def stall_ok_def cong: option.case_cong)

lemma receive_result:
  assumes ok: "stall_ok ni" and r: "receive env store e l ni = Inr (l', ni')"
    and full: "\<not> e \<Longrightarrow> \<forall>g \<in> set (ni_stall_queue ni). \<not> can_eject (e_curTime env) (ni_outNode_ptr ni) (f_vnet g)"
  shows "\<exists>out. length out \<le> (if e then 0 else 1) \<and> handed_over store ni (arriving env l) out ni'"
proof (cases "nl_isReady (e_curCycle env) l")
  case True
  then obtain f fs where f: "fb_buffer (nl_linkBuffer l) = f # fs" "f_time f \<le> e_curCycle env"
    by (auto simp: nl_isReady_def fb_isReady_def split: list.splits)
  then have "receive_flit env store e (f\<lparr>f_dequeue_time := e_curCycle env\<rparr>) ni = Inr ni'"
    using r True by (auto simp: receive_def consumeLink_def getTopFlit_def bindR_Inr_iff)
  moreover have "filter is_tail [f\<lparr>f_dequeue_time := e_curCycle env\<rparr>] = arriving env l"
    using f by (simp add: arriving_def is_tail_def)
  ultimately show ?thesis using receive_flit_result [OF ok _ full] by metis
next
  case False
  then have "arriving env l = []" by (auto simp: arriving_def nl_isReady_def fb_isReady_def split: list.splits)
  moreover have "ni' = ni" using r False by (simp add: receive_def)
  ultimately show ?thesis using ok delivered_Nil [of ni ni]
    by (intro exI [of _ "[]"]) (simp add: handed_over_def)
qed

lemma receive_credit_same: "receive_credit env l ni = Inr (l', ni') \<Longrightarrow> same_out ni ni'"
  by (auto simp: receive_credit_def bindR_Inr_iff same_out_def split: if_splits)

section \<open>Properties\<close>

text \<open>C16: Packets are handed over to the protocol in the order they arrive in. In each wake-up of a network interface
  that no check of the code stops, at most one packet enters a buffer of the protocol, exactly these messages are added
  to the buffers, and for each virtual network the packets handed over followed by those still stalled are those
  stalled before followed by the one that arrived: no packet is lost, repeated or overtaken. The count of stalled
  packets stays right, and the callback that wakes the interface up when a buffer has room again is registered for
  exactly the buffers a packet waits for.\<close>

theorem ni_ejects_in_order:
  assumes "stall_ok ni" "ni_wakeup env in_link credit_link store ni = Inr (in_link', credit_link', store', ni', ws)"
  shows "stall_ok ni' \<and> (\<exists>out. length out \<le> 1 \<and> delivered store' ni out ni' \<and>
    (\<forall>v. at_vnet v out @ at_vnet v (ni_stall_queue ni') = at_vnet v (ni_stall_queue ni) @ at_vnet v (arriving env in_link)))"
proof -
  obtain ni1 ni2 ws1 ni3 e l4 ni4 where w:
      "foldR (pick_message env) [0 ..< length (ni_inNode_ptr ni)] (store, ni) = Inr (store', ni1)"
      "scheduleOutputLink env ni1 = Inr (ni2, ws1)" "checkStallQueue env store' ni2 = Inr (ni3, e)"
      "receive env store' e in_link ni3 = Inr (l4, ni4)" "receive_credit env credit_link ni4 = Inr (credit_link', ni')"
    using assms(2) by (auto simp: ni_wakeup_def bindR_Inr_iff Let_def)
  have s: "same_out ni ni2"
    using pick_messages_same [OF w(1)] out_scan_same w(2) unfolding scheduleOutputLink_def by (auto intro: same_out_trans)
  then have ok: "stall_ok ni2" using assms(1) by (simp add: stall_ok_def same_out_def)
  have "\<exists>out. length out \<le> 1 \<and> handed_over store' ni2 (arriving env in_link) out ni4"
  proof (cases e)
    case True
    then obtain f where f: "handed_over store' ni2 [] [f] ni3" using checkStallQueue_result [OF ok w(3)] by auto
    then have "stall_ok ni3" by (simp add: handed_over_def)
    then obtain out where "out = []" "handed_over store' ni3 (arriving env in_link) out ni4"
      using receive_result [OF _ w(4)] True by fastforce
    then show ?thesis using handed_over_trans [OF f] by (intro exI [of _ "[f]"]) auto
  next
    case False
    then show ?thesis using checkStallQueue_result [OF ok w(3)] receive_result [OF _ w(4)] ok by auto
  qed
  then obtain out where "length out \<le> 1" "handed_over store' ni2 (arriving env in_link) out ni4" by blast
  then show ?thesis using handed_over_same [OF s _ receive_credit_same [OF w(5)]] unfolding handed_over_def by blast
qed


section \<open>An interface with a stalled packet\<close>

definition demo_env :: NiEnv where
  "demo_env = \<lparr>e_net = demo_net, e_control_msg_size = 8, e_data_msg_size = 72, e_clockPeriod = 1, e_curCycle = 9, e_curTime = 9,
     e_base_number = (\<lambda>i. if i = 0 then 0 else if i = 1 then 4 else 6), e_base_count = [4, 2], e_router_of = int, e_randomization = False, e_warmup = False, e_random = 0\<rparr>"

definition demo_store :: MsgStore where
  "demo_store = map (\<lambda>p. \<lparr>nm_msg = Message_new p 0, nm_Destination = demo_dest 5, nm_MessageSize = Control\<rparr>) [0, 1]"

definition demo_flit :: "nat \<Rightarrow> flit" where
  "demo_flit ptr = flit_new 0 0 0 null_route 1 ptr 3"

definition demo_ni :: NetworkInterface where
  "demo_ni = (NetworkInterface_new 0 demo_net 100)\<lparr>ni_outVcState := projr (new_states demo_net [0 .. 3]),
     ni_stall_queue := [(demo_flit 0)\<lparr>f_dequeue_time := 8\<rparr>], ni_stall_count := [1, 0],
     ni_outNode_ptr := [Some ((MessageBuffer_new 1 True False)\<lparr>mb_consumer := True, mb_dequeue_callback := True\<rparr>), None]\<rparr>"

definition demo_link :: NetworkLink where
  "demo_link = (NetworkLink_new 0 1)\<lparr>nl_linkBuffer := \<lparr>fb_buffer = [demo_flit 1], fb_max_size = INFINITE\<rparr>\<rparr>"

lemma out_scan_empty:
  assumes "\<forall>b \<in> set (ni_niOutVcs ni). fb_buffer b = []" "0 \<le> vc" "vc < int (length (ni_niOutVcs ni))"
  shows "out_scan env vc n ni = Inr (ni, [])"
  using assms
proof (induction n arbitrary: vc)
  case (Suc n)
  define v where "v = (if vc + 1 = int (length (ni_niOutVcs ni)) then 0 else vc + 1)"
  have v: "0 \<le> v" "v < int (length (ni_niOutVcs ni))" using Suc.prems by (auto simp: v_def)
  then have "fb_buffer (ni_niOutVcs ni ! nat v) = []" using Suc.prems(1) by simp
  then show ?case using v Suc.IH [OF Suc.prems(1) v] by (simp add: v_def [symmetric] fb_isReady_def Let_def)
qed simp

lemma demo_schedule: "scheduleOutputLink demo_env demo_ni = Inr (demo_ni, [])"
  unfolding scheduleOutputLink_def
  by (rule out_scan_empty) (simp_all add: demo_ni_def NetworkInterface_new_def Let_def demo_net_def flitBuffer_new_def)

lemma demo_stall:
  "\<exists>ni b. checkStallQueue demo_env demo_store demo_ni = Inr (ni, True) \<and> ni_outNode_ptr ni = [Some b, None] \<and> length (ni_stall_count ni) = 2"
  by (simp add: checkStallQueue_def demo_ni_def demo_env_def demo_store_def demo_flit_def flit_new_def eject_def bindR_Inr_iff out_buffer_def
    areNSlotsAvailable_def visible_size_def MessageBuffer_new_def mb_enqueue_def enqueue_arrival_def Let_def Message_new_def
    updateDelayedTicks_def put_out_buffer_def incrementStats_def cycles_minus_def sendCredit_def vec_modify_def
    unregisterDequeueCallback_def NetworkInterface_new_def vec_at_def vec_put_def)

lemma demo_wakes:
  "\<exists>in_link' credit_link' store' ni' ws. ni_wakeup demo_env demo_link (NetworkLink_new 1 1) demo_store demo_ni =
     Inr (in_link', credit_link', store', ni', ws)"
proof -
  obtain ni b where ni: "checkStallQueue demo_env demo_store demo_ni = Inr (ni, True)" "ni_outNode_ptr ni = [Some b, None]"
      "length (ni_stall_count ni) = 2"
    using demo_stall by blast
  have ready: "nl_isReady (e_curCycle demo_env) demo_link"
    by (simp add: nl_isReady_def demo_link_def fb_isReady_def demo_flit_def flit_new_def demo_env_def)
  have "receive_credit demo_env (NetworkLink_new 1 1) ni4 = Inr (NetworkLink_new 1 1, ni4)" for ni4
    by (simp add: receive_credit_def nl_isReady_def NetworkLink_new_def fb_isReady_def flitBuffer_new_def)
  moreover have "\<exists>l ni4. receive demo_env demo_store True demo_link ni = Inr (l, ni4)"
    using ready ni(2,3) by (simp add: receive_def demo_link_def consumeLink_def getTopFlit_def receive_flit_def demo_flit_def
      flit_new_def is_tail_def stall_flit_def out_buffer_def put_out_buffer_def vec_modify_def vec_at_def vec_put_def)
  moreover have "ni_inNode_ptr demo_ni = []" by (simp add: demo_ni_def NetworkInterface_new_def Let_def)
  ultimately show ?thesis by (auto simp: ni_wakeup_def demo_schedule Let_def ni(1))
qed

lemma demo_states: "new_states demo_net [0 .. 3] = Inr (map (\<lambda>i. \<lparr>ovs_id = i, ovs_time = 0, ovs_vc_state = IDLE,
     ovs_credit_count = if i < 2 then 1 else 4, ovs_max_credit_count = if i < 2 then 1 else 4\<rparr>) [0, 1, 2, 3])"
  by code_simp

lemma demo_ni_ok: "stall_ok demo_ni" "vnet_ok 1 demo_ni" "vc_is_idle 9 demo_ni 2"
  unfolding demo_ni_def demo_states
  by (auto simp: stall_ok_def vnet_ok_def vc_is_idle_def isInState_def demo_net_def NetworkInterface_new_def Let_def less_Suc_eq
    numeral_2_eq_2 demo_flit_def flit_new_def)

theorem ni_ejects_in_order_witness:
  "\<exists>in_link' credit_link' store' ni' ws. ni_wakeup demo_env demo_link (NetworkLink_new 1 1) demo_store demo_ni =
       Inr (in_link', credit_link', store', ni', ws)
     \<and> stall_ok ni' \<and> (\<exists>out. length out \<le> 1 \<and> delivered store' demo_ni out ni' \<and>
       (\<forall>v. at_vnet v out @ at_vnet v (ni_stall_queue ni') = at_vnet v (ni_stall_queue demo_ni) @ at_vnet v (arriving demo_env demo_link)))"
proof -
  obtain in_link' credit_link' store' ni' ws
    where w: "ni_wakeup demo_env demo_link (NetworkLink_new 1 1) demo_store demo_ni = Inr (in_link', credit_link', store', ni', ws)"
    using demo_wakes by blast
  show ?thesis using w ni_ejects_in_order [OF demo_ni_ok(1) w] by blast
qed


end
