(* ===== verification/Flitisation.thy ===== *)
theory Flitisation
  imports PacketFlow
begin

text \<open>
  How a network interface cuts a message into packets (\<open>flitisizeMessage\<close>): each destination gets a copy of
  the message of its own, the flits of a packet go to one idle channel, and when channels run out the message keeps
  exactly the destinations that are still to be served.
\<close>

section \<open>The numbers of machines\<close>

text \<open>The generated numbering puts the machines of one type after those of the types before it.\<close>

definition numbering :: "nat list \<Rightarrow> (nat \<Rightarrow> nat) \<Rightarrow> bool" where
  "numbering counts base \<longleftrightarrow> (\<forall>i < length counts. base (Suc i) = base i + counts ! i)"

definition machines :: "nat list \<Rightarrow> MachineID list" where
  "machines counts = concat (map (\<lambda>i. map (Pair i) [0 ..< counts ! i]) [0 ..< length counts])"

lemma set_machines: "set (machines counts) = {(i, j). i < length counts \<and> j < counts ! i}"
  by (auto simp: machines_def)

lemma distinct_machines: "distinct (machines counts)"
proof -
  have "distinct (concat (map (\<lambda>i. map (Pair i) [0 ..< counts ! i]) [0 ..< n]))" for n
    by (induction n) (auto simp: distinct_map inj_on_def)
  then show ?thesis by (simp add: machines_def)
qed

lemma getAllDest_machines:
  assumes "nd_wf counts d"
  shows "nd_getAllDest base d = map (\<lambda>(i, j). base i + j) (filter (\<lambda>m. m \<in> members d) (machines counts))"
proof -
  have "map (\<lambda>j. base i + j) (filter (bit (ns_bits (d ! i))) [0 ..< ns_size (d ! i)]) =
      map (\<lambda>(i, j). base i + j) (filter (\<lambda>m. m \<in> members d) (map (Pair i) [0 ..< counts ! i]))" if "i < length counts" for i
    using assms that by (simp add: nd_wf_def ns_wf_def members_def filter_map comp_def)
  then have "concat (map (\<lambda>i. map (\<lambda>j. base i + j) (filter (bit (ns_bits (d ! i))) [0 ..< ns_size (d ! i)])) [0 ..< length counts]) =
      concat (map (\<lambda>i. map (\<lambda>(i, j). base i + j) (filter (\<lambda>m. m \<in> members d) (map (Pair i) [0 ..< counts ! i]))) [0 ..< length counts])"
    by (intro arg_cong [where f = concat] map_cong) simp_all
  moreover have "length d = length counts" using assms by (simp add: nd_wf_def)
  ultimately show ?thesis by (simp add: nd_getAllDest_def machines_def filter_concat map_concat comp_def)
qed

lemma numbering_mono:
  assumes "numbering counts base" "m \<le> i" "i \<le> length counts"
  shows "base m \<le> base i"
  using assms(2,3)
proof (induction i rule: dec_induct)
  case (step i)
  then show ?case using assms(1) by (auto simp: numbering_def)
qed simp

lemma find_type:
  assumes "numbering counts base" "i < length counts" "j < counts ! i"
  shows "find (\<lambda>m. base i + j \<ge> base m \<and> base i + j < base (m + 1)) [0 ..< length counts] = Some i"
proof -
  have "\<not> base i + j < base (m + 1)" if "m < i" for m
    using numbering_mono [OF assms(1), of "m + 1" i] that assms(2) by simp
  then show ?thesis using assms by (auto simp: find_Some_iff numbering_def intro!: exI [of _ i])
qed

lemma filter_tail:
  assumes "distinct xs" "filter P xs = x # ys"
  shows "filter (\<lambda>z. P z \<and> z \<noteq> x) xs = ys"
proof -
  have "distinct (x # ys)" using assms by (metis distinct_filter)
  then have "filter (\<lambda>z. z \<noteq> x) (filter P xs) = ys" unfolding assms(2) by (auto simp: filter_id_conv)
  then show ?thesis by simp
qed

lemma filter_one: "distinct xs \<Longrightarrow> x \<in> set xs \<Longrightarrow> filter (\<lambda>z. z \<in> {x}) xs = [x]"
  by (induction xs) (auto simp: filter_empty_conv)

text \<open>Removing the first destination leaves the others, in order.\<close>

lemma getAllDest_step:
  assumes wf: "nd_wf (e_base_count env) d" and n: "numbering (e_base_count env) (e_base_number env)"
    and d: "nd_getAllDest (e_base_number env) d = x # xs"
  obtains pd rest where "personal_dest_of env x = Inr (pd, True)" "nd_getAllDest (e_base_number env) pd = [x]"
    "nd_removeNetDest pd d = Inr rest" "nd_wf (e_base_count env) rest" "nd_getAllDest (e_base_number env) rest = xs"
proof -
  let ?counts = "e_base_count env" and ?num = "\<lambda>(i, j). e_base_number env i + j"
  obtain i j ms where m: "filter (\<lambda>m. m \<in> members d) (machines ?counts) = (i, j) # ms" "x = e_base_number env i + j" "xs = map ?num ms"
    using d unfolding getAllDest_machines [OF wf] by (auto simp: Cons_eq_map_conv)
  have "(i, j) \<in> set (filter (\<lambda>m. m \<in> members d) (machines ?counts))" unfolding m(1) by simp
  then have mem: "(i, j) \<in> set (machines ?counts)" by simp
  then have ij: "i < length ?counts" "j < ?counts ! i" by (simp_all add: set_machines)
  let ?d0 = "map (\<lambda>n. \<lparr>ns_size = n, ns_bits = 0\<rparr>) ?counts"
  have small: "\<forall>n \<in> set ?counts. n \<le> 64" using wf by (auto simp: nd_wf_def ns_wf_def in_set_conv_nth)
  then have "nd_new ?counts = Inr (map2 (\<lambda>s n. s\<lparr>ns_size := n, ns_bits := 0\<rparr>) (replicate (length ?counts) Set_default) ?counts)"
    unfolding nd_new_def by (intro map2R_map) (auto simp: ns_setSize_def not_less)
  moreover have "map2 (\<lambda>s n. s\<lparr>ns_size := n, ns_bits := 0\<rparr>) (replicate (length ?counts) Set_default) ?counts = ?d0"
    by (rule nth_equalityI) (auto simp: Set_default_def)
  ultimately have d0: "nd_new ?counts = Inr ?d0" by simp
  have "nd_clear ?d0 = ?d0" by (simp add: nd_clear_def ns_clear_def)
  moreover have "nd_wf ?counts ?d0" "members ?d0 = {}" using small by (auto simp: nd_wf_def ns_wf_def members_def)
  ultimately obtain pd where pd: "nd_add (i, j) (nd_clear ?d0) = Inr pd" "nd_wf ?counts pd" "members pd = {(i, j)}"
    using add_members [of ?counts ?d0 "(i, j)"] ij by auto
  obtain rest where rest: "nd_removeNetDest pd d = Inr rest" "nd_wf ?counts rest" "members rest = members d - {(i, j)}"
    using removeNetDest_members [OF wf pd(2)] pd(3) by auto
  have "personal_dest_of env x = Inr (pd, True)"
    using d0 pd(1) find_type [OF n ij] by (simp add: personal_dest_of_def m(2))
  moreover have "filter (\<lambda>m. m \<in> members pd) (machines ?counts) = [(i, j)]"
    unfolding pd(3) by (rule filter_one [OF distinct_machines mem])
  moreover have "filter (\<lambda>m. m \<in> members rest) (machines ?counts) = ms"
    unfolding rest(3) using filter_tail [OF distinct_machines m(1)] by simp
  ultimately show ?thesis using that rest(1,2) m(2,3) pd(2) by (simp add: getAllDest_machines)
qed

section \<open>Packets\<close>

definition src_delay :: "NiEnv \<Rightarrow> tick \<Rightarrow> cycles" where
  "src_delay env msg_time = e_curCycle env - (case ticksToCycles env msg_time of Inl _ \<Rightarrow> 0 | Inr c \<Rightarrow> c)"

text \<open>The flits of the packet for \<open>destID\<close>, which carries the copy number \<open>ptr\<close> of the message.\<close>

definition packet :: "NiEnv \<Rightarrow> int \<Rightarrow> int \<Rightarrow> tick \<Rightarrow> NetworkInterface \<Rightarrow> nat \<Rightarrow> NetMsg \<Rightarrow> nat \<Rightarrow> int \<Rightarrow> flit list" where
  "packet env vnet num_flits msg_time ni ptr copy destID vc =
     map (\<lambda>j. (flit_new j vc vnet \<lparr>r_vnet = vnet, r_net_dest = nm_Destination copy, r_src_ni = ni_id ni, r_src_router = ni_router_id ni,
                  r_dest_ni = int destID, r_dest_router = e_router_of env destID, r_hops_traversed = - 1\<rparr> num_flits ptr (e_curCycle env))
              \<lparr>f_src_delay := src_delay env msg_time\<rparr>) [0 .. num_flits - 1]"

lemma insert_flits:
  assumes "foldR (insert_flit env vc vnet route n t ptr) js bufs = Inr bufs'"
  shows "length bufs' = length bufs \<and> (\<forall>u < length bufs. fb_contents (bufs' ! u) = fb_contents (bufs ! u) +
     (if int u = vc then mset (map (\<lambda>j. (flit_new j vc vnet route n ptr (e_curCycle env))\<lparr>f_src_delay := src_delay env t\<rparr>) js) else {#}))"
  using assms
proof (induction js arbitrary: bufs)
  case (Cons j js)
  let ?f = "(flit_new j vc vnet route n ptr (e_curCycle env))\<lparr>f_src_delay := src_delay env t\<rparr>"
  obtain bufs1 where i: "insert_flit env vc vnet route n t ptr j bufs = Inr bufs1"
      and rec: "foldR (insert_flit env vc vnet route n t ptr) js bufs1 = Inr bufs'"
    using Cons.prems by (auto simp: bindR_Inr_iff)
  have b: "0 \<le> vc" "nat vc < length bufs" "bufs1 = bufs[nat vc := fb_insert ?f (bufs ! nat vc)]"
    using i by (auto simp: insert_flit_def bindR_Inr_iff vec_Inr_iffs cycles_minus_def src_delay_def split: if_splits)
  have "fb_contents (bufs1 ! u) = fb_contents (bufs ! u) + (if int u = vc then {#?f#} else {#})" if "u < length bufs" for u
    using that b(1,2) fb.ins_contents by (auto simp: b(3) nth_list_update)
  then show ?case using Cons.IH [OF rec] b(3) by auto
qed simp

text \<open>The parts of an interface that sending a packet needs.\<close>

definition sending_ok :: "int \<Rightarrow> NetworkInterface \<Rightarrow> bool" where
  "sending_ok vnet ni \<longleftrightarrow> vnet_ok vnet ni \<and> length (ni_niOutVcs ni) = length (ni_outVcState ni)"

lemma calculateVC_step:
  assumes "sending_ok vnet ni" "calculateVC curCycle vnet ni = Inr (ni', vc)"
  shows "sending_ok vnet ni'" "ni_outVcState ni' = ni_outVcState ni" "ni_niOutVcs ni' = ni_niOutVcs ni" "ni_id ni' = ni_id ni"
    "ni_router_id ni' = ni_router_id ni" "ni_vc_per_vnet ni' = ni_vc_per_vnet ni"
    "vc = - 1 \<or> vc_is_idle curCycle ni vc \<and> vc \<in> {vnet * ni_vc_per_vnet ni ..< (vnet + 1) * ni_vc_per_vnet ni}
       \<and> 0 \<le> vc \<and> nat vc < length (ni_outVcState ni)"
proof -
  have ok: "vnet_ok vnet ni" using assms(1) by (simp add: sending_ok_def)
  note r = assms(2) [unfolded calculateVC_result [OF ok]]
  have "\<exists>al busy. ni' = ni\<lparr>ni_vc_allocator := (ni_vc_allocator ni)[nat vnet := al], ni_vc_busy_counter := (ni_vc_busy_counter ni)[nat vnet := busy]\<rparr>
      \<and> 0 \<le> al \<and> al < ni_vc_per_vnet ni"
  proof (cases "next_vc curCycle vnet ni")
    case None
    then have "ni' = ni\<lparr>ni_vc_allocator := (ni_vc_allocator ni)[nat vnet := ni_vc_allocator ni ! nat vnet],
        ni_vc_busy_counter := (ni_vc_busy_counter ni)[nat vnet := ni_vc_busy_counter ni ! nat vnet + 1]\<rparr>"
      using r by (auto split: if_splits)
    then show ?thesis using ok unfolding vnet_ok_def by blast
  next
    case (Some w)
    then have "ni' = ni\<lparr>ni_vc_allocator := (ni_vc_allocator ni)[nat vnet := (w - vnet * ni_vc_per_vnet ni + 1) mod ni_vc_per_vnet ni],
        ni_vc_busy_counter := (ni_vc_busy_counter ni)[nat vnet := 0]\<rparr>"
      using r by auto
    moreover have "0 < ni_vc_per_vnet ni" using ok by (simp add: vnet_ok_def)
    ultimately show ?thesis using pos_mod_bound pos_mod_sign by blast
  qed
  then show "sending_ok vnet ni'" "ni_outVcState ni' = ni_outVcState ni" "ni_niOutVcs ni' = ni_niOutVcs ni" "ni_id ni' = ni_id ni"
    "ni_router_id ni' = ni_router_id ni" "ni_vc_per_vnet ni' = ni_vc_per_vnet ni"
    using assms(1) by (auto simp: sending_ok_def vnet_ok_def)
  show "vc = - 1 \<or> vc_is_idle curCycle ni vc \<and> vc \<in> {vnet * ni_vc_per_vnet ni ..< (vnet + 1) * ni_vc_per_vnet ni}
       \<and> 0 \<le> vc \<and> nat vc < length (ni_outVcState ni)"
  proof (cases "next_vc curCycle vnet ni")
    case None
    then show ?thesis using r by (auto split: if_splits)
  next
    case (Some w)
    then have "w = vc" using r by auto
    then have "vc_is_idle curCycle ni vc" "vc \<in> set (vc_order vnet ni (ni_vc_allocator ni ! nat vnet) (nat (ni_vc_per_vnet ni)))"
      using Some unfolding next_vc_def find_Some_iff by auto
    then show ?thesis using vc_order_in [OF ok] by auto
  qed
qed

lemma send_packet_step:
  assumes ok: "sending_ok vnet ni" and p: "m_ptr msg < length store" and vc: "0 \<le> vc" "nat vc < length (ni_outVcState ni)"
    and s: "send_packet env vnet n multi msg d vc store ni = Inr (store', ni')"
    and m: "multi \<Longrightarrow> personal_dest_of env d = Inr (pd, True) \<and> nd_removeNetDest pd (nm_Destination (store ! m_ptr msg)) = Inr rest"
  defines "copy \<equiv> (store ! m_ptr msg)\<lparr>nm_msg := msg\<lparr>m_ptr := length store\<rparr>, nm_Destination := if multi then pd else nm_Destination (store ! m_ptr msg)\<rparr>"
  shows "store' = store[m_ptr msg := (store ! m_ptr msg)\<lparr>nm_Destination := if multi then rest else nm_Destination (store ! m_ptr msg)\<rparr>] @ [copy]"
    and "sending_ok vnet ni'" "ni_id ni' = ni_id ni" "ni_router_id ni' = ni_router_id ni" "ni_vc_per_vnet ni' = ni_vc_per_vnet ni"
      "length (ni_niOutVcs ni') = length (ni_niOutVcs ni)"
    and "\<forall>u < length (ni_niOutVcs ni). fb_contents (ni_niOutVcs ni' ! u) = fb_contents (ni_niOutVcs ni ! u) +
      (if int u = vc then mset (packet env vnet n (m_time msg) ni (length store) copy d vc) else {#})"
    and "0 \<le> u \<Longrightarrow> nat u < length (ni_outVcState ni) \<Longrightarrow> vc_is_idle (e_curCycle env) ni' u \<longleftrightarrow> vc_is_idle (e_curCycle env) ni u \<and> u \<noteq> vc"
proof -
  let ?nm = "store ! m_ptr msg"
  have body: "(if multi
      then bindR (personal_dest_of env d) (\<lambda>(personal_dest, found).
           bindR (nd_removeNetDest personal_dest (nm_Destination ?nm)) (\<lambda>rest.
             Inr (if found then ?nm\<lparr>nm_msg := msg\<lparr>m_ptr := length store\<rparr>, nm_Destination := personal_dest\<rparr>
                  else ?nm\<lparr>nm_msg := msg\<lparr>m_ptr := length store\<rparr>\<rparr>, ?nm\<lparr>nm_Destination := rest\<rparr>)))
      else Inr (?nm\<lparr>nm_msg := msg\<lparr>m_ptr := length store\<rparr>\<rparr>, ?nm)) =
      Inr (copy, ?nm\<lparr>nm_Destination := if multi then rest else nm_Destination ?nm\<rparr>)"
    using m by (simp add: copy_def)
  let ?route = "\<lparr>r_vnet = vnet, r_net_dest = nm_Destination copy, r_src_ni = ni_id ni, r_src_router = ni_router_id ni,
      r_dest_ni = int d, r_dest_router = e_router_of env d, r_hops_traversed = - 1\<rparr>"
  obtain bufs times states where r: "foldR (insert_flit env vc vnet ?route n (m_time msg) (length store)) [0 .. n - 1] (ni_niOutVcs ni) = Inr bufs"
      "vec_modify vc (\<lambda>s. Inr (ovs_setState ACTIVE (e_curCycle env) s)) (ni_outVcState ni) = Inr states"
      "store' = store[m_ptr msg := ?nm\<lparr>nm_Destination := if multi then rest else nm_Destination ?nm\<rparr>] @ [copy]"
      "ni' = ni\<lparr>ni_niOutVcs := bufs, ni_out_vcs_enqueue_time := times, ni_outVcState := states\<rparr>"
    using s p body by (auto simp: send_packet_def Let_def bindR_Inr_iff)
  have st: "states = (ni_outVcState ni)[nat vc := ovs_setState ACTIVE (e_curCycle env) (ni_outVcState ni ! nat vc)]"
    using r(2) by (auto simp: vec_Inr_iffs)
  note ins = insert_flits [OF r(1)]
  show "store' = store[m_ptr msg := ?nm\<lparr>nm_Destination := if multi then rest else nm_Destination ?nm\<rparr>] @ [copy]" by (rule r(3))
  show "sending_ok vnet ni'" "ni_id ni' = ni_id ni" "ni_router_id ni' = ni_router_id ni" "ni_vc_per_vnet ni' = ni_vc_per_vnet ni"
      "length (ni_niOutVcs ni') = length (ni_niOutVcs ni)"
    using ok ins by (simp_all add: r(4) st sending_ok_def vnet_ok_def)
  show "\<forall>u < length (ni_niOutVcs ni). fb_contents (ni_niOutVcs ni' ! u) = fb_contents (ni_niOutVcs ni ! u) +
      (if int u = vc then mset (packet env vnet n (m_time msg) ni (length store) copy d vc) else {#})"
    using ins by (simp add: r(4) packet_def)
  show "vc_is_idle (e_curCycle env) ni' u \<longleftrightarrow> vc_is_idle (e_curCycle env) ni u \<and> u \<noteq> vc" if "0 \<le> u" "nat u < length (ni_outVcState ni)"
    using that vc by (auto simp: vc_is_idle_def r(4) st nth_list_update isInState_def ovs_setState_def eq_nat_nat_iff)
qed

text \<open>The outcome of sending packets to the destinations \<open>ds\<close>: the first \<open>length vcs\<close> of them got a packet each, in the
  channels \<open>vcs\<close>, carrying the copies at the end of the store.\<close>

definition packets_sent :: "NiEnv \<Rightarrow> int \<Rightarrow> int \<Rightarrow> Message \<Rightarrow> nat list \<Rightarrow> MsgStore \<Rightarrow> NetworkInterface \<Rightarrow> int list \<Rightarrow> MsgStore \<Rightarrow> NetworkInterface \<Rightarrow> bool" where
  "packets_sent env vnet n msg ds store ni vcs store' ni' \<longleftrightarrow>
     length vcs \<le> length ds \<and> length store' = length store + length vcs
     \<and> (\<forall>q < length store. q \<noteq> m_ptr msg \<longrightarrow> store' ! q = store ! q)
     \<and> (\<forall>i < length vcs. nd_getAllDest (e_base_number env) (nm_Destination (store' ! (length store + i))) = [ds ! i]
          \<and> m_ptr (nm_msg (store' ! (length store + i))) = length store + i)
     \<and> distinct vcs \<and> (\<forall>vc \<in> set vcs. vc_is_idle (e_curCycle env) ni vc \<and> vc \<in> {vnet * ni_vc_per_vnet ni ..< (vnet + 1) * ni_vc_per_vnet ni})
     \<and> length (ni_niOutVcs ni') = length (ni_niOutVcs ni)
     \<and> (\<forall>u < length (ni_niOutVcs ni). fb_contents (ni_niOutVcs ni' ! u) = fb_contents (ni_niOutVcs ni ! u) +
          (\<Sum>i < length vcs. if vcs ! i = int u
             then mset (packet env vnet n (m_time msg) ni (length store + i) (store' ! (length store + i)) (ds ! i) (vcs ! i)) else {#}))"

lemma packets_sent_none: "ni_niOutVcs ni' = ni_niOutVcs ni \<Longrightarrow> packets_sent env vnet n msg ds store ni [] store ni'"
  by (simp add: packets_sent_def)

lemma packet_cong:
  "ni_id ni' = ni_id ni \<Longrightarrow> ni_router_id ni' = ni_router_id ni \<Longrightarrow> packet env vnet n t ni' ptr copy d vc = packet env vnet n t ni ptr copy d vc"
  by (simp add: packet_def)

lemma packets_sent_Cons:
  assumes ok: "sending_ok vnet ni" and p: "m_ptr msg < length store"
    and c: "calculateVC (e_curCycle env) vnet ni = Inr (ni1, vc)" "vc \<noteq> - 1"
    and s: "send_packet env vnet n multi msg d vc store ni1 = Inr (store2, ni2)"
    and m: "multi \<Longrightarrow> personal_dest_of env d = Inr (pd, True) \<and> nd_removeNetDest pd (nm_Destination (store ! m_ptr msg)) = Inr rest"
    and one: "nd_getAllDest (e_base_number env) (if multi then pd else nm_Destination (store ! m_ptr msg)) = [d]"
    and r: "packets_sent env vnet n msg ds store2 ni2 vcs store' ni'"
  shows "packets_sent env vnet n msg (d # ds) store ni (vc # vcs) store' ni'"
proof -
  note c1 = calculateVC_step [OF ok c(1)]
  have vc: "vc_is_idle (e_curCycle env) ni vc" "vc \<in> {vnet * ni_vc_per_vnet ni ..< (vnet + 1) * ni_vc_per_vnet ni}"
      "0 \<le> vc" "nat vc < length (ni_outVcState ni)"
    using c1(7) c(2) by auto
  note s1 = send_packet_step [OF c1(1) p vc(3) _ s m, unfolded c1(2-6), OF vc(4)]
  have len: "length store2 = Suc (length store)" by (simp add: s1(1))
  then have next_ptr: "length store + Suc i = length store2 + i" for i by simp
  have copy: "store' ! length store = store2 ! length store" using r p len by (simp add: packets_sent_def)
  have st: "store' ! q = store ! q" if "q < length store" "q \<noteq> m_ptr msg" for q
    using r that by (simp add: packets_sent_def s1(1) nth_append)
  have idle: "vc_is_idle (e_curCycle env) ni u \<and> u \<noteq> vc" if "vc_is_idle (e_curCycle env) ni2 u" "u \<in> {vnet * ni_vc_per_vnet ni ..< (vnet + 1) * ni_vc_per_vnet ni}" for u
  proof -
    have "0 \<le> vnet * ni_vc_per_vnet ni" "(vnet + 1) * ni_vc_per_vnet ni \<le> int (length (ni_outVcState ni))"
      using ok by (simp_all add: sending_ok_def vnet_ok_def)
    then have "0 \<le> u" "nat u < length (ni_outVcState ni)" using that(2) by auto
    then have "vc_is_idle (e_curCycle env) ni1 u \<and> u \<noteq> vc" using s1(8) that(1) by blast
    then show ?thesis by (simp add: vc_is_idle_def c1(2))
  qed
  have pk: "packet env vnet n t ni2 q x e w = packet env vnet n t ni q x e w" "packet env vnet n t ni1 q x e w = packet env vnet n t ni q x e w" for t q x e w
    using s1(3,4) c1(4,5) by (simp_all add: packet_def)
  have flits: "fb_contents (ni_niOutVcs ni' ! u) = fb_contents (ni_niOutVcs ni ! u) +
     (\<Sum>i < length (vc # vcs). if (vc # vcs) ! i = int u
        then mset (packet env vnet n (m_time msg) ni (length store + i) (store' ! (length store + i)) ((d # ds) ! i) ((vc # vcs) ! i)) else {#})"
    if "u < length (ni_niOutVcs ni)" for u
  proof -
    have "fb_contents (ni_niOutVcs ni2 ! u) = fb_contents (ni_niOutVcs ni ! u) +
        (if int u = vc then mset (packet env vnet n (m_time msg) ni (length store) (store' ! length store) d vc) else {#})"
      using s1(7) that by (simp add: copy s1(1) pk nth_append)
    moreover have "fb_contents (ni_niOutVcs ni' ! u) = fb_contents (ni_niOutVcs ni2 ! u) + (\<Sum>i < length vcs. if vcs ! i = int u
        then mset (packet env vnet n (m_time msg) ni (length store + Suc i) (store' ! (length store + Suc i)) (ds ! i) (vcs ! i)) else {#})"
      using r that s1(6) unfolding packets_sent_def pk(1) next_ptr by simp
    ultimately show ?thesis unfolding length_Cons sum.lessThan_Suc_shift nth_Cons_Suc nth_Cons_0 by (simp add: eq_commute [of vc] add.assoc)
  qed
  have copies: "nd_getAllDest (e_base_number env) (nm_Destination (store' ! (length store + i))) = [(d # ds) ! i]
      \<and> m_ptr (nm_msg (store' ! (length store + i))) = length store + i" if "i < length (vc # vcs)" for i
  proof (cases i)
    case 0
    then show ?thesis using one by (simp add: copy s1(1) nth_append)
  next
    case (Suc k)
    then show ?thesis using r that len by (auto simp: packets_sent_def)
  qed
  have "distinct (vc # vcs)" "\<forall>w \<in> set (vc # vcs). vc_is_idle (e_curCycle env) ni w \<and> w \<in> {vnet * ni_vc_per_vnet ni ..< (vnet + 1) * ni_vc_per_vnet ni}"
    using r idle vc(1,2) s1(5) unfolding packets_sent_def by auto
  then show ?thesis unfolding packets_sent_def
    using r len st copies flits s1(6) by (simp add: packets_sent_def)
qed

section \<open>Messages\<close>

lemma flitisize_multi:
  assumes "numbering (e_base_count env) (e_base_number env)" "sending_ok vnet ni" "m_ptr msg < length store"
    "nd_wf (e_base_count env) (nm_Destination (store ! m_ptr msg))"
    "nd_getAllDest (e_base_number env) (nm_Destination (store ! m_ptr msg)) = ds"
    "flitisize_dests env vnet n True msg ds (store, ni) = Inr (store', ni', ok)"
  shows "\<exists>vcs. packets_sent env vnet n msg ds store ni vcs store' ni' \<and> (ok \<longleftrightarrow> length vcs = length ds)
     \<and> nd_getAllDest (e_base_number env) (nm_Destination (store' ! m_ptr msg)) = drop (length vcs) ds"
  using assms(2-)
proof (induction ds arbitrary: store ni)
  case Nil
  then show ?case by (auto intro!: exI [of _ "[]"] packets_sent_none)
next
  case (Cons d ds)
  obtain ni1 vc where c: "calculateVC (e_curCycle env) vnet ni = Inr (ni1, vc)"
      "(if vc = - 1 then Inr (store, ni1, False)
        else bindR (send_packet env vnet n True msg d vc store ni1) (flitisize_dests env vnet n True msg ds)) = Inr (store', ni', ok)"
    using Cons.prems(5) by (auto simp: bindR_Inr_iff)
  note c1 = calculateVC_step [OF Cons.prems(1) c(1)]
  show ?case
  proof (cases "vc = - 1")
    case True
    then show ?thesis using c(2) c1(3) Cons.prems(4) by (auto intro!: exI [of _ "[]"] packets_sent_none)
  next
    case False
    then obtain store2 ni2 where s: "send_packet env vnet n True msg d vc store ni1 = Inr (store2, ni2)"
        "flitisize_dests env vnet n True msg ds (store2, ni2) = Inr (store', ni', ok)"
      using c(2) by (auto simp: bindR_Inr_iff)
    obtain pd rest where d: "personal_dest_of env d = Inr (pd, True)" "nd_getAllDest (e_base_number env) pd = [d]"
        "nd_removeNetDest pd (nm_Destination (store ! m_ptr msg)) = Inr rest" "nd_wf (e_base_count env) rest"
        "nd_getAllDest (e_base_number env) rest = ds"
      using getAllDest_step [OF Cons.prems(3) assms(1) Cons.prems(4)] by blast
    have vc: "0 \<le> vc" "nat vc < length (ni_outVcState ni1)" using c1(2,7) False by auto
    note s1 = send_packet_step [OF c1(1) Cons.prems(2) vc s(1), of pd rest]
    have "m_ptr msg < length store2" "store2 ! m_ptr msg = (store ! m_ptr msg)\<lparr>nm_Destination := rest\<rparr>"
      using s1(1) d Cons.prems(2) by (simp_all add: nth_append)
    then obtain vcs where "packets_sent env vnet n msg ds store2 ni2 vcs store' ni'" "ok \<longleftrightarrow> length vcs = length ds"
        "nd_getAllDest (e_base_number env) (nm_Destination (store' ! m_ptr msg)) = drop (length vcs) ds"
      using Cons.IH [OF s1(2) _ _ _ s(2)] d by auto
    then show ?thesis using packets_sent_Cons [OF Cons.prems(1,2) c(1) False s(1), of pd rest] d
      by (intro exI [of _ "vc # vcs"]) simp
  qed
qed

lemma flitisize_single:
  assumes "sending_ok vnet ni" "m_ptr msg < length store"
    "nd_getAllDest (e_base_number env) (nm_Destination (store ! m_ptr msg)) = ds" "length ds \<le> 1"
    "flitisize_dests env vnet n False msg ds (store, ni) = Inr (store', ni', ok)"
  shows "\<exists>vcs. packets_sent env vnet n msg ds store ni vcs store' ni' \<and> (ok \<longleftrightarrow> length vcs = length ds)
     \<and> (ok \<or> store' = store \<and> vcs = [])"
proof (cases ds)
  case Nil
  then show ?thesis using assms(5) by (auto intro!: exI [of _ "[]"] packets_sent_none)
next
  case (Cons d ds')
  then have ds: "ds = [d]" using assms(4) by simp
  obtain ni1 vc where c: "calculateVC (e_curCycle env) vnet ni = Inr (ni1, vc)"
      "(if vc = - 1 then Inr (store, ni1, False)
        else bindR (send_packet env vnet n False msg d vc store ni1) (flitisize_dests env vnet n False msg [])) = Inr (store', ni', ok)"
    using assms(5) ds by (auto simp: bindR_Inr_iff)
  note c1 = calculateVC_step [OF assms(1) c(1)]
  show ?thesis
  proof (cases "vc = - 1")
    case True
    then show ?thesis using c(2) c1(3) ds by (auto intro!: exI [of _ "[]"] packets_sent_none)
  next
    case False
    then have s: "send_packet env vnet n False msg d vc store ni1 = Inr (store', ni')" "ok"
      using c(2) by (auto simp: bindR_Inr_iff)
    have "packets_sent env vnet n msg [d] store ni [vc] store' ni'"
      by (rule packets_sent_Cons [OF assms(1,2) c(1) False s(1)]) (use assms(3) ds in \<open>auto intro: packets_sent_none\<close>)
    then show ?thesis using s(2) ds by auto
  qed
qed

text \<open>Nothing stops the interface from sending: it is shaped as its constructor makes it, the deadlock check has not used up
  its threshold, and the message was not made in the future.\<close>

definition can_send :: "NiEnv \<Rightarrow> int \<Rightarrow> Message \<Rightarrow> NetworkInterface \<Rightarrow> bool" where
  "can_send env vnet msg ni \<longleftrightarrow> sending_ok vnet ni \<and> length (ni_out_vcs_enqueue_time ni) = length (ni_outVcState ni)
     \<and> 0 < ni_deadlock_threshold ni \<and> ni_vc_busy_counter ni ! nat vnet < ni_deadlock_threshold ni
     \<and> (\<exists>c. ticksToCycles env (m_time msg) = Inr c \<and> c \<le> e_curCycle env)"

lemma calculateVC_returns:
  assumes "can_send env vnet msg ni"
  shows "\<exists>ni' vc. calculateVC curCycle vnet ni = Inr (ni', vc) \<and> (vc \<noteq> - 1 \<longrightarrow> can_send env vnet msg ni')"
proof -
  have ok: "vnet_ok vnet ni" using assms by (simp add: can_send_def sending_ok_def)
  show ?thesis
  proof (cases "next_vc curCycle vnet ni")
    case None
    then show ?thesis using assms by (simp add: calculateVC_result [OF ok] can_send_def)
  next
    case (Some vc)
    then have "calculateVC curCycle vnet ni = Inr (ni\<lparr>ni_vc_allocator := (ni_vc_allocator ni)[nat vnet := (vc - vnet * ni_vc_per_vnet ni + 1) mod ni_vc_per_vnet ni],
        ni_vc_busy_counter := (ni_vc_busy_counter ni)[nat vnet := 0]\<rparr>, vc)"
      by (simp add: calculateVC_result [OF ok])
    then show ?thesis using assms by (auto simp: can_send_def sending_ok_def vnet_ok_def)
  qed
qed

lemma insert_flits_returns:
  assumes "ticksToCycles env t = Inr c" "c \<le> e_curCycle env" "0 \<le> vc" "nat vc < length bufs"
  shows "\<exists>bufs'. foldR (insert_flit env vc vnet route n t ptr) js bufs = Inr bufs' \<and> length bufs' = length bufs"
  using assms
proof (induction js arbitrary: bufs)
  case (Cons j js)
  obtain bufs1 where "insert_flit env vc vnet route n t ptr j bufs = Inr bufs1" "length bufs1 = length bufs"
    using Cons.prems by (simp add: insert_flit_def cycles_minus_def vec_modify_def)
  then show ?case using Cons.IH [of bufs1] Cons.prems by simp
qed simp

lemma send_packet_returns:
  assumes can: "can_send env vnet msg ni" and p: "m_ptr msg < length store" and vc: "0 \<le> vc" "nat vc < length (ni_outVcState ni)"
    and m: "multi \<Longrightarrow> personal_dest_of env d = Inr (pd, True) \<and> nd_removeNetDest pd (nm_Destination (store ! m_ptr msg)) = Inr rest"
  shows "\<exists>store' ni'. send_packet env vnet n multi msg d vc store ni = Inr (store', ni') \<and> can_send env vnet msg ni'"
proof -
  obtain c where c: "ticksToCycles env (m_time msg) = Inr c" "c \<le> e_curCycle env" using can by (auto simp: can_send_def)
  have len: "length (ni_niOutVcs ni) = length (ni_outVcState ni)" "length (ni_out_vcs_enqueue_time ni) = length (ni_outVcState ni)"
    using can by (simp_all add: can_send_def sending_ok_def)
  have ins: "\<exists>bufs. foldR (insert_flit env vc vnet route n (m_time msg) ptr) js (ni_niOutVcs ni) = Inr bufs \<and> length bufs = length (ni_outVcState ni)" for route ptr js
    using insert_flits_returns [OF c vc(1), of "ni_niOutVcs ni" vnet route n ptr js] vc(2) len(1) by simp
  show ?thesis
  proof (cases multi)
    case True
    let ?copy = "(store ! m_ptr msg)\<lparr>nm_msg := msg\<lparr>m_ptr := length store\<rparr>, nm_Destination := pd\<rparr>"
    show ?thesis using ins [of "\<lparr>r_vnet = vnet, r_net_dest = nm_Destination ?copy, r_src_ni = ni_id ni, r_src_router = ni_router_id ni,
        r_dest_ni = int d, r_dest_router = e_router_of env d, r_hops_traversed = - 1\<rparr>" "length store" "[0 .. n - 1]"] m True p vc len can
      by (auto simp: send_packet_def Let_def vec_modify_def can_send_def sending_ok_def vnet_ok_def)
  next
    case False
    show ?thesis using ins [of "\<lparr>r_vnet = vnet, r_net_dest = nm_Destination (store ! m_ptr msg), r_src_ni = ni_id ni, r_src_router = ni_router_id ni,
        r_dest_ni = int d, r_dest_router = e_router_of env d, r_hops_traversed = - 1\<rparr>" "length store" "[0 .. n - 1]"] False p vc len can
      by (auto simp: send_packet_def Let_def vec_modify_def can_send_def sending_ok_def vnet_ok_def)
  qed
qed

lemma flitisize_returns:
  assumes "numbering (e_base_count env) (e_base_number env)" "can_send env vnet msg ni" "m_ptr msg < length store"
    "nd_wf (e_base_count env) (nm_Destination (store ! m_ptr msg))"
    "multi \<Longrightarrow> nd_getAllDest (e_base_number env) (nm_Destination (store ! m_ptr msg)) = ds" "\<not> multi \<Longrightarrow> length ds \<le> 1"
  shows "\<exists>store' ni' ok. flitisize_dests env vnet n multi msg ds (store, ni) = Inr (store', ni', ok)"
  using assms(2-)
proof (induction ds arbitrary: store ni)
  case (Cons d ds)
  obtain ni1 vc where c: "calculateVC (e_curCycle env) vnet ni = Inr (ni1, vc)" "vc \<noteq> - 1 \<longrightarrow> can_send env vnet msg ni1"
    using calculateVC_returns [OF Cons.prems(1)] by blast
  show ?case
  proof (cases "vc = - 1")
    case False
    have "\<exists>pd rest. multi \<longrightarrow> personal_dest_of env d = Inr (pd, True) \<and> nd_removeNetDest pd (nm_Destination (store ! m_ptr msg)) = Inr rest
        \<and> nd_wf (e_base_count env) rest \<and> nd_getAllDest (e_base_number env) rest = ds"
    proof (cases multi)
      case True
      from getAllDest_step [OF Cons.prems(3) assms(1) Cons.prems(4) [OF True]] show ?thesis by metis
    qed simp
    then obtain pd rest where d: "multi \<Longrightarrow> personal_dest_of env d = Inr (pd, True) \<and> nd_removeNetDest pd (nm_Destination (store ! m_ptr msg)) = Inr rest"
        "multi \<Longrightarrow> nd_wf (e_base_count env) rest \<and> nd_getAllDest (e_base_number env) rest = ds"
      by blast
    have ok: "sending_ok vnet ni" using Cons.prems(1) by (simp add: can_send_def)
    note c1 = calculateVC_step [OF ok c(1)]
    have vc: "0 \<le> vc" "nat vc < length (ni_outVcState ni1)" using c1(2,7) False by auto
    obtain store2 ni2 where s: "send_packet env vnet n multi msg d vc store ni1 = Inr (store2, ni2)" "can_send env vnet msg ni2"
      using send_packet_returns [OF _ Cons.prems(2) vc d(1)] c(2) False by blast
    note s1 = send_packet_step [OF c1(1) Cons.prems(2) vc s(1) d(1)]
    have "\<exists>store' ni' ok. flitisize_dests env vnet n multi msg ds (store2, ni2) = Inr (store', ni', ok)"
    proof (cases multi)
      case True
      then show ?thesis using s(2) d Cons.prems(2,3) by (intro Cons.IH) (auto simp: s1(1) nth_append)
    next
      case False
      then show ?thesis using Cons.prems(5) by auto
    qed
    then show ?thesis using c(1) s(1) False by simp
  qed (use c in auto)
qed auto


lemma demo_message:
  "numbering (e_base_count demo_env) (e_base_number demo_env)" "can_send demo_env 1 (Message_new 0 0) demo_ni"
  "nd_wf (e_base_count demo_env) (nm_Destination (demo_store ! 0))" "0 < g_ni_flit_size (e_net demo_env)"
proof -
  have "length (ni_niOutVcs demo_ni) = 4" "length (ni_outVcState demo_ni) = 4" "length (ni_out_vcs_enqueue_time demo_ni) = 4"
    unfolding demo_ni_def demo_states by (simp_all add: NetworkInterface_new_def demo_net_def Let_def)
  then show "can_send demo_env 1 (Message_new 0 0) demo_ni"
    using demo_ni_ok(2) by (simp add: can_send_def sending_ok_def ticksToCycles_def divCeil_def demo_env_def Message_new_def)
      (simp add: demo_ni_def NetworkInterface_new_def demo_net_def Let_def)
qed (use demo_dest_wf(1) in \<open>auto simp: numbering_def demo_env_def less_Suc_eq demo_store_def demo_net_def\<close>)


end
