(* ===== verification/InterfaceShape.thy ===== *)
theory InterfaceShape
  imports Flitisation CreditFlow
begin

text \<open>
  The shape of a network interface: the sizes of its vectors, the ranges of its counters and pointers and the heap order
  of its queues. Its constructor and \<open>init\<close> establish it, and every operation keeps it.
\<close>

section \<open>The shape\<close>

definition credit_ok :: "OutVcState \<Rightarrow> bool" where
  "credit_ok s \<longleftrightarrow> 0 \<le> ovs_credit_count s \<and> ovs_credit_count s \<le> ovs_max_credit_count s"

definition queues_ok :: "NetworkInterface \<Rightarrow> bool" where
  "queues_ok ni \<longleftrightarrow> (\<forall>b \<in> set (ni_niOutVcs ni). fb_ok b) \<and> fb_ok (ni_outFlitQueue ni) \<and> fb_ok (ni_outCreditQueue ni)"

definition channels_ok :: "nat \<Rightarrow> NetworkInterface \<Rightarrow> bool" where
  "channels_ok n ni \<longleftrightarrow> length (ni_outVcState ni) = n \<and> length (ni_niOutVcs ni) = n \<and> length (ni_out_vcs_enqueue_time ni) = n
     \<and> 0 \<le> ni_vc_round_robin ni \<and> ni_vc_round_robin ni < int n \<and> (\<forall>s \<in> set (ni_outVcState ni). credit_ok s)"

definition vnets_ok :: "GarnetNetwork \<Rightarrow> NetworkInterface \<Rightarrow> bool" where
  "vnets_ok g ni \<longleftrightarrow> ni_virtual_networks ni = g_virtual_networks g \<and> ni_vc_per_vnet ni = g_vcs_per_vnet g
     \<and> length (ni_vc_allocator ni) = nat (g_virtual_networks g) \<and> length (ni_vc_busy_counter ni) = nat (g_virtual_networks g)
     \<and> length (ni_stall_count ni) = nat (g_virtual_networks g) \<and> 0 \<le> ni_deadlock_threshold ni
     \<and> (\<forall>d \<in> set (ni_vc_allocator ni). 0 \<le> d \<and> d < g_vcs_per_vnet g)
     \<and> (\<forall>b \<in> set (ni_vc_busy_counter ni). 0 \<le> b \<and> b \<le> ni_deadlock_threshold ni)"

definition ni_wf :: "GarnetNetwork \<Rightarrow> NetworkInterface \<Rightarrow> bool" where
  "ni_wf g ni \<longleftrightarrow> 0 < g_virtual_networks g \<and> 0 < g_vcs_per_vnet g
     \<and> vnets_ok g ni \<and> channels_ok (nat (g_virtual_networks g * g_vcs_per_vnet g)) ni \<and> queues_ok ni"

text \<open>Fields a part of the shape does not depend on.\<close>

lemma vnets_ok_frame [simp]:
  "vnets_ok g (ni\<lparr>ni_niOutVcs := x1\<rparr>) = vnets_ok g ni"
  "vnets_ok g (ni\<lparr>ni_out_vcs_enqueue_time := x2\<rparr>) = vnets_ok g ni"
  "vnets_ok g (ni\<lparr>ni_outVcState := x3\<rparr>) = vnets_ok g ni"
  "vnets_ok g (ni\<lparr>ni_vc_round_robin := x4\<rparr>) = vnets_ok g ni"
  "vnets_ok g (ni\<lparr>ni_outFlitQueue := x5\<rparr>) = vnets_ok g ni"
  "vnets_ok g (ni\<lparr>ni_outCreditQueue := x6\<rparr>) = vnets_ok g ni"
  "vnets_ok g (ni\<lparr>ni_stall_queue := x7\<rparr>) = vnets_ok g ni"
  "vnets_ok g (ni\<lparr>ni_inNode_ptr := x8\<rparr>) = vnets_ok g ni"
  "vnets_ok g (ni\<lparr>ni_outNode_ptr := x9\<rparr>) = vnets_ok g ni"
  "vnets_ok g (ni\<lparr>ni_inNetLink := x10\<rparr>) = vnets_ok g ni"
  "vnets_ok g (ni\<lparr>ni_outNetLink := x11\<rparr>) = vnets_ok g ni"
  "vnets_ok g (ni\<lparr>ni_inCreditLink := x12\<rparr>) = vnets_ok g ni"
  "vnets_ok g (ni\<lparr>ni_outCreditLink := x13\<rparr>) = vnets_ok g ni"
  "vnets_ok g (ni\<lparr>ni_router_id := x14\<rparr>) = vnets_ok g ni"
  by (simp_all add: vnets_ok_def)

lemma channels_ok_frame [simp]:
  "channels_ok n (ni\<lparr>ni_outFlitQueue := x15\<rparr>) = channels_ok n ni"
  "channels_ok n (ni\<lparr>ni_outCreditQueue := x16\<rparr>) = channels_ok n ni"
  "channels_ok n (ni\<lparr>ni_vc_allocator := x17\<rparr>) = channels_ok n ni"
  "channels_ok n (ni\<lparr>ni_vc_busy_counter := x18\<rparr>) = channels_ok n ni"
  "channels_ok n (ni\<lparr>ni_stall_queue := x19\<rparr>) = channels_ok n ni"
  "channels_ok n (ni\<lparr>ni_stall_count := x20\<rparr>) = channels_ok n ni"
  "channels_ok n (ni\<lparr>ni_inNode_ptr := x21\<rparr>) = channels_ok n ni"
  "channels_ok n (ni\<lparr>ni_outNode_ptr := x22\<rparr>) = channels_ok n ni"
  "channels_ok n (ni\<lparr>ni_inNetLink := x23\<rparr>) = channels_ok n ni"
  "channels_ok n (ni\<lparr>ni_outNetLink := x24\<rparr>) = channels_ok n ni"
  "channels_ok n (ni\<lparr>ni_inCreditLink := x25\<rparr>) = channels_ok n ni"
  "channels_ok n (ni\<lparr>ni_outCreditLink := x26\<rparr>) = channels_ok n ni"
  "channels_ok n (ni\<lparr>ni_router_id := x27\<rparr>) = channels_ok n ni"
  by (simp_all add: channels_ok_def)

lemma queues_ok_frame [simp]:
  "queues_ok (ni\<lparr>ni_out_vcs_enqueue_time := x28\<rparr>) = queues_ok ni"
  "queues_ok (ni\<lparr>ni_outVcState := x29\<rparr>) = queues_ok ni"
  "queues_ok (ni\<lparr>ni_vc_round_robin := x30\<rparr>) = queues_ok ni"
  "queues_ok (ni\<lparr>ni_vc_allocator := x31\<rparr>) = queues_ok ni"
  "queues_ok (ni\<lparr>ni_vc_busy_counter := x32\<rparr>) = queues_ok ni"
  "queues_ok (ni\<lparr>ni_stall_queue := x33\<rparr>) = queues_ok ni"
  "queues_ok (ni\<lparr>ni_stall_count := x34\<rparr>) = queues_ok ni"
  "queues_ok (ni\<lparr>ni_inNode_ptr := x35\<rparr>) = queues_ok ni"
  "queues_ok (ni\<lparr>ni_outNode_ptr := x36\<rparr>) = queues_ok ni"
  "queues_ok (ni\<lparr>ni_inNetLink := x37\<rparr>) = queues_ok ni"
  "queues_ok (ni\<lparr>ni_outNetLink := x38\<rparr>) = queues_ok ni"
  "queues_ok (ni\<lparr>ni_inCreditLink := x39\<rparr>) = queues_ok ni"
  "queues_ok (ni\<lparr>ni_outCreditLink := x40\<rparr>) = queues_ok ni"
  "queues_ok (ni\<lparr>ni_router_id := x41\<rparr>) = queues_ok ni"
  by (simp_all add: queues_ok_def)

lemma in_update: "x \<in> set (xs[i := y]) \<Longrightarrow> x = y \<or> x \<in> set xs"
  by (auto dest!: set_update_subset_insert [THEN subsetD])

lemma ni_wf_vnet_ok:
  assumes "ni_wf g ni" "0 \<le> vnet" "vnet < g_virtual_networks g"
  shows "vnet_ok vnet ni" "sending_ok vnet ni"
proof -
  have "(vnet + 1) * g_vcs_per_vnet g \<le> g_virtual_networks g * g_vcs_per_vnet g"
    using assms by (intro mult_right_mono) (simp_all add: ni_wf_def)
  moreover have "ni_vc_allocator ni ! nat vnet \<in> set (ni_vc_allocator ni)" using assms by (simp add: ni_wf_def vnets_ok_def)
  ultimately show "vnet_ok vnet ni" using assms unfolding ni_wf_def vnets_ok_def channels_ok_def vnet_ok_def by auto
  then show "sending_ok vnet ni" using assms(1) by (simp add: sending_ok_def ni_wf_def channels_ok_def)
qed

section \<open>Every operation keeps it\<close>

lemma ni_wf_calculateVC:
  assumes wf: "ni_wf g ni" and c: "calculateVC curCycle vnet ni = Inr (ni', vc)"
  shows "ni_wf g ni'" "0 \<le> vnet" "vnet < g_virtual_networks g"
proof -
  have per: "0 < ni_vc_per_vnet ni" using wf by (simp add: ni_wf_def vnets_ok_def)
  then obtain n where n: "nat (ni_vc_per_vnet ni) = Suc n" by (metis zero_less_nat_eq gr0_implies_Suc)
  obtain d where "vec_at (ni_vc_allocator ni) vnet = Inr d"
    using c unfolding calculateVC_def n vc_scan.simps bindR_Inr_iff by blast
  then show v: "0 \<le> vnet" "vnet < g_virtual_networks g" using wf by (auto simp: vec_Inr_iffs ni_wf_def vnets_ok_def)
  note ok = ni_wf_vnet_ok(1) [OF wf v]
  have in_range: "nat vnet < length (ni_vc_busy_counter ni)" "nat vnet < length (ni_vc_allocator ni)" using ok by (simp_all add: vnet_ok_def)
  have busy: "0 \<le> ni_vc_busy_counter ni ! nat vnet" using wf in_range(1) nth_mem unfolding ni_wf_def vnets_ok_def by blast
  show "ni_wf g ni'"
  proof (cases "next_vc curCycle vnet ni")
    case None
    then have "ni' = ni\<lparr>ni_vc_busy_counter := (ni_vc_busy_counter ni)[nat vnet := ni_vc_busy_counter ni ! nat vnet + 1]\<rparr>"
        "ni_vc_busy_counter ni ! nat vnet < ni_deadlock_threshold ni"
      using c by (auto simp: calculateVC_result [OF ok] split: if_splits)
    moreover from this have "vnets_ok g ni'" using wf busy unfolding ni_wf_def vnets_ok_def by (auto dest!: in_update)
    ultimately show ?thesis using wf by (simp add: ni_wf_def)
  next
    case (Some w)
    then have "ni' = ni\<lparr>ni_vc_allocator := (ni_vc_allocator ni)[nat vnet := (w - vnet * ni_vc_per_vnet ni + 1) mod ni_vc_per_vnet ni],
        ni_vc_busy_counter := (ni_vc_busy_counter ni)[nat vnet := 0]\<rparr>"
      using c by (auto simp: calculateVC_result [OF ok])
    moreover from this have "vnets_ok g ni'" using wf per unfolding ni_wf_def vnets_ok_def by (auto dest!: in_update)
    ultimately show ?thesis using wf by (simp add: ni_wf_def)
  qed
qed

lemma vec_modify_all:
  assumes "vec_modify i f xs = Inr ys" "\<forall>x \<in> set xs. P x" "\<And>x y. f x = Inr y \<Longrightarrow> P x \<Longrightarrow> P y"
  shows "length ys = length xs \<and> (\<forall>y \<in> set ys. P y)"
proof -
  obtain y where y: "nat i < length xs" "f (xs ! nat i) = Inr y" "ys = xs[nat i := y]" using assms(1) by (auto simp: vec_Inr_iffs)
  then have "P y" using assms(2,3) by simp
  then show ?thesis using assms(2) by (auto simp: y(3) dest!: in_update)
qed

lemma credit_ok_ops:
  "ovs_decrement_credit s = Inr s' \<Longrightarrow> credit_ok s \<Longrightarrow> credit_ok s'"
  "ovs_increment_credit s = Inr s' \<Longrightarrow> credit_ok s \<Longrightarrow> credit_ok s'"
  "credit_ok s \<Longrightarrow> credit_ok (ovs_setState st t s)"
  by (auto simp: ovs_decrement_credit_def ovs_increment_credit_def ovs_setState_def credit_ok_def Let_def bindR_Inr_iff)

lemma getTopFlit_ok: "fb_ok b \<Longrightarrow> getTopFlit b = Inr (b', f) \<Longrightarrow> fb_ok b'"
  using fb.get_law [of b] fb.get_empty [of b] by (cases "fb_contents b = {#}") auto

lemma insert_flits_ok:
  assumes "foldR (insert_flit env vc vnet route n t ptr) js bufs = Inr bufs'" "\<forall>b \<in> set bufs. fb_ok b"
  shows "length bufs' = length bufs \<and> (\<forall>b \<in> set bufs'. fb_ok b)"
  using assms(1)
proof (rule foldR_invariant)
  show "length bufs = length bufs \<and> (\<forall>b \<in> set bufs. fb_ok b)" using assms(2) by simp
next
  fix j bs bs'
  assume i: "insert_flit env vc vnet route n t ptr j bs = Inr bs'" and ok: "length bs = length bufs \<and> (\<forall>b \<in> set bs. fb_ok b)"
  obtain f where "0 \<le> vc" "nat vc < length bs" "bs' = bs[nat vc := fb_insert f (bs ! nat vc)]"
    using i by (auto simp: insert_flit_def bindR_Inr_iff vec_Inr_iffs)
  then show "length bs' = length bufs \<and> (\<forall>b \<in> set bs'. fb_ok b)" using ok fb.ins_inv by (auto dest!: in_update)
qed

lemma ni_wf_send_packet:
  assumes wf: "ni_wf g ni" and s: "send_packet env vnet n multi msg d vc store ni = Inr (store', ni')"
  shows "ni_wf g ni'"
proof -
  obtain route bufs times states where r: "foldR (insert_flit env vc vnet route n (m_time msg) (length store)) [0 .. n - 1] (ni_niOutVcs ni) = Inr bufs"
      "vec_put vc (e_curCycle env) (ni_out_vcs_enqueue_time ni) = Inr times"
      "vec_modify vc (\<lambda>s. Inr (ovs_setState ACTIVE (e_curCycle env) s)) (ni_outVcState ni) = Inr states"
      "ni' = ni\<lparr>ni_niOutVcs := bufs, ni_out_vcs_enqueue_time := times, ni_outVcState := states\<rparr>"
    using s unfolding send_packet_def Let_def by (auto simp: bindR_Inr_iff)
  have "length bufs = length (ni_niOutVcs ni)" "\<forall>b \<in> set bufs. fb_ok b"
    using insert_flits_ok [OF r(1)] wf by (auto simp: ni_wf_def queues_ok_def)
  moreover have "length states = length (ni_outVcState ni) \<and> (\<forall>s \<in> set states. credit_ok s)"
    using wf by (intro vec_modify_all [OF r(3)]) (auto simp: ni_wf_def channels_ok_def credit_ok_ops)
  moreover have "length times = length (ni_out_vcs_enqueue_time ni)" using r(2) by (auto simp: vec_Inr_iffs)
  ultimately have "channels_ok k ni'" "queues_ok ni'" if "channels_ok k ni" "queues_ok ni" for k
    using that by (simp_all add: r(4) channels_ok_def queues_ok_def)
  moreover have "vnets_ok g ni' = vnets_ok g ni" by (simp add: r(4))
  ultimately show ?thesis using wf unfolding ni_wf_def by blast
qed

lemma ni_wf_flitisize:
  assumes "ni_wf g ni" "flitisize_dests env vnet n multi msg ds (store, ni) = Inr (store', ni', ok)"
  shows "ni_wf g ni'"
  using assms
proof (induction ds arbitrary: store ni)
  case (Cons d ds)
  obtain ni1 vc where c: "calculateVC (e_curCycle env) vnet ni = Inr (ni1, vc)"
      "(if vc = - 1 then Inr (store, ni1, False)
        else bindR (send_packet env vnet n multi msg d vc store ni1) (flitisize_dests env vnet n multi msg ds)) = Inr (store', ni', ok)"
    using Cons.prems(2) by (auto simp: bindR_Inr_iff)
  note wf1 = ni_wf_calculateVC(1) [OF Cons.prems(1) c(1)]
  show ?case
  proof (cases "vc = - 1")
    case True
    then show ?thesis using c(2) wf1 by auto
  next
    case False
    then obtain store2 ni2 where "send_packet env vnet n multi msg d vc store ni1 = Inr (store2, ni2)"
        "flitisize_dests env vnet n multi msg ds (store2, ni2) = Inr (store', ni', ok)"
      using c(2) by (auto simp: bindR_Inr_iff)
    then show ?thesis using ni_wf_send_packet [OF wf1] Cons.IH by blast
  qed
qed simp

lemma ni_wf_pick_message:
  assumes wf: "ni_wf g (snd st)" and "pick_message env vnet st = Inr st'"
  shows "ni_wf g (snd st')"
proof -
  obtain store ni where st: "st = (store, ni)" by fastforce
  show ?thesis
  proof (cases "\<exists>b. ni_inNode_ptr ni ! vnet = Some b \<and> mb_isReady (e_curTime env) b")
    case True
    then obtain b msg store1 ni1 ok where r: "flitisizeMessage env msg (int vnet) st = Inr (store1, ni1, ok)"
        "(if ok then bindR (mb_dequeue (e_curTime env) b) (\<lambda>(b1, _).
            Inr (store1, ni1\<lparr>ni_inNode_ptr := (ni_inNode_ptr ni1)[vnet := Some b1]\<rparr>)) else Inr (store1, ni1)) = Inr st'"
      using assms by (auto simp: pick_message_def st bindR_Inr_iff)
    have "ni_wf g ni1" using r(1) wf by (auto simp: flitisizeMessage_def st bindR_Inr_iff Let_def dest: ni_wf_flitisize)
    then show ?thesis using r(2) by (auto simp: bindR_Inr_iff ni_wf_def split: if_splits)
  next
    case False
    then show ?thesis using assms by (auto simp: pick_message_def st split: option.splits)
  qed
qed

lemma ni_wf_send_flit:
  assumes wf: "ni_wf g ni" and s: "send_flit env vc ni = Inr (ni', ws)"
  shows "ni_wf g ni'"
proof -
  obtain states b b1 t_flit bufs times where r: "vec_modify vc ovs_decrement_credit (ni_outVcState ni) = Inr states"
      "vec_at (ni_niOutVcs ni) vc = Inr b" "getTopFlit b = Inr (b1, t_flit)" "vec_put vc b1 (ni_niOutVcs ni) = Inr bufs"
      "(if is_tail t_flit then vec_put vc INFINITE (ni_out_vcs_enqueue_time ni) else Inr (ni_out_vcs_enqueue_time ni)) = Inr times"
      "ni' = ni\<lparr>ni_vc_round_robin := vc, ni_outVcState := states, ni_niOutVcs := bufs, ni_out_vcs_enqueue_time := times,
         ni_outFlitQueue := fb_insert (t_flit\<lparr>f_time := e_curCycle env + 1\<rparr>) (ni_outFlitQueue ni)\<rparr>"
    using s unfolding send_flit_def by (auto simp: bindR_Inr_iff)
  have vc: "0 \<le> vc" "nat vc < length (ni_niOutVcs ni)" "b = ni_niOutVcs ni ! nat vc" "bufs = (ni_niOutVcs ni)[nat vc := b1]"
    using r(2,4) by (auto simp: vec_Inr_iffs)
  have "fb_ok b" using wf vc by (simp add: ni_wf_def queues_ok_def)
  then have "\<forall>b \<in> set bufs. fb_ok b" using getTopFlit_ok [OF _ r(3)] wf by (auto simp: vc(4) ni_wf_def queues_ok_def dest!: in_update)
  moreover have "length states = length (ni_outVcState ni) \<and> (\<forall>s \<in> set states. credit_ok s)"
    using wf by (intro vec_modify_all [OF r(1)]) (auto simp: ni_wf_def channels_ok_def intro: credit_ok_ops)
  moreover have "length times = length (ni_out_vcs_enqueue_time ni)" using r(5) by (auto simp: vec_Inr_iffs split: if_splits)
  ultimately have "channels_ok k ni'" "queues_ok ni'" if "channels_ok k ni" "queues_ok ni" for k
    using that vc fb.ins_inv by (auto simp: r(6) channels_ok_def queues_ok_def)
  moreover have "vnets_ok g ni' = vnets_ok g ni" by (simp add: r(6))
  ultimately show ?thesis using wf unfolding ni_wf_def by blast
qed

lemma ni_wf_out_scan: "ni_wf g ni \<Longrightarrow> out_scan env vc n ni = Inr (ni', ws) \<Longrightarrow> ni_wf g ni'"
proof (induction n arbitrary: vc)
  case (Suc n)
  define v where "v = (if vc + 1 = int (length (ni_niOutVcs ni)) then 0 else vc + 1)"
  have "send_flit env v ni = Inr (ni', ws) \<or> out_scan env v n ni = Inr (ni', ws)"
    using Suc.prems(2) unfolding out_scan.simps Let_def v_def [symmetric] by (auto simp: bindR_Inr_iff split: if_splits)
  then show ?case using Suc.IH Suc.prems(1) ni_wf_send_flit by blast
qed simp

lemma ni_wf_stall_count:
  "ni_wf g ni \<Longrightarrow> length cnt = length (ni_stall_count ni) \<Longrightarrow> ni_wf g (ni\<lparr>ni_stall_queue := q, ni_stall_count := cnt\<rparr>)"
  by (simp add: ni_wf_def) (simp add: vnets_ok_def)

lemma bindR_InrE: "bindR m f = Inr y \<Longrightarrow> (\<And>x. m = Inr x \<Longrightarrow> f x = Inr y \<Longrightarrow> thesis) \<Longrightarrow> thesis"
  by (auto simp: bindR_Inr_iff)

lemma ni_wf_put_out_buffer: "ni_wf g ni \<Longrightarrow> put_out_buffer v b ni = Inr ni' \<Longrightarrow> ni_wf g ni'"
  by (auto simp: put_out_buffer_Inr_iff ni_wf_def)

lemma ni_wf_sendCredit: "ni_wf g ni \<Longrightarrow> ni_wf g (sendCredit env f free ni)"
  using fb.ins_inv by (simp add: sendCredit_def ni_wf_def) (simp add: queues_ok_def)

lemma ni_wf_eject:
  assumes "ni_wf g ni" "eject env store f ni = Inr ni'"
  shows "ni_wf g ni'"
proof -
  obtain b1 ni1 where "put_out_buffer (f_vnet f) b1 ni = Inr ni1" "ni' = sendCredit env f True ni1"
    using assms(2) unfolding eject_def bindR_Inr_iff by blast
  then show ?thesis using assms(1) ni_wf_put_out_buffer ni_wf_sendCredit by blast
qed

lemma ni_wf_stall_flit:
  assumes "ni_wf g ni" "stall_flit f ni = Inr ni'"
  shows "ni_wf g ni'"
proof -
  obtain cnt b where r: "vec_modify (f_vnet f) (\<lambda>c. Inr (c + 1)) (ni_stall_count ni) = Inr cnt"
      "put_out_buffer (f_vnet f) b (ni\<lparr>ni_stall_queue := ni_stall_queue ni @ [f], ni_stall_count := cnt\<rparr>) = Inr ni'"
    using assms(2) unfolding stall_flit_def bindR_Inr_iff by blast
  moreover have "length cnt = length (ni_stall_count ni)" using r(1) by (auto simp: vec_Inr_iffs)
  ultimately show ?thesis using assms(1) ni_wf_put_out_buffer ni_wf_stall_count by blast
qed

lemma ni_wf_checkStallQueue:
  assumes wf: "ni_wf g ni" and c: "checkStallQueue env store ni = Inr (ni', e)"
  shows "ni_wf g ni'"
proof -
  obtain j where j: "first_ejectable (e_curTime env) (ni_outNode_ptr ni) 0 (ni_stall_queue ni) = Inr j"
    using c unfolding checkStallQueue_def bindR_Inr_iff by blast
  show ?thesis
  proof (cases j)
    case None
    then show ?thesis using c wf by (simp add: checkStallQueue_def j)
  next
    case (Some i)
    let ?f = "ni_stall_queue ni ! i"
    let ?ni = "\<lambda>ni1 cnt. ni1\<lparr>ni_stall_queue := take i (ni_stall_queue ni1) @ drop (Suc i) (ni_stall_queue ni1), ni_stall_count := cnt\<rparr>"
    have "bindR (eject env store ?f ni) (\<lambda>ni1.
        bindR (vec_modify (f_vnet ?f) (\<lambda>c. Inr (c - 1)) (ni_stall_count ni1)) (\<lambda>cnt.
        bindR (vec_at cnt (f_vnet ?f)) (\<lambda>c.
          if c = 0
          then bindR (out_buffer (ni_outNode_ptr (?ni ni1 cnt)) (f_vnet ?f)) (\<lambda>b.
               bindR (put_out_buffer (f_vnet ?f) (unregisterDequeueCallback b) (?ni ni1 cnt)) (\<lambda>ni3. Inr (ni3, True)))
          else Inr (?ni ni1 cnt, True)))) = Inr (ni', e)"
      using c by (simp add: checkStallQueue_def j Some Let_def)
    then obtain ni1 where r1: "eject env store ?f ni = Inr ni1"
        and b1: "bindR (vec_modify (f_vnet ?f) (\<lambda>c. Inr (c - 1)) (ni_stall_count ni1)) (\<lambda>cnt.
        bindR (vec_at cnt (f_vnet ?f)) (\<lambda>c.
          if c = 0
          then bindR (out_buffer (ni_outNode_ptr (?ni ni1 cnt)) (f_vnet ?f)) (\<lambda>b.
               bindR (put_out_buffer (f_vnet ?f) (unregisterDequeueCallback b) (?ni ni1 cnt)) (\<lambda>ni3. Inr (ni3, True)))
          else Inr (?ni ni1 cnt, True))) = Inr (ni', e)"
      by (rule bindR_InrE)
    from b1 obtain cnt where r2: "vec_modify (f_vnet ?f) (\<lambda>c. Inr (c - 1)) (ni_stall_count ni1) = Inr cnt"
        and b2: "bindR (vec_at cnt (f_vnet ?f)) (\<lambda>c.
          if c = 0
          then bindR (out_buffer (ni_outNode_ptr (?ni ni1 cnt)) (f_vnet ?f)) (\<lambda>b.
               bindR (put_out_buffer (f_vnet ?f) (unregisterDequeueCallback b) (?ni ni1 cnt)) (\<lambda>ni3. Inr (ni3, True)))
          else Inr (?ni ni1 cnt, True)) = Inr (ni', e)"
      by (rule bindR_InrE)
    have "length cnt = length (ni_stall_count ni1)" using r2 by (auto simp: vec_Inr_iffs)
    then have wf2: "ni_wf g (?ni ni1 cnt)" using ni_wf_eject [OF wf r1] ni_wf_stall_count by blast
    have "ni' = ?ni ni1 cnt \<or> (\<exists>b. put_out_buffer (f_vnet ?f) b (?ni ni1 cnt) = Inr ni')"
      using b2 by (auto simp: bindR_Inr_iff split: if_splits)
    then show ?thesis using wf2 ni_wf_put_out_buffer by blast
  qed
qed

lemma ni_wf_receive:
  assumes wf: "ni_wf g ni" and r: "receive env store e l ni = Inr (l', ni')"
  shows "ni_wf g ni'"
proof -
  have "ni_wf g ni''" if "receive_flit env store e f ni = Inr ni''" for f ni''
  proof -
    have "eject env store f ni = Inr ni'' \<or> stall_flit f ni = Inr ni'' \<or> ni'' = sendCredit env f False ni"
      using that by (auto simp: receive_flit_def bindR_Inr_iff split: if_splits)
    then show ?thesis using ni_wf_eject [OF wf] ni_wf_stall_flit [OF wf] ni_wf_sendCredit [OF wf] by blast
  qed
  then show ?thesis using r wf by (auto simp: receive_def bindR_Inr_iff split: if_splits)
qed

lemma ni_wf_receive_credit:
  assumes wf: "ni_wf g ni" and r: "receive_credit env l ni = Inr (l', ni')"
  shows "ni_wf g ni'"
proof (cases "nl_isReady (e_curCycle env) l")
  case True
  then obtain l1 c where c: "consumeLink l = Inr (l1, c)" using r by (auto simp: receive_credit_def bindR_Inr_iff)
  obtain ss ss1 where m: "vec_modify (f_vc c) ovs_increment_credit (ni_outVcState ni) = Inr ss"
      "(if f_is_free_signal c then vec_modify (f_vc c) (\<lambda>s. Inr (ovs_setState IDLE (e_curCycle env) s)) ss else Inr ss) = Inr ss1"
      "Inr (l1, ni\<lparr>ni_outVcState := ss1\<rparr>) = (Inr (l', ni') :: (NetworkLink \<times> NetworkInterface) result)"
    using r True c unfolding receive_credit_def by (simp only: if_True bindR_simps prod.case) (elim bindR_InrE)
  then have s: "vec_modify (f_vc c) ovs_increment_credit (ni_outVcState ni) = Inr ss" "ni' = ni\<lparr>ni_outVcState := ss1\<rparr>"
      "ss1 = ss \<or> vec_modify (f_vc c) (\<lambda>s. Inr (ovs_setState IDLE (e_curCycle env) s)) ss = Inr ss1"
    by (simp_all split: if_splits)
  have ss: "length ss = length (ni_outVcState ni) \<and> (\<forall>s \<in> set ss. credit_ok s)"
    using wf by (intro vec_modify_all [OF s(1)]) (auto simp: ni_wf_def channels_ok_def intro: credit_ok_ops)
  have "length ss1 = length ss \<and> (\<forall>s \<in> set ss1. credit_ok s)"
    using s(3) ss vec_modify_all [of _ _ ss ss1 credit_ok] credit_ok_ops(3) by blast
  then have "length ss1 = length (ni_outVcState ni) \<and> (\<forall>s \<in> set ss1. credit_ok s)" using ss by simp
  then have "channels_ok k ni'" if "channels_ok k ni" for k using that by (simp add: s(2) channels_ok_def)
  then show ?thesis using wf by (simp add: s(2) ni_wf_def)
qed (use r wf in \<open>simp add: receive_credit_def\<close>)

lemma ni_wf_wakeup:
  assumes wf: "ni_wf g ni" and w: "ni_wakeup env in_link credit_link store ni = Inr (in_link', credit_link', store', ni', ws)"
  shows "ni_wf g ni'"
proof -
  obtain ni1 ni2 ws1 ni3 e l4 ni4 where r:
      "foldR (pick_message env) [0 ..< length (ni_inNode_ptr ni)] (store, ni) = Inr (store', ni1)"
      "scheduleOutputLink env ni1 = Inr (ni2, ws1)" "checkStallQueue env store' ni2 = Inr (ni3, e)"
      "receive env store' e in_link ni3 = Inr (l4, ni4)" "receive_credit env credit_link ni4 = Inr (credit_link', ni')"
    using w by (auto simp: ni_wakeup_def bindR_Inr_iff Let_def)
  have "ni_wf g (snd (store', ni1))" using r(1) wf ni_wf_pick_message by (intro foldR_invariant [OF r(1), of "\<lambda>st. ni_wf g (snd st)"]) auto
  then have "ni_wf g ni2" using r(2) ni_wf_out_scan unfolding scheduleOutputLink_def by fastforce
  then show ?thesis using r(3-5) ni_wf_checkStallQueue ni_wf_receive ni_wf_receive_credit by blast
qed

lemma new_states_credit_ok: "new_states g vs = Inr ss \<Longrightarrow> s \<in> set ss \<Longrightarrow> credit_ok s"
  using new_states_fresh [of g vs ss] by (auto simp: credit_ok_def in_set_conv_nth)

lemma ni_wf_new:
  assumes pos: "0 < g_virtual_networks g" "0 < g_vcs_per_vnet g" "0 \<le> threshold"
    and i: "ni_init g (NetworkInterface_new nid g threshold) = Inr ni"
  shows "ni_wf g ni"
proof -
  define new where "new = NetworkInterface_new nid g threshold"
  let ?n = "nat (g_virtual_networks g * g_vcs_per_vnet g)"
  have z: "ni_outVcState new = []" "ni_vc_per_vnet new = g_vcs_per_vnet g" "ni_virtual_networks new = g_virtual_networks g"
    "length (ni_niOutVcs new) = ?n" "length (ni_out_vcs_enqueue_time new) = ?n" "ni_vc_round_robin new = 0"
    by (simp_all add: new_def NetworkInterface_new_def Let_def mult.commute)
  obtain ss where ss: "new_states g [0 .. g_vcs_per_vnet g * g_virtual_networks g - 1] = Inr ss" "ni = new\<lparr>ni_outVcState := ss\<rparr>"
    using i unfolding new_def [symmetric] ni_init_def z by (elim bindR_InrE) simp
  have l: "length ss = ?n" using new_states_fresh [OF ss(1)] by (simp add: mult.commute)
  have "0 < ?n" using pos by simp
  then have "channels_ok ?n ni" using l z new_states_credit_ok [OF ss(1)] by (simp add: ss(2) channels_ok_def)
  moreover have "queues_ok new" by (simp add: queues_ok_def new_def NetworkInterface_new_def Let_def fb_ok_def flitBuffer_new_def heap_def)
  moreover have "vnets_ok g new" using pos by (simp add: vnets_ok_def new_def NetworkInterface_new_def Let_def)
  ultimately show ?thesis using pos by (simp add: ni_wf_def ss(2))
qed

section \<open>Properties\<close>

datatype NiOp = AddInPort nat nat | AddOutPort nat nat int | AddNode "MessageBuffer option list" "MessageBuffer option list"
  | Wake NiEnv NetworkLink NetworkLink MsgStore

fun ni_op :: "NiOp \<Rightarrow> NetworkInterface \<Rightarrow> NetworkInterface result" where
  "ni_op (AddInPort l c) ni = Inr (ni_addInPort l c ni)"
| "ni_op (AddOutPort l c r) ni = Inr (ni_addOutPort l c r ni)"
| "ni_op (AddNode ins outs) ni = addNode ins outs ni"
| "ni_op (Wake env l c store) ni = bindR (ni_wakeup env l c store ni) (\<lambda>(_, _, _, ni1, _). Inr ni1)"

text \<open>C18: A network interface keeps its shape. For a network with virtual networks and channels, the constructor and \<open>init\<close>
  followed by any operations that no check of the code stops, with any links, messages and times, give an interface in
  which every vector has one element for each virtual network or channel, the round-robin pointers are within range, each
  count of credits is between zero and the size of the buffer it stands for, the counters of the deadlock check are within
  its threshold, and all flit queues are heaps.\<close>

theorem interface_shape:
  assumes "0 < g_virtual_networks g" "0 < g_vcs_per_vnet g" "0 \<le> threshold"
    and "ni_init g (NetworkInterface_new nid g threshold) = Inr ni0" "foldR ni_op ops ni0 = Inr ni"
  shows "ni_wf g ni"
  using assms(5)
proof (rule foldR_invariant)
  show "ni_wf g ni0" by (rule ni_wf_new [OF assms(1-4)])
next
  fix op ni1 ni2
  assume wf: "ni_wf g ni1" and s: "ni_op op ni1 = Inr ni2"
  show "ni_wf g ni2"
  proof (cases op)
    case (Wake env l c store)
    then show ?thesis using s ni_wf_wakeup [OF wf] by (auto simp: bindR_Inr_iff)
  qed (use wf s in \<open>auto simp: ni_addInPort_def ni_addOutPort_def addNode_def bindR_Inr_iff ni_wf_def\<close>)
qed

section \<open>An interface that receives a packet\<close>

definition demo_built :: NetworkInterface where
  "demo_built = (NetworkInterface_new 0 demo_net 100)\<lparr>ni_outVcState := projr (new_states demo_net [0 .. 3]),
     ni_inNetLink := 0, ni_outCreditLink := 1, ni_inCreditLink := 3, ni_outNetLink := 2, ni_router_id := 0,
     ni_outNode_ptr := [Some ((MessageBuffer_new 1 True False)\<lparr>mb_consumer := True\<rparr>), None]\<rparr>"

definition demo_setup :: "NiOp list" where
  "demo_setup = [AddInPort 0 1, AddOutPort 2 3 0, AddNode [] [Some ((MessageBuffer_new 1 True False)\<lparr>mb_consumer := True\<rparr>), None]]"

lemma demo_built_runs:
  "\<exists>ni0. ni_init demo_net (NetworkInterface_new 0 demo_net 100) = Inr ni0 \<and> foldR ni_op demo_setup ni0 = Inr demo_built"
  by (simp add: ni_init_def NetworkInterface_new_def demo_net_def [THEN arg_cong, of g_virtual_networks] demo_net_def [THEN arg_cong, of g_vcs_per_vnet]
    Let_def demo_states demo_setup_def demo_built_def ni_addInPort_def ni_addOutPort_def addNode_def)

lemma demo_built_wakes:
  "\<exists>in_link' credit_link' store' ni' ws. ni_wakeup demo_env demo_link (NetworkLink_new 1 1) demo_store demo_built =
     Inr (in_link', credit_link', store', ni', ws)"
proof -
  have "scheduleOutputLink demo_env demo_built = Inr (demo_built, [])"
    unfolding scheduleOutputLink_def
    by (rule out_scan_empty) (simp_all add: demo_built_def NetworkInterface_new_def Let_def demo_net_def flitBuffer_new_def)
  moreover have "receive_credit demo_env (NetworkLink_new 1 1) ni4 = Inr (NetworkLink_new 1 1, ni4)" for ni4
    by (simp add: receive_credit_def nl_isReady_def NetworkLink_new_def fb_isReady_def flitBuffer_new_def)
  moreover have "checkStallQueue demo_env demo_store demo_built = Inr (demo_built, False)"
    by (simp add: checkStallQueue_def demo_built_def NetworkInterface_new_def Let_def)
  moreover have "\<exists>l ni4. receive demo_env demo_store False demo_link demo_built = Inr (l, ni4)"
    by (simp add: receive_def demo_link_def nl_isReady_def fb_isReady_def consumeLink_def getTopFlit_def receive_flit_def demo_flit_def
      flit_new_def is_tail_def demo_built_def demo_env_def demo_store_def eject_def bindR_Inr_iff out_buffer_def areNSlotsAvailable_def
      visible_size_def MessageBuffer_new_def mb_enqueue_def enqueue_arrival_def Let_def Message_new_def updateDelayedTicks_def
      put_out_buffer_def incrementStats_def cycles_minus_def sendCredit_def NetworkInterface_new_def vec_at_def vec_put_def)
  moreover have "ni_inNode_ptr demo_built = []" by (simp add: demo_built_def NetworkInterface_new_def Let_def)
  ultimately show ?thesis by (auto simp: ni_wakeup_def Let_def)
qed

theorem interface_shape_witness:
  "\<exists>ni0 ni. ni_init demo_net (NetworkInterface_new 0 demo_net 100) = Inr ni0
     \<and> foldR ni_op (demo_setup @ [Wake demo_env demo_link (NetworkLink_new 1 1) demo_store]) ni0 = Inr ni \<and> ni_wf demo_net ni"
proof -
  obtain ni0 where b: "ni_init demo_net (NetworkInterface_new 0 demo_net 100) = Inr ni0" "foldR ni_op demo_setup ni0 = Inr demo_built"
    using demo_built_runs by blast
  then obtain ni where r: "foldR ni_op (demo_setup @ [Wake demo_env demo_link (NetworkLink_new 1 1) demo_store]) ni0 = Inr ni"
    using demo_built_wakes by (auto simp: foldR_append)
  have "0 < g_virtual_networks demo_net" "0 < g_vcs_per_vnet demo_net" "(0 :: int) \<le> 100" by (simp_all add: demo_net_def)
  then show ?thesis using b(1) r interface_shape [OF _ _ _ b(1) r] by blast
qed

end
