(* ===== verification/ChipletChannel.thy ===== *)
theory ChipletChannel
  imports Prelude
begin

text \<open>
  The pseudo instructions that let chiplets exchange data (\<open>gadia_call\<close> and \<open>gadia_receive\<close> of
  \<open>sim/pseudo_inst.cc\<close>). A message is a line of text appended to the file of the core it is for; a receiver
  reads the file from a position that is kept in a static variable, shared by all cores. The files are a map from
  names to contents; a name that ends in a slash is a directory and cannot be opened. The number input and output of
  the C++ streams is modelled as far as these lines need it. Shown: for one receiving core the files are a
  first-in first-out queue of 32-bit values, and a second receiving core can lose messages.
\<close>

section \<open>Numbers as text\<close>

text \<open>\<open>operator<<\<close> of an output stream for integers, in decimal.\<close>

fun show_nat :: "nat \<Rightarrow> string" where
  "show_nat n = (if n < 10 then [char_of (48 + n)] else show_nat (n div 10) @ [char_of (48 + n mod 10)])"

declare show_nat.simps [simp del]

definition show_int :: "int \<Rightarrow> string" where
  "show_int i = (if i < 0 then CHR ''-'' # show_nat (nat (- i)) else show_nat (nat i))"

definition is_space :: "char \<Rightarrow> bool" where
  "is_space c \<longleftrightarrow> c = CHR '' '' \<or> (of_char c :: nat) \<in> {9 .. 13}"

definition is_digit :: "char \<Rightarrow> bool" where
  "is_digit c \<longleftrightarrow> (of_char c :: nat) \<in> {48 .. 57}"

definition number :: "string \<Rightarrow> nat" where
  "number ds = foldl (\<lambda>n c. 10 * n + (of_char c - 48)) 0 ds"

text \<open>\<open>operator>>\<close> of an input stream: the value or, if there are no digits, nothing, and the rest of the text. \<open>None\<close>
  for the whole means that only white space was left, in which case the variable is not written at all.\<close>

definition get_number :: "string \<Rightarrow> (int option \<times> string) option" where
  "get_number s =
     (let s1 = dropWhile is_space s in
      if s1 = [] then None
      else let neg = (hd s1 = CHR ''-''); s2 = (if hd s1 = CHR ''-'' \<or> hd s1 = CHR ''+'' then tl s1 else s1);
               ds = takeWhile is_digit s2
           in Some (if ds = [] then None else Some (if neg then - int (number ds) else int (number ds)), drop (length ds) s2))"

text \<open>An integer that is out of range is clamped and makes the stream fail, as does text without digits, which stores 0.\<close>

definition get_int :: "string \<Rightarrow> (int \<times> bool \<times> string) option" where
  "get_int s =
     (case get_number s of
        None \<Rightarrow> None
      | Some (None, r) \<Rightarrow> Some (0, False, r)
      | Some (Some i, r) \<Rightarrow>
          if i < - (2 ^ 31) then Some (- (2 ^ 31), False, r) else if i > 2 ^ 31 - 1 then Some (2 ^ 31 - 1, False, r) else Some (i, True, r))"

definition get_ull :: "string \<Rightarrow> (bool \<times> string) option" where
  "get_ull s =
     (case get_number s of
        None \<Rightarrow> None
      | Some (None, r) \<Rightarrow> Some (False, r)
      | Some (Some i, r) \<Rightarrow> Some (\<bar>i\<bar> < 2 ^ 64, r))"

section \<open>Sending\<close>

definition to_int :: "u64 \<Rightarrow> int" where
  "to_int x = sint (ucast x :: 32 word)"

text \<open>The number of the core plus the code of the digit 0 is an \<open>int\<close>, which is then cut down to a character.\<close>

definition core_file :: "u64 \<Rightarrow> string result" where
  "core_file core =
     (if to_int core + 48 > 2 ^ 31 - 1 then Inl Undefined
      else Inr (''communication'' @ [char_of (nat ((to_int core + 48) mod 256))]))"

definition message_line :: "tick \<Rightarrow> int \<Rightarrow> int \<Rightarrow> int \<Rightarrow> string" where
  "message_line curTick src target data =
     show_nat (unat curTick) @ CHR '' '' # show_int src @ CHR '' '' # show_int target @ CHR '' '' # show_int data"

type_synonym files = "string \<Rightarrow> string option"

definition open_append :: "string \<Rightarrow> string \<Rightarrow> files \<Rightarrow> files" where
  "open_append name content fs =
     (if name \<noteq> [] \<and> last name = CHR ''/'' then fs
      else fs(name \<mapsto> (case fs name of None \<Rightarrow> content | Some t \<Rightarrow> t @ content)))"

definition gadia_call :: "tick \<Rightarrow> u64 \<Rightarrow> u64 \<Rightarrow> u64 \<Rightarrow> u64 \<Rightarrow> files \<Rightarrow> files result" where
  "gadia_call curTick srcCore targetCoreNum data init fs =
     bindR (core_file targetCoreNum) (\<lambda>fileName.
       if init = 0
       then Inr (open_append fileName (message_line curTick (to_int srcCore) (to_int targetCoreNum) (to_int data) @ [CHR 0x0A]) fs)
       else bindR (core_file srcCore) (\<lambda>_. Inr fs))"

section \<open>Receiving\<close>

text \<open>The numbers \<open>a\<close>, \<open>b\<close> and \<open>c\<close> of a line. Once an extraction fails the later variables are not written, and all of them
  are printed.\<close>

definition parse_line :: "string \<Rightarrow> (int \<times> int \<times> int) result" where
  "parse_line line =
     (case get_ull line of
        Some (True, r1) \<Rightarrow>
          (case get_int r1 of
             Some (a, True, r2) \<Rightarrow>
               (case get_int r2 of
                  Some (b, True, r3) \<Rightarrow>
                    (case get_int r3 of
                       Some (c, _, _) \<Rightarrow> Inr (a, b, c)
                     | None \<Rightarrow> Inl Undefined)
                | _ \<Rightarrow> Inl Undefined)
           | _ \<Rightarrow> Inl Undefined)
      | _ \<Rightarrow> Inl Undefined)"

text \<open>The loop over the lines. The position after a line that ends without a newline is at the end of the file, where
  \<open>tellg\<close> answers \<open>- 1\<close>.\<close>

function receive_scan :: "int \<Rightarrow> string \<Rightarrow> int \<Rightarrow> (int \<times> int) option result" where
  "receive_scan core content pos =
     (if content = [] then Inr None
      else let line = takeWhile (\<lambda>c. c \<noteq> CHR 0x0A) content; rest = drop (length line) content;
               next_pos = (if rest = [] then - 1 else pos + int (length line) + 1) in
        bindR (parse_line line) (\<lambda>(a, b, c).
          if core = b \<or> (b = - 1 \<and> a \<noteq> core) then Inr (Some (c, next_pos))
          else receive_scan core (tl rest) (pos + int (length line) + 1)))"
  by pat_completeness auto
termination
proof (relation "measure (\<lambda>(core, content, pos). length content)")
  fix core :: int and content :: string and pos :: int and line rest next_pos and abc :: "int \<times> int \<times> int" and a b c and bc :: "int \<times> int"
  assume t: "content \<noteq> []" and l: "line = takeWhile (\<lambda>c. c \<noteq> CHR 0x0A) content" and r: "rest = drop (length line) content"
  have "length (tl rest) < length content" using t r by (cases rest) auto
  then show "((core, tl rest, pos + int (length line) + 1), core, content, pos) \<in> measure (\<lambda>(core, content, pos). length content)" by simp
qed simp

declare receive_scan.simps [simp del]

text \<open>The result for a missing file and for no message, and the position for the next call.\<close>

definition gadia_receive :: "u64 \<Rightarrow> files \<Rightarrow> int \<Rightarrow> (u64 \<times> int) result" where
  "gadia_receive srcCoreNumber fs gadia_last_position =
     bindR (core_file srcCoreNumber) (\<lambda>fileName.
       case fs fileName of
         None \<Rightarrow> Inr (- 3, gadia_last_position)
       | Some content \<Rightarrow>
           if gadia_last_position < 0 then Inr (- 1, gadia_last_position)
           else bindR (receive_scan (to_int srcCoreNumber) (drop (nat gadia_last_position) content) gadia_last_position) (\<lambda>r.
             case r of
               None \<Rightarrow> Inr (- 1, gadia_last_position)
             | Some (c, p) \<Rightarrow> Inr (word_of_int c, p)))"

section \<open>Reading what was written\<close>

lemma digit_char: "k < 10 \<Longrightarrow> is_digit (char_of (48 + k))" "k < 10 \<Longrightarrow> of_char (char_of (48 + k)) = 48 + k" for k :: nat
  by (simp_all add: is_digit_def)

lemma number_snoc: "number (ds @ [c]) = 10 * number ds + (of_char c - 48)"
  by (simp add: number_def)

lemma show_nat_props: "show_nat n \<noteq> [] \<and> (\<forall>c \<in> set (show_nat n). is_digit c) \<and> number (show_nat n) = n"
proof (induction n rule: show_nat.induct)
  case (1 n)
  show ?case
  proof (cases "n < 10")
    case True
    then have "show_nat n = [] @ [char_of (48 + n)]" by (simp add: show_nat.simps)
    then show ?thesis using True digit_char by (simp only: number_snoc) (simp add: number_def)
  next
    case False
    then have "show_nat n = show_nat (n div 10) @ [char_of (48 + n mod 10)]" by (subst show_nat.simps) simp
    then show ?thesis using 1 [OF False] digit_char [of "n mod 10"] by (simp add: number_snoc)
  qed
qed

lemma digit_not: "is_digit c \<Longrightarrow> \<not> is_space c \<and> c \<noteq> CHR ''-'' \<and> c \<noteq> CHR ''+'' \<and> c \<noteq> CHR 0x0A"
  by (auto simp: is_digit_def is_space_def)

lemma takeWhile_digits: "(\<forall>c \<in> set ds. is_digit c) \<Longrightarrow> (s = [] \<or> \<not> is_digit (hd s)) \<Longrightarrow> takeWhile is_digit (ds @ s) = ds"
  by (cases s) (auto simp: takeWhile_append2)

lemma get_number_show:
  assumes "s = [] \<or> \<not> is_digit (hd s)"
  shows "get_number (show_int i @ s) = Some (Some i, s)"
proof -
  let ?ds = "show_nat (nat \<bar>i\<bar>)"
  note p = show_nat_props [of "nat \<bar>i\<bar>"]
  obtain d ds where d: "?ds = d # ds" using p by (cases ?ds) auto
  have nd: "\<not> is_space d" "d \<noteq> CHR ''-''" "d \<noteq> CHR ''+''" using p digit_not [of d] unfolding d by auto
  have tw: "takeWhile is_digit (?ds @ s) = ?ds" using takeWhile_digits p assms by blast
  show ?thesis
  proof (cases "i < 0")
    case True
    then have "show_int i = CHR ''-'' # ?ds" by (simp add: show_int_def)
    moreover have "\<not> is_space (CHR ''-'')" by (simp add: is_space_def)
    ultimately show ?thesis using True tw p by (simp add: get_number_def)
  next
    case False
    then have si: "show_int i = d # ds" using d by (simp add: show_int_def)
    have "takeWhile is_digit (d # ds @ s) = d # ds" using tw unfolding d by simp
    moreover have "number (d # ds) = nat i" using p False unfolding d by simp
    ultimately show ?thesis using False nd by (simp add: get_number_def si Let_def)
  qed
qed

lemma get_number_space: "get_number (CHR '' '' # s) = get_number s"
  by (simp add: get_number_def is_space_def)

definition int32 :: "int \<Rightarrow> bool" where
  "int32 i \<longleftrightarrow> - (2 ^ 31) \<le> i \<and> i \<le> 2 ^ 31 - 1"

lemma get_int_show: "int32 i \<Longrightarrow> s = [] \<or> \<not> is_digit (hd s) \<Longrightarrow> get_int (CHR '' '' # show_int i @ s) = Some (i, True, s)"
  by (auto simp: get_int_def get_number_space get_number_show int32_def)

lemma get_ull_show: "n < 2 ^ 64 \<Longrightarrow> s = [] \<or> \<not> is_digit (hd s) \<Longrightarrow> get_ull (show_nat n @ s) = Some (True, s)"
  using get_number_show [of s "int n"] by (simp add: get_ull_def show_int_def)

lemma parse_message_line:
  assumes "int32 a" "int32 b" "int32 c"
  shows "parse_line (message_line t a b c) = Inr (a, b, c)"
proof -
  have sp: "\<not> is_digit (CHR '' '')" by (simp add: is_digit_def)
  have "unat t < 2 ^ 64" using unsigned_less [of t, where ?'a = nat] by simp
  then show ?thesis using assms sp get_int_show [of c "[]"]
    by (simp add: parse_line_def message_line_def get_ull_show get_int_show)
qed

lemma message_line_chars: "CHR 0x0A \<notin> set (message_line t a b c)"
proof -
  have "CHR 0x0A \<notin> set (show_nat n)" for n using show_nat_props digit_not by blast
  then show ?thesis by (auto simp: message_line_def show_int_def)
qed

lemma to_int_int32: "int32 (to_int x)"
  using sint_greater_eq [of "ucast x :: 32 word"] sint_less [of "ucast x :: 32 word"] by (simp add: int32_def to_int_def)

section \<open>Runs\<close>

datatype ChipletOp = Send tick u64 u64 u64 u64 | Receive u64

fun channel_step :: "ChipletOp \<Rightarrow> files \<times> int \<times> u64 list \<Rightarrow> (files \<times> int \<times> u64 list) result" where
  "channel_step (Send t src target data init) (fs, pos, outs) =
     bindR (gadia_call t src target data init fs) (\<lambda>fs1. Inr (fs1, pos, outs))"
| "channel_step (Receive core) (fs, pos, outs) =
     bindR (gadia_receive core fs pos) (\<lambda>(v, pos1). Inr (fs, pos1, outs @ [v]))"

text \<open>The queue a receiving core expects: whether it is known at all, the values in it, and the answers given so far.\<close>

definition low_half :: "u64 \<Rightarrow> u64" where
  "low_half x = word_of_int (sint (ucast x :: 32 word))"

fun queue_step :: "u64 \<Rightarrow> ChipletOp \<Rightarrow> bool \<times> u64 list \<times> u64 list \<Rightarrow> bool \<times> u64 list \<times> u64 list" where
  "queue_step r (Send t src target data init) (known, q, outs) =
     (if init = 0 \<and> target = r then (True, q @ [low_half data], outs) else (known, q, outs))"
| "queue_step r (Receive core) (known, q, outs) =
     (known, tl q, outs @ [if \<not> known then - 3 else case q of [] \<Rightarrow> - 1 | v # _ \<Rightarrow> v])"

text \<open>The cores whose numbers give file names of their own.\<close>

definition core_number :: "u64 \<Rightarrow> bool" where
  "core_number c \<longleftrightarrow> c < 208"

lemma core_number_int:
  assumes "core_number c"
  shows "to_int c = uint c" "0 \<le> uint c" "uint c < 208"
proof -
  show u: "0 \<le> uint c" "uint c < 208" using assms by (simp_all add: core_number_def word_less_def)
  have "uint (ucast c :: 32 word) = uint c" using u by (simp add: unsigned_ucast_eq take_bit_int_eq_self)
  moreover have "- (2 ^ 31) \<le> uint c" by (rule order_trans [OF _ u(1)]) simp
  then have "signed_take_bit 31 (uint c) = uint c" using u(2) by (intro signed_take_bit_int_eq_self) simp_all
  ultimately show "to_int c = uint c" by (simp add: to_int_def sint_uint)
qed

lemma core_file_of:
  assumes "core_number c"
  shows "core_file c = Inr (''communication'' @ [char_of (48 + unat c)])"
proof -
  have "nat ((to_int c + 48) mod 256) = 48 + unat c" using core_number_int [OF assms] by (simp add: nat_add_distrib)
  then show ?thesis using core_number_int [OF assms] by (simp add: core_file_def)
qed

lemma core_file_eq_iff:
  assumes "core_number c" "core_number d"
  shows "core_file c = core_file d \<longleftrightarrow> c = d"
proof -
  have b: "unat c < 208" "unat d < 208" using assms by (simp_all add: core_number_def word_less_nat_alt)
  have "(of_char (char_of (48 + unat c) :: char) :: nat) = 48 + unat c" "(of_char (char_of (48 + unat d) :: char) :: nat) = 48 + unat d"
    using b by simp_all
  then have "unat c = unat d" if "(char_of (48 + unat c) :: char) = char_of (48 + unat d)" using that by simp
  then show ?thesis by (auto simp: core_file_of assms word_unat_eq_iff)
qed

lemma no_directory:
  assumes "core_number c"
  shows "(char_of (48 + unat c) :: char) \<noteq> CHR ''/''"
proof
  assume "(char_of (48 + unat c) :: char) = CHR ''/''"
  then have "(of_char (char_of (48 + unat c) :: char) :: nat) = of_char (CHR ''/'')" by simp
  moreover have "unat c < 208" using assms by (simp add: core_number_def word_less_nat_alt)
  ultimately show False by simp
qed

section \<open>The queue in the file\<close>

text \<open>A message as it stands in a file: time, source, target and value.\<close>

type_synonym chip_msg = "tick \<times> int \<times> int \<times> int"

definition msg_text :: "chip_msg \<Rightarrow> string" where
  "msg_text m = (case m of (t, a, b, c) \<Rightarrow> message_line t a b c @ [CHR 0x0A])"

definition msg_ok :: "int \<Rightarrow> chip_msg \<Rightarrow> bool" where
  "msg_ok r m = (case m of (t, a, b, c) \<Rightarrow> int32 a \<and> b = r \<and> int32 b \<and> int32 c)"

lemma receive_scan_head:
  assumes "msg_ok r m"
  shows "receive_scan r (msg_text m @ s) pos = Inr (Some (snd (snd (snd m)), pos + int (length (msg_text m))))"
proof -
  obtain t a b c where m: "m = (t, a, b, c)" by (cases m)
  have ok: "int32 a" "b = r" "int32 b" "int32 c" using assms by (auto simp: msg_ok_def m)
  have tw: "takeWhile (\<lambda>c. c \<noteq> CHR 0x0A) (message_line t a b c @ CHR 0x0A # s) = message_line t a b c"
    using message_line_chars [of t a b c] by (subst takeWhile_append2) auto
  show ?thesis using ok tw by (subst receive_scan.simps) (simp add: m msg_text_def Let_def parse_message_line)
qed

text \<open>The file of core \<open>r\<close> holds the messages \<open>old\<close>, which have been read, and \<open>ms\<close>.\<close>

definition channel_inv :: "u64 \<Rightarrow> files \<times> int \<times> u64 list \<Rightarrow> bool \<times> u64 list \<times> u64 list \<Rightarrow> bool" where
  "channel_inv r st sp \<longleftrightarrow> (case (st, sp) of ((fs, pos, outs), (known, q, outs')) \<Rightarrow>
     outs = outs' \<and> (if known then \<exists>old ms. fs (projr (core_file r)) = Some (concat (map msg_text (old @ ms)))
         \<and> pos = int (length (concat (map msg_text old))) \<and> (\<forall>m \<in> set ms. msg_ok (to_int r) m)
         \<and> q = map (\<lambda>(t, a, b, c). word_of_int c) ms
       else fs (projr (core_file r)) = None \<and> pos = 0 \<and> q = []))"

lemma channel_inv_known:
  assumes "core_file r = Inr f" "fs f = Some (concat (map msg_text (old @ ms)))" "pos = int (length (concat (map msg_text old)))"
    "\<forall>m \<in> set ms. msg_ok (to_int r) m" "q = map (\<lambda>(t, a, b, c). word_of_int c) ms"
  shows "channel_inv r (fs, pos, outs) (True, q, outs)"
  using assms unfolding channel_inv_def by auto

lemma channel_send:
  assumes inv: "channel_inv r (fs, pos, outs) (known, q, outs')" and r: "core_number r" "core_number src" "core_number target"
  shows "\<exists>st. channel_step (Send t src target data init) (fs, pos, outs) = Inr st
    \<and> channel_inv r st (queue_step r (Send t src target data init) (known, q, outs'))"
proof -
  obtain f g where f: "core_file r = Inr f" "core_file target = Inr g" "core_file src \<noteq> Inl Undefined" "last g \<noteq> CHR ''/''" "g \<noteq> []"
    using r core_file_of no_directory by simp
  have same: "f = g \<longleftrightarrow> target = r" using core_file_eq_iff [OF r(3,1)] f(1,2) by auto
  let ?m = "(t, to_int src, to_int target, to_int data)"
  show ?thesis
  proof (cases "init = 0 \<and> target = r")
    case True
    have "msg_ok (to_int r) ?m" using True by (simp add: msg_ok_def to_int_int32)
    moreover have step: "channel_step (Send t src target data init) (fs, pos, outs) =
        Inr (fs(f \<mapsto> (case fs f of None \<Rightarrow> msg_text ?m | Some s \<Rightarrow> s @ msg_text ?m)), pos, outs)"
      using True f same by (cases "fs f") (simp_all add: gadia_call_def open_append_def msg_text_def)
    ultimately show ?thesis
    proof (cases known)
      case True
      then obtain old ms where ms: "fs f = Some (concat (map msg_text (old @ ms)))" "pos = int (length (concat (map msg_text old)))"
          "\<forall>m \<in> set ms. msg_ok (to_int r) m" "q = map (\<lambda>(t, a, b, c). word_of_int c) ms" "outs = outs'"
        using inv f(1) by (auto simp: channel_inv_def)
      show ?thesis using step ms \<open>msg_ok (to_int r) ?m\<close> \<open>init = 0 \<and> target = r\<close>
        by (auto simp: low_half_def to_int_def True intro!: channel_inv_known [OF f(1), where old = old and ms = "ms @ [?m]"])
    next
      case False
      then have "fs f = None" "pos = 0" "q = []" "outs = outs'" using inv f(1) by (auto simp: channel_inv_def)
      then show ?thesis using step \<open>msg_ok (to_int r) ?m\<close> \<open>init = 0 \<and> target = r\<close>
        by (auto simp: low_half_def to_int_def intro!: channel_inv_known [OF f(1), where old = "[]" and ms = "[?m]"])
    qed
  next
    case False
    then have "\<exists>fs1. channel_step (Send t src target data init) (fs, pos, outs) = Inr (fs1, pos, outs) \<and> fs1 f = fs f"
      using f same r core_file_of by (cases "init = 0") (auto simp: gadia_call_def open_append_def)
    then show ?thesis using inv False f(1) by (fastforce simp: channel_inv_def)
  qed
qed

lemma channel_receive:
  assumes inv: "channel_inv r (fs, pos, outs) (known, q, outs')" and r: "core_number r"
  shows "\<exists>st. channel_step (Receive r) (fs, pos, outs) = Inr st \<and> channel_inv r st (queue_step r (Receive r) (known, q, outs'))"
proof -
  obtain f where f: "core_file r = Inr f" using core_file_of [OF r] by simp
  show ?thesis
  proof (cases known)
    case False
    then show ?thesis using inv f by (auto simp: channel_inv_def gadia_receive_def)
  next
    case True
    then obtain old ms where ms: "fs f = Some (concat (map msg_text (old @ ms)))" "pos = int (length (concat (map msg_text old)))"
        "\<forall>m \<in> set ms. msg_ok (to_int r) m" "q = map (\<lambda>(t, a, b, c). word_of_int c) ms" "outs = outs'"
      using inv f by (auto simp: channel_inv_def)
    have rest: "drop (nat pos) (concat (map msg_text (old @ ms))) = concat (map msg_text ms)" by (simp add: ms(2))
    show ?thesis
    proof (cases ms)
      case Nil
      have "gadia_receive r fs pos = Inr (- 1, pos)"
        using ms(1,2) Nil f by (simp add: gadia_receive_def receive_scan.simps)
      then show ?thesis using ms Nil by (auto simp: True intro!: channel_inv_known [OF f, where old = old and ms = "[]"])
    next
      case (Cons m ms')
      obtain tt a b c where m: "m = (tt, a, b, c)" by (cases m)
      have "receive_scan (to_int r) (concat (map msg_text ms)) pos = Inr (Some (c, pos + int (length (msg_text m))))"
        using receive_scan_head [of "to_int r" m] ms(3) by (simp add: Cons m)
      then have "gadia_receive r fs pos = Inr (word_of_int c, pos + int (length (msg_text m)))"
        using ms(1,2) rest f by (simp add: gadia_receive_def)
      then show ?thesis using ms Cons
        by (auto simp: True m intro!: channel_inv_known [OF f, where old = "old @ [m]" and ms = ms'])
    qed
  qed
qed

section \<open>Properties\<close>

text \<open>C9: The files between chiplets are a first-in first-out queue. Starting without files, take any series of sends between
  cores numbered below 208 and of receives by one of them, \<open>r\<close>. All of them return, and each receive answers what a queue
  would: the low 32 bits, with their sign, of the oldest value sent to \<open>r\<close> that has not been received yet; \<open>- 1\<close> if there
  is none; \<open>- 3\<close> if nothing has been sent to \<open>r\<close> at all.\<close>

theorem chiplet_channel_fifo:
  assumes "core_number r"
    and "\<And>op. op \<in> set ops \<Longrightarrow> case op of Send t src target data init \<Rightarrow> core_number src \<and> core_number target | Receive core \<Rightarrow> core = r"
  shows "\<exists>fs pos. foldR channel_step ops (\<lambda>_. None, 0, []) = Inr (fs, pos, snd (snd (fold (queue_step r) ops (False, [], []))))"
proof -
  have "\<exists>st'. foldR channel_step ops st = Inr st' \<and> channel_inv r st' (fold (queue_step r) ops sp)" if "channel_inv r st sp" for st sp
    using assms(2) that
  proof (induction ops arbitrary: st sp)
    case (Cons op ops)
    obtain fs pos outs known q outs' where st: "st = (fs, pos, outs)" "sp = (known, q, outs')" by (metis prod_cases3)
    have "\<exists>st1. channel_step op st = Inr st1 \<and> channel_inv r st1 (queue_step r op sp)"
      using channel_send [OF _ assms(1)] channel_receive [OF _ assms(1)] Cons.prems st by (cases op) fastforce+
    then show ?case using Cons.IH Cons.prems(1) by fastforce
  qed simp
  moreover have "channel_inv r (\<lambda>_. None, 0, []) (False, [], [])" by (simp add: channel_inv_def)
  ultimately obtain st' where st': "foldR channel_step ops (\<lambda>_. None, 0, []) = Inr st'"
      "channel_inv r st' (fold (queue_step r) ops (False, [], []))" by blast
  then show ?thesis by (cases st', cases "fold (queue_step r) ops (False, [], [])") (auto simp: channel_inv_def)
qed

theorem chiplet_channel_fifo_witness:
  "\<exists>fs pos. foldR channel_step [Receive 1, Send 10 0 1 7 0, Send 20 2 1 (2 ^ 33 - 1) 0, Send 30 2 0 9 0, Receive 1, Receive 1, Receive 1] (\<lambda>_. None, 0, [])
     = Inr (fs, pos, [- 3, 7, - 1, - 1])"
proof -
  let ?ops = "[Receive 1, Send 10 0 1 7 0, Send 20 2 1 (2 ^ 33 - 1) 0, Send 30 2 0 9 0, Receive 1, Receive 1, Receive 1]"
  have "case op of Send t src target data init \<Rightarrow> core_number src \<and> core_number target | Receive core \<Rightarrow> core = 1" if "op \<in> set ?ops" for op
    using that by (auto simp: core_number_def)
  moreover have "core_number 1" by (simp add: core_number_def)
  ultimately show ?thesis using chiplet_channel_fifo [of 1 ?ops] by (simp add: low_half_def del: foldR.simps)
qed

text \<open>With two receiving cores the position of one is used in the file of the other: here core 2 is told that there is no
  message although one is waiting for it.\<close>

lemma shared_position_loses_message:
  "map_sum id (snd \<circ> snd) (foldR channel_step [Send 10 0 1 7 0, Send 10 0 2 8 0, Receive 1, Receive 2] (\<lambda>_. None, 0, [])) = Inr [7, - 1]"
  by code_simp

text \<open>A message for all cores, number \<open>- 1\<close>, would go to a file whose name ends in a slash: nothing is written.\<close>

lemma broadcast_writes_nothing: "gadia_call t src (- 1) data 0 fs = Inr fs"
proof -
  have "to_int (- 1) = - 1" by code_simp
  moreover have "char_of (47 :: nat) = CHR ''/''" by code_simp
  ultimately have "core_file (- 1) = Inr (''communication'' @ [CHR ''/''])" by (simp add: core_file_def)
  then show ?thesis by (simp add: gadia_call_def open_append_def)
qed

end
