(* ===== verification/MemCmd.thy ===== *)
theory MemCmd
  imports Prelude
begin

text \<open>
  \<open>mem/packet.hh\<close> and \<open>mem/packet.cc\<close>: the commands of the memory system with the table of their attributes, and the
  part of a packet and its request that the snoop filter reads.
\<close>

section \<open>Commands\<close>

datatype Command =
    InvalidCmd | ReadReq | ReadResp | ReadRespWithInvalidate | WriteReq | WriteResp | WritebackDirty | WritebackClean
    | WriteClean | CleanEvict | SoftPFReq | SoftPFExReq | HardPFReq | SoftPFResp | HardPFResp | WriteLineReq | UpgradeReq
    | SCUpgradeReq | UpgradeResp | SCUpgradeFailReq | UpgradeFailResp | ReadExReq | ReadExResp | ReadCleanReq | ReadSharedReq
    | LoadLockedReq | StoreCondReq | StoreCondFailReq | StoreCondResp | SwapReq | SwapResp | MemFenceReq | MemFenceResp
    | CleanSharedReq | CleanSharedResp | CleanInvalidReq | CleanInvalidResp | InvalidDestError | BadAddressError
    | FunctionalReadError | FunctionalWriteError | PrintReq | FlushReq | InvalidateReq | InvalidateResp

datatype Attribute = IsRead | IsWrite | IsUpgrade | IsInvalidate | IsClean | NeedsWritable | IsRequest | IsResponse
  | NeedsResponse | IsEviction | IsSWPrefetch | IsHWPrefetch | IsLlsc | HasData | IsError | IsPrint | IsFlush | FromCache

text \<open>A set of attributes is the list of them; the name of a command is only printed.\<close>

record CommandInfo =
  ci_attributes :: "Attribute list"
  ci_response :: Command

text \<open>The number of a command, which is its place in the table; two numbers belong to commands that were removed.\<close>

fun toInt :: "Command \<Rightarrow> nat" where
  "toInt InvalidCmd = 0"
| "toInt ReadReq = 1"
| "toInt ReadResp = 2"
| "toInt ReadRespWithInvalidate = 3"
| "toInt WriteReq = 4"
| "toInt WriteResp = 5"
| "toInt WritebackDirty = 6"
| "toInt WritebackClean = 7"
| "toInt WriteClean = 8"
| "toInt CleanEvict = 9"
| "toInt SoftPFReq = 10"
| "toInt SoftPFExReq = 11"
| "toInt HardPFReq = 12"
| "toInt SoftPFResp = 13"
| "toInt HardPFResp = 14"
| "toInt WriteLineReq = 15"
| "toInt UpgradeReq = 16"
| "toInt SCUpgradeReq = 17"
| "toInt UpgradeResp = 18"
| "toInt SCUpgradeFailReq = 19"
| "toInt UpgradeFailResp = 20"
| "toInt ReadExReq = 21"
| "toInt ReadExResp = 22"
| "toInt ReadCleanReq = 23"
| "toInt ReadSharedReq = 24"
| "toInt LoadLockedReq = 25"
| "toInt StoreCondReq = 26"
| "toInt StoreCondFailReq = 27"
| "toInt StoreCondResp = 28"
| "toInt SwapReq = 29"
| "toInt SwapResp = 30"
| "toInt MemFenceReq = 33"
| "toInt MemFenceResp = 34"
| "toInt CleanSharedReq = 35"
| "toInt CleanSharedResp = 36"
| "toInt CleanInvalidReq = 37"
| "toInt CleanInvalidResp = 38"
| "toInt InvalidDestError = 39"
| "toInt BadAddressError = 40"
| "toInt FunctionalReadError = 41"
| "toInt FunctionalWriteError = 42"
| "toInt PrintReq = 43"
| "toInt FlushReq = 44"
| "toInt InvalidateReq = 45"
| "toInt InvalidateResp = 46"

definition commandInfo :: "CommandInfo list" where
  "commandInfo = [
      \<lparr>ci_attributes = [], ci_response = InvalidCmd\<rparr>,
      \<lparr>ci_attributes = [IsRead, IsRequest, NeedsResponse], ci_response = ReadResp\<rparr>,
      \<lparr>ci_attributes = [IsRead, IsResponse, HasData], ci_response = InvalidCmd\<rparr>,
      \<lparr>ci_attributes = [IsRead, IsResponse, HasData, IsInvalidate], ci_response = InvalidCmd\<rparr>,
      \<lparr>ci_attributes = [IsWrite, NeedsWritable, IsRequest, NeedsResponse, HasData], ci_response = WriteResp\<rparr>,
      \<lparr>ci_attributes = [IsWrite, IsResponse], ci_response = InvalidCmd\<rparr>,
      \<lparr>ci_attributes = [IsWrite, IsRequest, IsEviction, HasData, FromCache], ci_response = InvalidCmd\<rparr>,
      \<lparr>ci_attributes = [IsWrite, IsRequest, IsEviction, HasData, FromCache], ci_response = InvalidCmd\<rparr>,
      \<lparr>ci_attributes = [IsWrite, IsRequest, HasData, FromCache], ci_response = InvalidCmd\<rparr>,
      \<lparr>ci_attributes = [IsRequest, IsEviction, FromCache], ci_response = InvalidCmd\<rparr>,
      \<lparr>ci_attributes = [IsRead, IsRequest, IsSWPrefetch, NeedsResponse], ci_response = SoftPFResp\<rparr>,
      \<lparr>ci_attributes = [IsRead, NeedsWritable, IsInvalidate, IsRequest, IsSWPrefetch, NeedsResponse], ci_response = SoftPFResp\<rparr>,
      \<lparr>ci_attributes = [IsRead, IsRequest, IsHWPrefetch, NeedsResponse, FromCache], ci_response = HardPFResp\<rparr>,
      \<lparr>ci_attributes = [IsRead, IsResponse, IsSWPrefetch, HasData], ci_response = InvalidCmd\<rparr>,
      \<lparr>ci_attributes = [IsRead, IsResponse, IsHWPrefetch, HasData], ci_response = InvalidCmd\<rparr>,
      \<lparr>ci_attributes = [IsWrite, NeedsWritable, IsRequest, NeedsResponse, HasData], ci_response = WriteResp\<rparr>,
      \<lparr>ci_attributes = [IsInvalidate, NeedsWritable, IsUpgrade, IsRequest, NeedsResponse, FromCache], ci_response = UpgradeResp\<rparr>,
      \<lparr>ci_attributes = [IsInvalidate, NeedsWritable, IsUpgrade, IsLlsc, IsRequest, NeedsResponse, FromCache], ci_response = UpgradeResp\<rparr>,
      \<lparr>ci_attributes = [IsUpgrade, IsResponse], ci_response = InvalidCmd\<rparr>,
      \<lparr>ci_attributes = [IsRead, NeedsWritable, IsInvalidate, IsLlsc, IsRequest, NeedsResponse, FromCache], ci_response = UpgradeFailResp\<rparr>,
      \<lparr>ci_attributes = [IsRead, IsResponse, HasData], ci_response = InvalidCmd\<rparr>,
      \<lparr>ci_attributes = [IsRead, NeedsWritable, IsInvalidate, IsRequest, NeedsResponse, FromCache], ci_response = ReadExResp\<rparr>,
      \<lparr>ci_attributes = [IsRead, IsResponse, HasData], ci_response = InvalidCmd\<rparr>,
      \<lparr>ci_attributes = [IsRead, IsRequest, NeedsResponse, FromCache], ci_response = ReadResp\<rparr>,
      \<lparr>ci_attributes = [IsRead, IsRequest, NeedsResponse, FromCache], ci_response = ReadResp\<rparr>,
      \<lparr>ci_attributes = [IsRead, IsLlsc, IsRequest, NeedsResponse], ci_response = ReadResp\<rparr>,
      \<lparr>ci_attributes = [IsWrite, NeedsWritable, IsLlsc, IsRequest, NeedsResponse, HasData], ci_response = StoreCondResp\<rparr>,
      \<lparr>ci_attributes = [IsWrite, NeedsWritable, IsLlsc, IsRequest, NeedsResponse, HasData], ci_response = StoreCondResp\<rparr>,
      \<lparr>ci_attributes = [IsWrite, IsLlsc, IsResponse], ci_response = InvalidCmd\<rparr>,
      \<lparr>ci_attributes = [IsRead, IsWrite, NeedsWritable, IsRequest, HasData, NeedsResponse], ci_response = SwapResp\<rparr>,
      \<lparr>ci_attributes = [IsRead, IsWrite, IsResponse, HasData], ci_response = InvalidCmd\<rparr>,
      \<lparr>ci_attributes = [], ci_response = InvalidCmd\<rparr>,
      \<lparr>ci_attributes = [], ci_response = InvalidCmd\<rparr>,
      \<lparr>ci_attributes = [IsRequest, NeedsResponse], ci_response = MemFenceResp\<rparr>,
      \<lparr>ci_attributes = [IsResponse], ci_response = InvalidCmd\<rparr>,
      \<lparr>ci_attributes = [IsRequest, IsClean, NeedsResponse, FromCache], ci_response = CleanSharedResp\<rparr>,
      \<lparr>ci_attributes = [IsResponse, IsClean], ci_response = InvalidCmd\<rparr>,
      \<lparr>ci_attributes = [IsRequest, IsInvalidate, IsClean, NeedsResponse, FromCache], ci_response = CleanInvalidResp\<rparr>,
      \<lparr>ci_attributes = [IsResponse, IsInvalidate, IsClean], ci_response = InvalidCmd\<rparr>,
      \<lparr>ci_attributes = [IsResponse, IsError], ci_response = InvalidCmd\<rparr>,
      \<lparr>ci_attributes = [IsResponse, IsError], ci_response = InvalidCmd\<rparr>,
      \<lparr>ci_attributes = [IsRead, IsResponse, IsError], ci_response = InvalidCmd\<rparr>,
      \<lparr>ci_attributes = [IsWrite, IsResponse, IsError], ci_response = InvalidCmd\<rparr>,
      \<lparr>ci_attributes = [IsRequest, IsPrint], ci_response = InvalidCmd\<rparr>,
      \<lparr>ci_attributes = [IsRequest, IsFlush, NeedsWritable], ci_response = InvalidCmd\<rparr>,
      \<lparr>ci_attributes = [IsInvalidate, IsRequest, NeedsWritable, NeedsResponse, FromCache], ci_response = InvalidateResp\<rparr>,
      \<lparr>ci_attributes = [IsInvalidate, IsResponse], ci_response = InvalidCmd\<rparr>]"

definition testCmdAttrib :: "Attribute \<Rightarrow> Command \<Rightarrow> bool" where
  "testCmdAttrib attrib cmd \<longleftrightarrow> attrib \<in> set (ci_attributes (commandInfo ! toInt cmd))"

definition isRequest :: "Command \<Rightarrow> bool" where "isRequest = testCmdAttrib IsRequest"

definition isResponse :: "Command \<Rightarrow> bool" where "isResponse = testCmdAttrib IsResponse"

definition needsWritable :: "Command \<Rightarrow> bool" where "needsWritable = testCmdAttrib NeedsWritable"

definition needsResponse :: "Command \<Rightarrow> bool" where "needsResponse = testCmdAttrib NeedsResponse"

definition isInvalidate :: "Command \<Rightarrow> bool" where "isInvalidate = testCmdAttrib IsInvalidate"

definition isEviction :: "Command \<Rightarrow> bool" where "isEviction = testCmdAttrib IsEviction"

definition fromCache :: "Command \<Rightarrow> bool" where "fromCache = testCmdAttrib FromCache"

definition isWriteback :: "Command \<Rightarrow> bool" where
  "isWriteback cmd \<longleftrightarrow> testCmdAttrib IsEviction cmd \<and> testCmdAttrib HasData cmd"

definition responseCommand :: "Command \<Rightarrow> Command" where
  "responseCommand cmd = ci_response (commandInfo ! toInt cmd)"

section \<open>Packets\<close>

text \<open>The flags of a packet and of its request are fields of their own.\<close>

record Packet =
  pk_cmd :: Command
  pk_addr :: u64
  pk_isSecure :: bool
  pk_valid_addr :: bool
  pk_has_sharers :: bool
  pk_cache_responding :: bool
  pk_block_cached :: bool
  pk_req_uncacheable :: bool
  pk_req_clean :: bool
  pk_req_invalidate :: bool

definition getBlockAddr :: "u32 \<Rightarrow> Packet \<Rightarrow> u64 result" where
  "getBlockAddr blk_size pkt = bindR (assertR (pk_valid_addr pkt)) (\<lambda>_. Inr (pk_addr pkt AND NOT (ucast (blk_size - 1))))"

definition pkt_needsWritable :: "Packet \<Rightarrow> bool result" where
  "pkt_needsWritable pkt = bindR (assertR (isRequest (pk_cmd pkt))) (\<lambda>_. Inr (needsWritable (pk_cmd pkt)))"

definition isCacheMaintenance :: "Packet \<Rightarrow> bool" where
  "isCacheMaintenance pkt \<longleftrightarrow> pk_req_clean pkt \<or> pk_req_invalidate pkt"

section \<open>The table of commands\<close>

lemmas cmd_attributes = isRequest_def isResponse_def needsWritable_def needsResponse_def isInvalidate_def isEviction_def
  fromCache_def isWriteback_def testCmdAttrib_def responseCommand_def

text \<open>A command asks for a response if and only if the table names one, and that is a response.\<close>

lemma response_matches:
  "needsResponse cmd \<longleftrightarrow> responseCommand cmd \<noteq> InvalidCmd"
  "needsResponse cmd \<Longrightarrow> isRequest cmd \<and> isResponse (responseCommand cmd)"
  "isResponse cmd \<Longrightarrow> \<not> isRequest cmd \<and> \<not> needsResponse cmd"
  by (cases cmd; simp add: cmd_attributes commandInfo_def)+

text \<open>The requests of caches that expect no response are evictions, \<open>WriteClean\<close> apart.\<close>

lemma fromCache_cases: "fromCache cmd \<Longrightarrow> isRequest cmd \<and> (needsResponse cmd \<or> isEviction cmd \<or> cmd = WriteClean)"
  by (cases cmd; simp add: cmd_attributes commandInfo_def)

end
