(* ===== verification/SnoopFilter.thy ===== *)
theory SnoopFilter
  imports MemCmd "HOL-Library.AList"
begin

text \<open>
  \<open>mem/snoop_filter.hh\<close> and \<open>mem/snoop_filter.cc\<close>: the filter of a coherent crossbar that tracks, for every cache line,
  the ports whose caches asked for it or hold it. The hash map is an association list without repeated keys; its
  iterator in \<open>reqLookupResult\<close> is the end, a key, or dangling after the entry was erased.
\<close>

section \<open>Data\<close>

record SlavePort =
  sp_id :: int
  sp_isSnooping :: bool

type_synonym SnoopMask = "256 word"

record SnoopItem =
  si_requested :: SnoopMask
  si_holder :: SnoopMask

definition SnoopItem_new :: SnoopItem where
  "SnoopItem_new = \<lparr>si_requested = 0, si_holder = 0\<rparr>"

datatype SnoopIterator = EndIter | AtLine u64 | Dangling

record SnoopFilter =
  sf_cachedLocations :: "(u64 \<times> SnoopItem) list"
  sf_it :: SnoopIterator
  sf_retryItem :: SnoopItem
  sf_slavePorts :: "SlavePort list"
  sf_localSlavePortIds :: "int list"
  sf_linesize :: u32
  sf_lookupLatency :: nat
  sf_maxEntryCount :: u32
  sf_totRequests :: nat
  sf_hitSingleRequests :: nat
  sf_hitMultiRequests :: nat
  sf_totSnoops :: nat
  sf_hitSingleSnoops :: nat
  sf_hitMultiSnoops :: nat

definition SnoopFilter_new :: "u32 \<Rightarrow> nat \<Rightarrow> u64 \<Rightarrow> SnoopFilter" where
  "SnoopFilter_new linesize lookup_latency max_capacity =
     \<lparr>sf_cachedLocations = [], sf_it = EndIter, sf_retryItem = SnoopItem_new, sf_slavePorts = [], sf_localSlavePortIds = [],
      sf_linesize = linesize, sf_lookupLatency = lookup_latency, sf_maxEntryCount = ucast (max_capacity div ucast linesize),
      sf_totRequests = 0, sf_hitSingleRequests = 0, sf_hitMultiRequests = 0,
      sf_totSnoops = 0, sf_hitSingleSnoops = 0, sf_hitMultiSnoops = 0\<rparr>"

section \<open>Ports and masks\<close>

definition add_slave_port :: "SlavePort \<Rightarrow> SnoopFilter \<times> int \<Rightarrow> (SnoopFilter \<times> int) result" where
  "add_slave_port p st = (case st of (sf, i) \<Rightarrow>
     if sp_isSnooping p
     then bindR (vec_put (sp_id p) i (sf_localSlavePortIds sf)) (\<lambda>ids.
            Inr (sf\<lparr>sf_slavePorts := sf_slavePorts sf @ [p], sf_localSlavePortIds := ids\<rparr>, i + 1))
     else Inr (sf, i))"

definition setSlavePorts :: "SlavePort list \<Rightarrow> SnoopFilter \<Rightarrow> SnoopFilter result" where
  "setSlavePorts slave_ports sf =
     (let n = length slave_ports; ids = sf_localSlavePortIds sf;
          sf1 = sf\<lparr>sf_localSlavePortIds := take n ids @ replicate (n - length ids) (- 1)\<rparr>
      in bindR (foldR add_slave_port slave_ports (sf1, 0)) (\<lambda>(sf2, i). if i > 256 then Inl Fatal else Inr sf2))"

text \<open>A bit set shifted by its size or more is zero; that includes the shift by the invalid id, a huge unsigned number.\<close>

definition portToMask :: "SlavePort \<Rightarrow> SnoopFilter \<Rightarrow> SnoopMask result" where
  "portToMask port sf =
     bindR (assertR (sp_id port \<noteq> - 1)) (\<lambda>_.
       if \<not> sp_isSnooping port then Inr 0
       else bindR (vec_at (sf_localSlavePortIds sf) (sp_id port)) (\<lambda>i. Inr (if i < 0 then 0 else push_bit (nat i) 1)))"

fun ports_in_mask :: "SnoopMask \<Rightarrow> SnoopFilter \<Rightarrow> SlavePort list \<Rightarrow> SlavePort list result" where
  "ports_in_mask port_mask sf [] = Inr []"
| "ports_in_mask port_mask sf (p # ps) =
     bindR (portToMask p sf) (\<lambda>m.
     bindR (ports_in_mask port_mask sf ps) (\<lambda>res. Inr (if port_mask AND m \<noteq> 0 then p # res else res)))"

definition maskToPortList :: "SnoopMask \<Rightarrow> SnoopFilter \<Rightarrow> SlavePort list result" where
  "maskToPortList port_mask sf = ports_in_mask port_mask sf (sf_slavePorts sf)"

text \<open>The number of bits of a mask.\<close>

definition mask_count :: "SnoopMask \<Rightarrow> nat" where
  "mask_count m = length (filter (bit m) [0 ..< 256])"

text \<open>The key of the line a packet is about: its address, with the lowest bit for the secure memory space.\<close>

definition line_addr :: "u32 \<Rightarrow> Packet \<Rightarrow> u64 result" where
  "line_addr linesize pkt = bindR (getBlockAddr linesize pkt) (\<lambda>a. Inr (if pk_isSecure pkt then a OR 1 else a))"

section \<open>Entries\<close>

definition sf_find :: "SnoopFilter \<Rightarrow> u64 \<Rightarrow> SnoopItem option" where
  "sf_find sf = map_of (sf_cachedLocations sf)"

definition put_item :: "u64 \<Rightarrow> SnoopItem \<Rightarrow> SnoopFilter \<Rightarrow> SnoopFilter" where
  "put_item a item sf = sf\<lparr>sf_cachedLocations := AList.update a item (sf_cachedLocations sf)\<rparr>"

text \<open>To erase an entry makes the iterators to it invalid.\<close>

definition eraseIfNullEntry :: "u64 \<Rightarrow> SnoopFilter \<Rightarrow> SnoopFilter result" where
  "eraseIfNullEntry a sf =
     (case sf_find sf a of
        None \<Rightarrow> Inl Undefined
      | Some sf_item \<Rightarrow>
          Inr (if si_requested sf_item OR si_holder sf_item = 0
               then sf\<lparr>sf_cachedLocations := AList.delete a (sf_cachedLocations sf),
                       sf_it := (if sf_it sf = AtLine a then Dangling else sf_it sf)\<rparr>
               else sf))"

section \<open>Requests\<close>

text \<open>The new entry of a request that comes from a cache.\<close>

definition request_item :: "Packet \<Rightarrow> SnoopMask \<Rightarrow> SnoopItem \<Rightarrow> SnoopItem result" where
  "request_item cpkt req_port sf_item =
     (if needsResponse (pk_cmd cpkt)
      then if \<not> pk_cache_responding cpkt
           then if si_requested sf_item AND req_port \<noteq> 0 then Inl Panic
                else Inr (sf_item\<lparr>si_requested := si_requested sf_item OR req_port\<rparr>)
           else if si_holder sf_item AND req_port = 0 then Inl Panic else Inr sf_item
      else bindR (assertR (isEviction (pk_cmd cpkt))) (\<lambda>_.
           if si_holder sf_item AND req_port = 0 then Inl Panic
           else if \<not> pk_block_cached cpkt
           then Inr (sf_item\<lparr>si_holder := si_holder sf_item AND NOT req_port\<rparr>) else Inr sf_item))"

definition lookupRequest :: "Packet \<Rightarrow> SlavePort \<Rightarrow> SnoopFilter \<Rightarrow> (SnoopFilter \<times> SlavePort list \<times> nat) result" where
  "lookupRequest cpkt slave_port sf =
     (let allocate = (\<not> pk_req_uncacheable cpkt \<and> sp_isSnooping slave_port \<and> fromCache (pk_cmd cpkt)) in
      bindR (line_addr (sf_linesize sf) cpkt) (\<lambda>a.
      bindR (portToMask slave_port sf) (\<lambda>req_port.
      let is_hit = (sf_find sf a \<noteq> None);
          sf_item = (case sf_find sf a of None \<Rightarrow> SnoopItem_new | Some item \<Rightarrow> item);
          interested = si_holder sf_item OR si_requested sf_item;
          single = (mask_count interested = 1);
          sf1 = (if is_hit then sf else put_item a SnoopItem_new sf)
            \<lparr>sf_it := AtLine a, sf_retryItem := sf_item, sf_totRequests := sf_totRequests sf + 1,
             sf_hitSingleRequests := sf_hitSingleRequests sf + (if is_hit \<and> single then 1 else 0),
             sf_hitMultiRequests := sf_hitMultiRequests sf + (if is_hit \<and> \<not> single then 1 else 0)\<rparr>
      in if \<not> is_hit \<and> \<not> allocate then Inr (sf\<lparr>sf_it := EndIter\<rparr>, [], sf_lookupLatency sf)
         else bindR (if allocate then bindR (request_item cpkt req_port sf_item) (\<lambda>item. Inr (put_item a item sf1)) else Inr sf1) (\<lambda>sf2.
              bindR (maskToPortList (interested AND NOT req_port) sf2) (\<lambda>ports.
                Inr (sf2, ports, sf_lookupLatency sf2))))))"

definition finishRequest :: "bool \<Rightarrow> u64 \<Rightarrow> bool \<Rightarrow> SnoopFilter \<Rightarrow> SnoopFilter result" where
  "finishRequest will_retry addr is_secure sf =
     (case sf_it sf of
        EndIter \<Rightarrow> Inr sf
      | Dangling \<Rightarrow> Inl Undefined
      | AtLine key \<Rightarrow>
          let a = addr AND NOT (ucast (sf_linesize sf - 1)) in
          bindR (assertR (key = (if is_secure then a OR 1 else a))) (\<lambda>_.
            eraseIfNullEntry key (if will_retry then put_item key (sf_retryItem sf) sf else sf)))"

section \<open>Snoops and responses\<close>

definition lookupSnoop :: "Packet \<Rightarrow> SnoopFilter \<Rightarrow> (SnoopFilter \<times> SlavePort list \<times> nat) result" where
  "lookupSnoop cpkt sf =
     bindR (assertR (isRequest (pk_cmd cpkt))) (\<lambda>_.
     bindR (line_addr (sf_linesize sf) cpkt) (\<lambda>a.
     case sf_find sf a of
       None \<Rightarrow> if length (sf_cachedLocations sf) \<ge> unat (sf_maxEntryCount sf) then Inl Panic
               else Inr (sf, [], sf_lookupLatency sf)
     | Some sf_item \<Rightarrow>
         let interested = si_holder sf_item OR si_requested sf_item;
             single = (mask_count interested = 1);
             sf1 = sf\<lparr>sf_totSnoops := sf_totSnoops sf + 1,
               sf_hitSingleSnoops := sf_hitSingleSnoops sf + (if single then 1 else 0),
               sf_hitMultiSnoops := sf_hitMultiSnoops sf + (if single then 0 else 1)\<rparr>
         in bindR (if isWriteback (pk_cmd cpkt) \<or> pk_req_uncacheable cpkt then Inr True
                   else bindR (pkt_needsWritable cpkt) (\<lambda>w. Inr (isInvalidate (pk_cmd cpkt) = w \<or> isCacheMaintenance cpkt))) (\<lambda>ok.
            bindR (assertR ok) (\<lambda>_.
            bindR (if isInvalidate (pk_cmd cpkt) \<and> si_requested sf_item = 0
                   then eraseIfNullEntry a (put_item a (sf_item\<lparr>si_holder := 0\<rparr>) sf1) else Inr sf1) (\<lambda>sf2.
            bindR (maskToPortList interested sf2) (\<lambda>ports. Inr (sf2, ports, sf_lookupLatency sf2)))))))"

text \<open>The index operator of the map makes an empty entry for a line that has none.\<close>

definition updateSnoopResponse :: "Packet \<Rightarrow> SlavePort \<Rightarrow> SlavePort \<Rightarrow> SnoopFilter \<Rightarrow> SnoopFilter result" where
  "updateSnoopResponse cpkt rsp_port req_port sf =
     bindR (assertR (isResponse (pk_cmd cpkt))) (\<lambda>_.
     bindR (assertR (pk_cache_responding cpkt)) (\<lambda>_.
     if pk_req_uncacheable cpkt \<or> \<not> sp_isSnooping req_port then Inr sf
     else bindR (line_addr (sf_linesize sf) cpkt) (\<lambda>a.
          bindR (portToMask rsp_port sf) (\<lambda>rsp_mask.
          bindR (portToMask req_port sf) (\<lambda>req_mask.
          let sf_item = (case sf_find sf a of None \<Rightarrow> SnoopItem_new | Some item \<Rightarrow> item) in
          if si_holder sf_item AND rsp_mask = 0 then Inl Panic
          else if si_requested sf_item AND req_mask = 0 then Inl Panic
          else bindR (assertR (\<not> isWriteback (pk_cmd cpkt))) (\<lambda>_.
               let item = \<lparr>si_requested = si_requested sf_item AND NOT req_mask,
                           si_holder = (if \<not> pk_has_sharers cpkt then 0 else si_holder sf_item) OR req_mask\<rparr>
               in bindR (assertR (si_requested item OR si_holder item \<noteq> 0)) (\<lambda>_. Inr (put_item a item sf))))))))"

definition updateSnoopForward :: "Packet \<Rightarrow> SnoopFilter \<Rightarrow> SnoopFilter result" where
  "updateSnoopForward cpkt sf =
     bindR (assertR (isResponse (pk_cmd cpkt))) (\<lambda>_.
     bindR (assertR (pk_cache_responding cpkt)) (\<lambda>_.
     bindR (line_addr (sf_linesize sf) cpkt) (\<lambda>a.
     case sf_find sf a of
       None \<Rightarrow> Inr sf
     | Some sf_item \<Rightarrow>
         if \<not> pk_has_sharers cpkt then eraseIfNullEntry a (put_item a (sf_item\<lparr>si_holder := 0\<rparr>) sf) else Inr sf)))"

definition updateResponse :: "Packet \<Rightarrow> SlavePort \<Rightarrow> SnoopFilter \<Rightarrow> SnoopFilter result" where
  "updateResponse cpkt slave_port sf =
     bindR (assertR (isResponse (pk_cmd cpkt))) (\<lambda>_.
     if pk_req_uncacheable cpkt \<or> \<not> sp_isSnooping slave_port then Inr sf
     else bindR (line_addr (sf_linesize sf) cpkt) (\<lambda>a.
          case sf_find sf a of
            None \<Rightarrow> Inr sf
          | Some sf_item \<Rightarrow>
              bindR (portToMask slave_port sf) (\<lambda>slave_mask.
              if si_requested sf_item AND slave_mask = 0 then Inl Panic
              else let requested = si_requested sf_item AND NOT slave_mask in
                   if isCacheMaintenance cpkt
                   then eraseIfNullEntry a (put_item a \<lparr>si_requested = requested,
                          si_holder = (if isInvalidate (pk_cmd cpkt) then si_holder sf_item AND NOT slave_mask else si_holder sf_item)\<rparr> sf)
                   else let item = \<lparr>si_requested = requested, si_holder = si_holder sf_item OR slave_mask\<rparr> in
                        bindR (assertR (si_holder item OR si_requested item \<noteq> 0)) (\<lambda>_. Inr (put_item a item sf)))))"

end
