(* ===== verification/SnoopFilterCorrect.thy ===== *)
theory SnoopFilterCorrect
  imports SnoopFilter
begin

text \<open>
  The snoop filter against a specification without masks, hash map, iterators and copies of entries: two sets of ports
  for every line, those with a request in flight and those that hold the line. Every transaction refines its
  specification, with the same errors and the same ports to snoop. A port that asked for a line is snooped until it
  gives the line up.
\<close>

section \<open>Masks as sets of ports\<close>

definition members :: "SlavePort list \<Rightarrow> SnoopMask \<Rightarrow> SlavePort set" where
  "members P m = {p. \<exists>k < length P. P ! k = p \<and> bit m k}"

definition mask_ok :: "SlavePort list \<Rightarrow> SnoopMask \<Rightarrow> bool" where
  "mask_ok P m \<longleftrightarrow> (\<forall>k. bit m k \<longrightarrow> k < length P)"

lemma mask_ok_simps [simp]:
  "mask_ok P 0"
  "mask_ok P m \<Longrightarrow> mask_ok P n \<Longrightarrow> mask_ok P (m OR n)"
  "mask_ok P m \<Longrightarrow> mask_ok P (m AND n)"
  by (auto simp: mask_ok_def bit_simps)

lemma members_simps [simp]:
  "members P 0 = {}"
  "members P (m OR n) = members P m \<union> members P n"
  by (auto simp: members_def bit_simps)

lemma members_AND: "distinct P \<Longrightarrow> members P (m AND n) = members P m \<inter> members P n"
  by (auto simp: members_def bit_simps nth_eq_iff_index_eq)

lemma members_AND_NOT [simp]:
  assumes "distinct P" "length P \<le> 256"
  shows "members P (m AND NOT n) = members P m - members P n"
  using assms by (auto simp: members_def bit_simps nth_eq_iff_index_eq)

lemma members_empty: "mask_ok P m \<Longrightarrow> m = 0 \<longleftrightarrow> members P m = {}"
  by (auto simp: members_def mask_ok_def intro!: bit_word_eqI)

lemma mask_disjoint: "distinct P \<Longrightarrow> mask_ok P m \<Longrightarrow> m AND n = 0 \<longleftrightarrow> members P m \<inter> members P n = {}"
  using members_empty [of P "m AND n"] by (simp add: members_AND)

lemma members_single:
  assumes "distinct P" "length P \<le> 256" "k < length P"
  shows "members P (push_bit k 1) = {P ! k}" "mask_ok P (push_bit k 1)"
  using assms by (auto simp: members_def mask_ok_def bit_simps)

lemma members_subset: "members P m \<subseteq> set P"
  by (auto simp: members_def)

section \<open>The ports of a filter\<close>

definition ports_ok :: "SlavePort list \<Rightarrow> SnoopFilter \<Rightarrow> bool" where
  "ports_ok ports sf \<longleftrightarrow> sf_slavePorts sf = filter sp_isSnooping ports \<and> distinct ports \<and> length (sf_slavePorts sf) \<le> 256
     \<and> (\<forall>p \<in> set ports. sp_id p \<noteq> - 1)
     \<and> (\<forall>k < length (sf_slavePorts sf). vec_at (sf_localSlavePortIds sf) (sp_id (sf_slavePorts sf ! k)) = Inr (int k))"

lemma ports_ok_mask:
  assumes "ports_ok ports sf" "p \<in> set ports"
  shows "\<exists>m. portToMask p sf = Inr m \<and> mask_ok (sf_slavePorts sf) m \<and> members (sf_slavePorts sf) m = (if sp_isSnooping p then {p} else {})"
proof (cases "sp_isSnooping p")
  case True
  then have "p \<in> set (sf_slavePorts sf)" using assms by (simp add: ports_ok_def)
  then obtain k where k: "k < length (sf_slavePorts sf)" "sf_slavePorts sf ! k = p" by (auto simp: in_set_conv_nth)
  then have "portToMask p sf = Inr (push_bit k 1)" using assms True by (auto simp: ports_ok_def portToMask_def)
  moreover have "distinct (sf_slavePorts sf)" "length (sf_slavePorts sf) \<le> 256" using assms(1) by (auto simp: ports_ok_def)
  ultimately show ?thesis using members_single [OF _ _ k(1)] k(2) True by auto
qed (use assms in \<open>auto simp: ports_ok_def portToMask_def\<close>)

lemma ports_in_mask:
  assumes "ports_ok ports sf" "set ps \<subseteq> set (sf_slavePorts sf)" "mask_ok (sf_slavePorts sf) m"
  shows "ports_in_mask m sf ps = Inr (filter (\<lambda>p. p \<in> members (sf_slavePorts sf) m) ps)"
  using assms(2)
proof (induction ps)
  case (Cons p ps)
  then have p: "p \<in> set ports" "sp_isSnooping p" using assms(1) by (auto simp: ports_ok_def)
  then obtain n where n: "portToMask p sf = Inr n" "members (sf_slavePorts sf) n = {p}" using ports_ok_mask [OF assms(1) p(1)] by auto
  have "distinct (sf_slavePorts sf)" using assms(1) by (simp add: ports_ok_def)
  then have "m AND n = 0 \<longleftrightarrow> p \<notin> members (sf_slavePorts sf) m" using assms(3) n(2) by (simp add: mask_disjoint)
  then show ?case using Cons n(1) by simp
qed simp

lemma maskToPortList_members:
  "ports_ok ports sf \<Longrightarrow> mask_ok (sf_slavePorts sf) m \<Longrightarrow>
     maskToPortList m sf = Inr (filter (\<lambda>p. p \<in> members (sf_slavePorts sf) m) (sf_slavePorts sf))"
  by (simp add: maskToPortList_def ports_in_mask)

text \<open>The loop over the ports of the crossbar.\<close>

lemma add_slave_ports:
  assumes "distinct (map sp_id ports)" "foldR add_slave_port ports (sf, 0) = Inr (sf', i)" "sf_slavePorts sf = []"
  shows "i = int (length (filter sp_isSnooping ports)) \<and> sf_slavePorts sf' = filter sp_isSnooping ports
    \<and> length (sf_localSlavePortIds sf') = length (sf_localSlavePortIds sf)
    \<and> (\<forall>k < length (sf_slavePorts sf'). vec_at (sf_localSlavePortIds sf') (sp_id (sf_slavePorts sf' ! k)) = Inr (int k))
    \<and> sf_cachedLocations sf' = sf_cachedLocations sf \<and> sf_linesize sf' = sf_linesize sf \<and> sf_maxEntryCount sf' = sf_maxEntryCount sf"
  using assms(1,2)
proof (induction ports arbitrary: sf' i rule: rev_induct)
  case Nil
  then show ?case using assms(3) by simp
next
  case (snoc p ports)
  obtain sf1 j where r: "foldR add_slave_port ports (sf, 0) = Inr (sf1, j)" "add_slave_port p (sf1, j) = Inr (sf', i)"
    using snoc.prems(2) by (auto simp: foldR_append bindR_Inr_iff)
  note IH = snoc.IH [OF _ r(1)]
  show ?case
  proof (cases "sp_isSnooping p")
    case True
    then obtain ids where ids: "vec_put (sp_id p) j (sf_localSlavePortIds sf1) = Inr ids"
        "sf' = sf1\<lparr>sf_slavePorts := sf_slavePorts sf1 @ [p], sf_localSlavePortIds := ids\<rparr>" "i = j + 1"
      using r(2) by (auto simp: add_slave_port_def bindR_Inr_iff)
    have "vec_at ids (sp_id q) = vec_at (sf_localSlavePortIds sf1) (sp_id q)" if "q \<in> set ports" for q
      using ids(1) snoc.prems(1) that by (auto simp: vec_put_def vec_at_def nth_list_update split: if_splits) (metis imageI int_nat_eq nth_list_update_neq)
    moreover have "vec_at ids (sp_id p) = Inr j" "length ids = length (sf_localSlavePortIds sf1)"
      using ids(1) by (auto simp: vec_put_def vec_at_def split: if_splits)
    moreover have "sf_slavePorts sf1 ! k \<in> set ports" if "k < length (sf_slavePorts sf1)" for k
      using IH that snoc.prems(1) nth_mem [OF that] by simp
    ultimately show ?thesis using IH snoc.prems(1) True ids(2,3) by (auto simp: nth_append less_Suc_eq)
  qed (use r(2) IH snoc.prems(1) in \<open>auto simp: add_slave_port_def\<close>)
qed

lemma setSlavePorts_ok:
  assumes "map sp_id ports = map int [0 ..< length ports]" "setSlavePorts ports sf = Inr sf'" "sf_slavePorts sf = []"
  shows "ports_ok ports sf' \<and> sf_slavePorts sf' = filter sp_isSnooping ports \<and> sf_cachedLocations sf' = sf_cachedLocations sf
    \<and> sf_linesize sf' = sf_linesize sf \<and> sf_maxEntryCount sf' = sf_maxEntryCount sf"
proof -
  have d: "distinct (map sp_id ports)" unfolding assms(1) by (simp add: distinct_map)
  have "sp_id p \<in> set (map int [0 ..< length ports])" if "p \<in> set ports" for p unfolding assms(1) [symmetric] using that by simp
  then have "sp_id p \<noteq> - 1" if "p \<in> set ports" for p using that by fastforce
  moreover obtain i where i: "foldR add_slave_port ports
        (sf\<lparr>sf_localSlavePortIds := take (length ports) (sf_localSlavePortIds sf)
           @ replicate (length ports - length (sf_localSlavePortIds sf)) (- 1)\<rparr>, 0) = Inr (sf', i)" "i \<le> 256"
    using assms(2) unfolding setSlavePorts_def Let_def by (auto simp: bindR_Inr_iff split: if_splits)
  ultimately show ?thesis using add_slave_ports [OF d i(1)] assms(3) i(2) d by (auto simp: distinct_map ports_ok_def)
qed

section \<open>Entries as sets of ports\<close>

type_synonym Lines = "u64 \<Rightarrow> SlavePort set \<times> SlavePort set"

definition item_sets :: "SlavePort list \<Rightarrow> SnoopItem option \<Rightarrow> SlavePort set \<times> SlavePort set" where
  "item_sets P r = (case r of None \<Rightarrow> ({}, {}) | Some it \<Rightarrow> (members P (si_requested it), members P (si_holder it)))"

definition sf_abs :: "SnoopFilter \<Rightarrow> Lines" where
  "sf_abs sf a = item_sets (sf_slavePorts sf) (sf_find sf a)"

definition item_ok :: "SlavePort list \<Rightarrow> SnoopItem \<Rightarrow> bool" where
  "item_ok P it \<longleftrightarrow> mask_ok P (si_requested it) \<and> mask_ok P (si_holder it)"

definition null_item :: "SnoopItem \<Rightarrow> bool" where
  "null_item it \<longleftrightarrow> si_requested it OR si_holder it = 0"

text \<open>The state during a transaction on one line, whose entry may be empty.\<close>

definition ok_except :: "SlavePort list \<Rightarrow> u64 \<Rightarrow> SnoopFilter \<Rightarrow> bool" where
  "ok_except ports a sf \<longleftrightarrow> ports_ok ports sf \<and> distinct (map fst (sf_cachedLocations sf))
     \<and> (\<forall>b it. sf_find sf b = Some it \<longrightarrow> item_ok (sf_slavePorts sf) it \<and> (b \<noteq> a \<longrightarrow> \<not> null_item it))"

definition sf_ok :: "SlavePort list \<Rightarrow> SnoopFilter \<Rightarrow> bool" where
  "sf_ok ports sf \<longleftrightarrow> ports_ok ports sf \<and> distinct (map fst (sf_cachedLocations sf))
     \<and> (\<forall>b it. sf_find sf b = Some it \<longrightarrow> item_ok (sf_slavePorts sf) it \<and> \<not> null_item it)"

lemma ok_except_weaken: "sf_ok ports sf \<Longrightarrow> ok_except ports a sf"
  by (auto simp: sf_ok_def ok_except_def)

lemma sf_find_put [simp]: "sf_find (put_item a it sf) = (sf_find sf)(a \<mapsto> it)"
  by (simp add: sf_find_def put_item_def update_conv')

lemma put_item_frame [simp]:
  "sf_it (put_item a it sf) = sf_it sf"
  "sf_retryItem (put_item a it sf) = sf_retryItem sf"
  by (simp_all add: put_item_def)

definition sf_same :: "SnoopFilter \<Rightarrow> SnoopFilter \<Rightarrow> bool" where
  "sf_same sf sf' \<longleftrightarrow> sf_slavePorts sf' = sf_slavePorts sf \<and> sf_localSlavePortIds sf' = sf_localSlavePortIds sf
     \<and> sf_linesize sf' = sf_linesize sf \<and> sf_maxEntryCount sf' = sf_maxEntryCount sf"

lemma sf_same_put [simp]: "sf_same sf (put_item a it sf') = sf_same sf sf'"
  by (simp add: sf_same_def put_item_def)

lemma sf_same_ports: "sf_same sf sf' \<Longrightarrow> ports_ok ports sf' = ports_ok ports sf"
  by (simp add: sf_same_def ports_ok_def)

lemma null_item_sets: "item_ok P it \<Longrightarrow> null_item it \<longleftrightarrow> item_sets P (Some it) = ({}, {})"
  using members_empty [of P "si_requested it OR si_holder it"] by (auto simp: item_ok_def null_item_def item_sets_def)

lemma ok_except_put:
  assumes "ok_except ports a sf" "item_ok (sf_slavePorts sf) it"
  shows "ok_except ports a (put_item a it sf) \<and> sf_abs (put_item a it sf) = (sf_abs sf)(a := item_sets (sf_slavePorts sf) (Some it))
    \<and> (\<not> null_item it \<longrightarrow> sf_ok ports (put_item a it sf))"
proof -
  have p: "ports_ok ports (put_item a it sf)" "sf_slavePorts (put_item a it sf) = sf_slavePorts sf"
    using assms(1) sf_same_ports [of sf "put_item a it sf"] by (simp_all add: ok_except_def sf_same_def put_item_def)
  have "distinct (map fst (sf_cachedLocations (put_item a it sf)))"
    using assms(1) by (simp add: put_item_def ok_except_def distinct_update)
  then show ?thesis using assms p by (auto simp: ok_except_def sf_ok_def sf_abs_def fun_eq_iff)
qed

lemma eraseIfNullEntry_ok:
  assumes ok: "ok_except ports a sf" and f: "sf_find sf a = Some it"
  shows "\<exists>sf'. eraseIfNullEntry a sf = Inr sf' \<and> sf_ok ports sf' \<and> sf_abs sf' = sf_abs sf \<and> sf_same sf sf'"
proof (cases "null_item it")
  case True
  let ?sf = "sf\<lparr>sf_cachedLocations := AList.delete a (sf_cachedLocations sf), sf_it := (if sf_it sf = AtLine a then Dangling else sf_it sf)\<rparr>"
  have d: "sf_find ?sf = (sf_find sf)(a := None)" by (simp add: sf_find_def delete_conv')
  have s: "sf_same sf ?sf" by (simp add: sf_same_def)
  have "item_sets (sf_slavePorts sf) (Some it) = ({}, {})" using ok f True null_item_sets by (auto simp: ok_except_def)
  then have "sf_abs ?sf = sf_abs sf" by (auto simp: sf_abs_def d f item_sets_def fun_eq_iff)
  moreover have "sf_ok ports ?sf" using ok sf_same_ports [OF s] by (auto simp: sf_ok_def ok_except_def d distinct_delete)
  ultimately show ?thesis using s f True by (auto simp: eraseIfNullEntry_def null_item_def)
next
  case False
  then have "\<not> null_item it'" if "sf_find sf b = Some it'" for b it' using ok f that by (cases "b = a") (auto simp: ok_except_def)
  then have "sf_ok ports sf" using ok by (auto simp: sf_ok_def ok_except_def)
  then show ?thesis using f False by (auto simp: eraseIfNullEntry_def null_item_def sf_same_def)
qed

lemma put_erase:
  assumes "ok_except ports a sf" "item_ok (sf_slavePorts sf) it"
  shows "\<exists>sf'. eraseIfNullEntry a (put_item a it sf) = Inr sf' \<and> sf_ok ports sf' \<and> sf_same sf sf'
    \<and> sf_abs sf' = (sf_abs sf)(a := item_sets (sf_slavePorts sf) (Some it))"
proof -
  note p = ok_except_put [OF assms]
  obtain sf' where "eraseIfNullEntry a (put_item a it sf) = Inr sf'" "sf_ok ports sf'" "sf_abs sf' = sf_abs (put_item a it sf)"
      "sf_same (put_item a it sf) sf'"
    using eraseIfNullEntry_ok [of ports a "put_item a it sf" it] p by auto
  then show ?thesis using p by (auto simp: sf_same_def put_item_def)
qed

lemma tracked_lines:
  assumes "sf_ok ports sf"
  shows "length (sf_cachedLocations sf) = card {a. sf_abs sf a \<noteq> ({}, {})}"
proof -
  have "sf_find sf a \<noteq> None \<longleftrightarrow> sf_abs sf a \<noteq> ({}, {})" for a
    using assms null_item_sets by (cases "sf_find sf a") (force simp: sf_ok_def sf_abs_def item_sets_def)+
  then have "{a. sf_abs sf a \<noteq> ({}, {})} = dom (sf_find sf)" by auto
  then have "{a. sf_abs sf a \<noteq> ({}, {})} = set (map fst (sf_cachedLocations sf))" by (simp add: sf_find_def dom_map_of_conv_image_fst)
  then show ?thesis using assms distinct_card by (fastforce simp: sf_ok_def)
qed

section \<open>The specification\<close>

text \<open>The transactions of the crossbar. A request is looked up and then finished, with the answer whether it has to be
  sent again; nothing happens to the filter in between.\<close>

datatype SfOp = Request Packet SlavePort bool | Snoop Packet | SnoopResponse Packet SlavePort SlavePort
  | SnoopForward Packet | Response Packet SlavePort

fun sf_step :: "SfOp \<Rightarrow> SnoopFilter \<Rightarrow> (SnoopFilter \<times> SlavePort list) result" where
  "sf_step (Request pkt p will_retry) sf =
     bindR (lookupRequest pkt p sf) (\<lambda>(sf1, out, _).
     bindR (finishRequest will_retry (pk_addr pkt) (pk_isSecure pkt) sf1) (\<lambda>sf2. Inr (sf2, out)))"
| "sf_step (Snoop pkt) sf = bindR (lookupSnoop pkt sf) (\<lambda>(sf1, out, _). Inr (sf1, out))"
| "sf_step (SnoopResponse pkt rsp req) sf = bindR (updateSnoopResponse pkt rsp req sf) (\<lambda>sf1. Inr (sf1, []))"
| "sf_step (SnoopForward pkt) sf = bindR (updateSnoopForward pkt sf) (\<lambda>sf1. Inr (sf1, []))"
| "sf_step (Response pkt p) sf = bindR (updateResponse pkt p sf) (\<lambda>sf1. Inr (sf1, []))"

definition tracked :: "Packet \<Rightarrow> SlavePort \<Rightarrow> bool" where
  "tracked pkt p \<longleftrightarrow> \<not> pk_req_uncacheable pkt \<and> sp_isSnooping p \<and> fromCache (pk_cmd pkt)"

definition spec_request :: "Packet \<Rightarrow> SlavePort \<Rightarrow> SlavePort set \<times> SlavePort set \<Rightarrow> (SlavePort set \<times> SlavePort set) result" where
  "spec_request pkt p RH = (case RH of (R, H) \<Rightarrow>
     if needsResponse (pk_cmd pkt) \<and> \<not> pk_cache_responding pkt then if p \<in> R then Inl Panic else Inr (insert p R, H)
     else if needsResponse (pk_cmd pkt) then if p \<notin> H then Inl Panic else Inr (R, H)
     else if \<not> isEviction (pk_cmd pkt) then Inl AssertFailed
     else if p \<notin> H then Inl Panic
     else Inr (R, if pk_block_cached pkt then H else H - {p}))"

fun spec_step :: "SlavePort list \<Rightarrow> u32 \<Rightarrow> nat \<Rightarrow> SfOp \<Rightarrow> Lines \<Rightarrow> (Lines \<times> SlavePort list) result" where
  "spec_step P ls cap (Request pkt p will_retry) st =
     bindR (line_addr ls pkt) (\<lambda>a.
     let out = filter (\<lambda>q. q \<in> fst (st a) \<union> snd (st a) - {p}) P in
     if \<not> tracked pkt p then Inr (st, out)
     else bindR (spec_request pkt p (st a)) (\<lambda>RH. Inr (if will_retry then st else st(a := RH), out)))"
| "spec_step P ls cap (Snoop pkt) st =
     bindR (assertR (isRequest (pk_cmd pkt))) (\<lambda>_.
     bindR (line_addr ls pkt) (\<lambda>a.
     if st a = ({}, {}) then if cap \<le> card {b. st b \<noteq> ({}, {})} then Inl Panic else Inr (st, [])
     else bindR (assertR (isWriteback (pk_cmd pkt) \<or> pk_req_uncacheable pkt
                   \<or> isInvalidate (pk_cmd pkt) = needsWritable (pk_cmd pkt) \<or> isCacheMaintenance pkt)) (\<lambda>_.
          Inr (if isInvalidate (pk_cmd pkt) \<and> fst (st a) = {} then st(a := ({}, {})) else st,
               filter (\<lambda>q. q \<in> fst (st a) \<union> snd (st a)) P))))"
| "spec_step P ls cap (SnoopResponse pkt rsp req) st =
     bindR (assertR (isResponse (pk_cmd pkt) \<and> pk_cache_responding pkt)) (\<lambda>_.
     if pk_req_uncacheable pkt \<or> \<not> sp_isSnooping req then Inr (st, [])
     else bindR (line_addr ls pkt) (\<lambda>a.
          if rsp \<notin> snd (st a) \<or> req \<notin> fst (st a) then Inl Panic
          else bindR (assertR (\<not> isWriteback (pk_cmd pkt))) (\<lambda>_.
               Inr (st(a := (fst (st a) - {req}, insert req (if pk_has_sharers pkt then snd (st a) else {}))), []))))"
| "spec_step P ls cap (SnoopForward pkt) st =
     bindR (assertR (isResponse (pk_cmd pkt) \<and> pk_cache_responding pkt)) (\<lambda>_.
     bindR (line_addr ls pkt) (\<lambda>a.
       Inr (if pk_has_sharers pkt then st else st(a := (fst (st a), {})), [])))"
| "spec_step P ls cap (Response pkt p) st =
     bindR (assertR (isResponse (pk_cmd pkt))) (\<lambda>_.
     if pk_req_uncacheable pkt \<or> \<not> sp_isSnooping p then Inr (st, [])
     else bindR (line_addr ls pkt) (\<lambda>a.
          if st a = ({}, {}) then Inr (st, [])
          else if p \<notin> fst (st a) then Inl Panic
          else Inr (st(a := (fst (st a) - {p},
                 if \<not> isCacheMaintenance pkt then insert p (snd (st a))
                 else if isInvalidate (pk_cmd pkt) then snd (st a) - {p} else snd (st a))), [])))"

section \<open>The simulation\<close>

definition simulates :: "SlavePort list \<Rightarrow> SnoopFilter \<Rightarrow> (SnoopFilter \<times> 'a) result \<Rightarrow> (Lines \<times> 'a) result \<Rightarrow> bool" where
  "simulates ports sf r s \<longleftrightarrow>
     (case r of Inl e \<Rightarrow> s = Inl e | Inr (sf', out) \<Rightarrow> s = Inr (sf_abs sf', out) \<and> sf_ok ports sf' \<and> sf_same sf sf')"

lemma simulates_simps [simp]:
  "simulates ports sf (Inl e) s \<longleftrightarrow> s = Inl e"
  "simulates ports sf (Inr (sf', out)) s \<longleftrightarrow> s = Inr (sf_abs sf', out) \<and> sf_ok ports sf' \<and> sf_same sf sf'"
  by (simp_all add: simulates_def)

lemma simulates_bind: "(\<And>x. m = Inr x \<Longrightarrow> simulates ports sf (f x) (g x)) \<Longrightarrow> simulates ports sf (bindR m f) (bindR m g)"
  by (cases m) simp_all

lemma bindR_assoc: "bindR (bindR m f) g = bindR m (\<lambda>x. bindR (f x) g)"
  by (cases m) simp_all

lemma sf_same_refl [simp]: "sf_same sf sf"
  by (simp add: sf_same_def)

definition entry :: "SnoopFilter \<Rightarrow> u64 \<Rightarrow> SnoopItem" where
  "entry sf a = (case sf_find sf a of None \<Rightarrow> SnoopItem_new | Some item \<Rightarrow> item)"

lemma entry_ok:
  assumes "sf_ok ports sf"
  shows "item_ok (sf_slavePorts sf) (entry sf a)"
    "sf_abs sf a = (members (sf_slavePorts sf) (si_requested (entry sf a)), members (sf_slavePorts sf) (si_holder (entry sf a)))"
    "sf_find sf a = None \<longleftrightarrow> sf_abs sf a = ({}, {})"
proof -
  show "item_ok (sf_slavePorts sf) (entry sf a)"
    "sf_abs sf a = (members (sf_slavePorts sf) (si_requested (entry sf a)), members (sf_slavePorts sf) (si_holder (entry sf a)))"
    using assms by (auto simp: sf_ok_def entry_def sf_abs_def item_ok_def item_sets_def SnoopItem_new_def split: option.splits)
  show "sf_find sf a = None \<longleftrightarrow> sf_abs sf a = ({}, {})"
    using assms null_item_sets [of "sf_slavePorts sf" "the (sf_find sf a)"]
    by (cases "sf_find sf a") (auto simp: sf_ok_def sf_abs_def item_sets_def)
qed

lemma request_item_sets:
  assumes "ports_ok ports sf" "item_ok (sf_slavePorts sf) it" "mask_ok (sf_slavePorts sf) m" "members (sf_slavePorts sf) m = {p}"
  shows "case request_item pkt m it of
      Inl e \<Rightarrow> spec_request pkt p (item_sets (sf_slavePorts sf) (Some it)) = Inl e
    | Inr it' \<Rightarrow> spec_request pkt p (item_sets (sf_slavePorts sf) (Some it)) = Inr (item_sets (sf_slavePorts sf) (Some it'))
        \<and> item_ok (sf_slavePorts sf) it'"
proof -
  have P: "distinct (sf_slavePorts sf)" "length (sf_slavePorts sf) \<le> 256" using assms(1) by (auto simp: ports_ok_def)
  have d: "si_requested it AND m = 0 \<longleftrightarrow> p \<notin> members (sf_slavePorts sf) (si_requested it)"
    "si_holder it AND m = 0 \<longleftrightarrow> p \<notin> members (sf_slavePorts sf) (si_holder it)"
    using assms(2,4) P(1) by (simp_all add: mask_disjoint item_ok_def)
  show ?thesis using assms(2-4) P by (simp add: request_item_def spec_request_def item_sets_def item_ok_def d assertR_def)
qed

text \<open>Fields that say nothing about lines.\<close>

lemma same_lines:
  assumes "sf_cachedLocations sf' = sf_cachedLocations sf" "sf_same sf sf'"
  shows "ok_except ports a sf' = ok_except ports a sf" "sf_ok ports sf' = sf_ok ports sf" "sf_abs sf' = sf_abs sf" "sf_find sf' = sf_find sf"
proof -
  show f: "sf_find sf' = sf_find sf" using assms(1) by (simp add: sf_find_def)
  have p: "sf_slavePorts sf' = sf_slavePorts sf" using assms(2) by (simp add: sf_same_def)
  show "ok_except ports a sf' = ok_except ports a sf" "sf_ok ports sf' = sf_ok ports sf" "sf_abs sf' = sf_abs sf"
    using sf_same_ports [OF assms(2)] assms(1) by (auto simp: ok_except_def sf_ok_def sf_abs_def f p)
qed

lemma finishRequest_at:
  assumes "sf_it sf = AtLine a" "line_addr (sf_linesize sf) pkt = Inr a"
  shows "finishRequest will_retry (pk_addr pkt) (pk_isSecure pkt) sf
    = eraseIfNullEntry a (if will_retry then put_item a (sf_retryItem sf) sf else sf)"
  using assms by (auto simp: finishRequest_def line_addr_def getBlockAddr_def bindR_Inr_iff Let_def)

text \<open>A request that is finished keeps its change of the entry, one that is sent again takes it back.\<close>

lemma finish_request:
  assumes ok: "sf_ok ports sf" and e: "ok_except ports a sf1" "sf_same sf sf1" "sf_abs sf1 = (sf_abs sf)(a := RH)" "sf_find sf1 a = Some it"
    and it: "sf_it sf1 = AtLine a" "sf_retryItem sf1 = entry sf a" "line_addr (sf_linesize sf) pkt = Inr a"
  shows "\<exists>sf'. finishRequest will_retry (pk_addr pkt) (pk_isSecure pkt) sf1 = Inr sf' \<and> sf_ok ports sf' \<and> sf_same sf sf'
    \<and> sf_abs sf' = (if will_retry then sf_abs sf else (sf_abs sf)(a := RH))"
proof -
  have l: "line_addr (sf_linesize sf1) pkt = Inr a" "sf_slavePorts sf1 = sf_slavePorts sf" using e(2) it(3) by (simp_all add: sf_same_def)
  have r: "item_ok (sf_slavePorts sf1) (entry sf a)" "item_sets (sf_slavePorts sf1) (Some (entry sf a)) = sf_abs sf a"
    using entry_ok [OF ok, of a] by (simp_all add: l(2) item_sets_def)
  have t: "sf_same sf sf'" if "sf_same sf1 sf'" for sf' using e(2) that by (simp add: sf_same_def)
  show ?thesis
    using put_erase [OF e(1) r(1)] eraseIfNullEntry_ok [OF e(1,4)] t
    unfolding finishRequest_at [OF it(1) l(1)] it(2) r(2) e(3) by (cases will_retry) auto
qed

lemma interested_ports:
  assumes "sf_ok ports sf" "p \<in> set ports" "portToMask p sf = Inr m" "sf_same sf sf'"
  shows "maskToPortList ((si_holder (entry sf a) OR si_requested (entry sf a)) AND NOT m) sf'
    = Inr (filter (\<lambda>q. q \<in> fst (sf_abs sf a) \<union> snd (sf_abs sf a) - {p}) (sf_slavePorts sf))"
proof -
  let ?P = "sf_slavePorts sf"
  have P: "ports_ok ports sf" "distinct ?P" "length ?P \<le> 256" using assms(1) by (auto simp: sf_ok_def ports_ok_def)
  have s: "ports_ok ports sf'" "sf_slavePorts sf' = ?P" using P(1) sf_same_ports [OF assms(4)] assms(4) by (auto simp: sf_same_def)
  have m: "members ?P m = (if sp_isSnooping p then {p} else {})" using ports_ok_mask [OF P(1) assms(2)] assms(3) by auto
  have "p \<notin> set ?P" if "\<not> sp_isSnooping p" using P(1) that by (simp add: ports_ok_def)
  then have "filter (\<lambda>q. q \<in> members ?P ((si_holder (entry sf a) OR si_requested (entry sf a)) AND NOT m)) ?P
      = filter (\<lambda>q. q \<in> fst (sf_abs sf a) \<union> snd (sf_abs sf a) - {p}) ?P"
    using P(2,3) m by (intro filter_cong) (auto simp: entry_ok(2) [OF assms(1), of a])
  then show ?thesis using maskToPortList_members [OF s(1)] entry_ok(1) [OF assms(1), of a] by (simp add: s(2) item_ok_def)
qed

text \<open>The state of a request between the lookup of its line and the update of the entry.\<close>

definition looked_up :: "u64 \<Rightarrow> SnoopFilter \<Rightarrow> SnoopFilter" where
  "looked_up a sf =
     (let is_hit = (sf_find sf a \<noteq> None); single = (mask_count (si_holder (entry sf a) OR si_requested (entry sf a)) = 1)
      in (if is_hit then sf else put_item a SnoopItem_new sf)
         \<lparr>sf_it := AtLine a, sf_retryItem := entry sf a, sf_totRequests := sf_totRequests sf + 1,
          sf_hitSingleRequests := sf_hitSingleRequests sf + (if is_hit \<and> single then 1 else 0),
          sf_hitMultiRequests := sf_hitMultiRequests sf + (if is_hit \<and> \<not> single then 1 else 0)\<rparr>)"

lemma lookupRequest_unfold:
  assumes "line_addr (sf_linesize sf) pkt = Inr a" "portToMask p sf = Inr m"
  shows "lookupRequest pkt p sf =
    (if sf_find sf a = None \<and> \<not> tracked pkt p then Inr (sf\<lparr>sf_it := EndIter\<rparr>, [], sf_lookupLatency sf)
     else bindR (if tracked pkt p then bindR (request_item pkt m (entry sf a)) (\<lambda>it. Inr (put_item a it (looked_up a sf)))
                 else Inr (looked_up a sf)) (\<lambda>sf2.
          bindR (maskToPortList ((si_holder (entry sf a) OR si_requested (entry sf a)) AND NOT m) sf2) (\<lambda>ports.
            Inr (sf2, ports, sf_lookupLatency sf2))))"
  using assms by (simp add: lookupRequest_def looked_up_def entry_def tracked_def Let_def)

lemma looked_up_ok:
  assumes ok: "sf_ok ports sf"
  shows "ok_except ports a (looked_up a sf)" "sf_same sf (looked_up a sf)" "sf_abs (looked_up a sf) = sf_abs sf"
    "sf_find (looked_up a sf) a = Some (entry sf a)" "sf_it (looked_up a sf) = AtLine a" "sf_retryItem (looked_up a sf) = entry sf a"
proof -
  let ?sf = "if sf_find sf a \<noteq> None then sf else put_item a SnoopItem_new sf"
  have new: "item_ok (sf_slavePorts sf) SnoopItem_new" "item_sets (sf_slavePorts sf) (Some SnoopItem_new) = ({}, {})"
    by (simp_all add: item_ok_def item_sets_def SnoopItem_new_def)
  have b: "ok_except ports a ?sf" "sf_same sf ?sf" "sf_abs ?sf = sf_abs sf" "sf_find ?sf a = Some (entry sf a)"
    using ok_except_put [OF ok_except_weaken [OF ok] new(1), of a] ok_except_weaken [OF ok] entry_ok(3) [OF ok, of a] new(2)
    by (auto simp: entry_def fun_eq_iff)
  have s: "sf_cachedLocations (looked_up a sf) = sf_cachedLocations ?sf" "sf_same ?sf (looked_up a sf)"
    by (simp_all add: looked_up_def Let_def sf_same_def)
  show "ok_except ports a (looked_up a sf)" "sf_abs (looked_up a sf) = sf_abs sf" "sf_find (looked_up a sf) a = Some (entry sf a)"
    using same_lines [OF s] b by simp_all
  show "sf_same sf (looked_up a sf)" using b(2) s(2) unfolding sf_same_def by simp
qed (simp_all add: looked_up_def Let_def)

lemma finishRequest_end: "sf_it sf = EndIter \<Longrightarrow> finishRequest will_retry addr is_secure sf = Inr sf"
  by (simp add: finishRequest_def)

lemma request_tracked:
  assumes ok: "sf_ok ports sf" and p: "p \<in> set ports" and a: "line_addr (sf_linesize sf) pkt = Inr a" and t: "tracked pkt p"
  shows "simulates ports sf (sf_step (Request pkt p will_retry) sf)
    (spec_step (sf_slavePorts sf) (sf_linesize sf) cap (Request pkt p will_retry) (sf_abs sf))"
proof -
  have P: "ports_ok ports sf" using ok by (simp add: sf_ok_def)
  then obtain m where m: "portToMask p sf = Inr m" "mask_ok (sf_slavePorts sf) m" "members (sf_slavePorts sf) m = {p}"
    using ports_ok_mask [OF _ p] t by (fastforce simp: tracked_def)
  note l = looked_up_ok [OF ok, of a] and it = request_item_sets [OF P entry_ok(1) [OF ok, of a] m(2,3), of pkt]
  have sp: "spec_request pkt p (sf_abs sf a) = spec_request pkt p (item_sets (sf_slavePorts sf) (Some (entry sf a)))"
    by (simp add: entry_ok(2) [OF ok, of a] item_sets_def)
  show ?thesis
  proof (cases "request_item pkt m (entry sf a)")
    case (Inl err)
    then show ?thesis using it t a by (simp add: lookupRequest_unfold [OF a m(1)] sp)
  next
    case (Inr item)
    have i: "item_ok (sf_slavePorts (looked_up a sf)) item" "sf_slavePorts (looked_up a sf) = sf_slavePorts sf"
      using it Inr l(2) by (simp_all add: sf_same_def)
    obtain sf' where "finishRequest will_retry (pk_addr pkt) (pk_isSecure pkt) (put_item a item (looked_up a sf)) = Inr sf'" "sf_ok ports sf'"
        "sf_same sf sf'" "sf_abs sf' = (if will_retry then sf_abs sf else (sf_abs sf)(a := item_sets (sf_slavePorts sf) (Some item)))"
      using finish_request [OF ok, of a "put_item a item (looked_up a sf)" "item_sets (sf_slavePorts sf) (Some item)" item pkt will_retry]
        ok_except_put [OF l(1) i(1)] l(2,3,5,6) a i(2) by auto
    then show ?thesis using it Inr t a l(2)
      by (simp add: lookupRequest_unfold [OF a m(1)] sp interested_ports [OF ok p m(1)] Let_def)
  qed
qed

lemma request_untracked:
  assumes ok: "sf_ok ports sf" and p: "p \<in> set ports" and a: "line_addr (sf_linesize sf) pkt = Inr a" and t: "\<not> tracked pkt p"
  shows "simulates ports sf (sf_step (Request pkt p will_retry) sf)
    (spec_step (sf_slavePorts sf) (sf_linesize sf) cap (Request pkt p will_retry) (sf_abs sf))"
proof -
  obtain m where m: "portToMask p sf = Inr m" using ports_ok_mask [OF _ p] ok by (fastforce simp: sf_ok_def)
  note l = looked_up_ok [OF ok, of a]
  show ?thesis
  proof (cases "sf_find sf a")
    case None
    have "sf_ok ports (sf\<lparr>sf_it := EndIter\<rparr>)" "sf_abs (sf\<lparr>sf_it := EndIter\<rparr>) = sf_abs sf" "sf_same sf (sf\<lparr>sf_it := EndIter\<rparr>)"
      using same_lines [of "sf\<lparr>sf_it := EndIter\<rparr>" sf] ok by (simp_all add: sf_same_def)
    then show ?thesis using t a None entry_ok(3) [OF ok, of a]
      by (simp add: lookupRequest_unfold [OF a m] Let_def finishRequest_end)
  next
    case (Some it)
    obtain sf' where "finishRequest will_retry (pk_addr pkt) (pk_isSecure pkt) (looked_up a sf) = Inr sf'" "sf_ok ports sf'"
        "sf_same sf sf'" "sf_abs sf' = sf_abs sf"
      using finish_request [OF ok l(1,2) _ l(4-6) a, of "sf_abs sf a" will_retry] l(3) by auto
    then show ?thesis using t a Some l(2) by (simp add: lookupRequest_unfold [OF a m] interested_ports [OF ok p m] Let_def)
  qed
qed

lemma request_simulates:
  assumes "sf_ok ports sf" "p \<in> set ports"
  shows "simulates ports sf (sf_step (Request pkt p will_retry) sf)
    (spec_step (sf_slavePorts sf) (sf_linesize sf) cap (Request pkt p will_retry) (sf_abs sf))"
proof (cases "line_addr (sf_linesize sf) pkt")
  case (Inl e)
  then show ?thesis by (simp add: lookupRequest_def)
next
  case (Inr a)
  then show ?thesis using request_tracked [OF assms Inr] request_untracked [OF assms Inr] by blast
qed

text \<open>A line whose holders are all dropped.\<close>

lemma drop_holders:
  assumes ok: "sf_ok ports sf" and s: "sf_cachedLocations sf1 = sf_cachedLocations sf" "sf_same sf sf1" and f: "sf_find sf a = Some it"
  shows "\<exists>sf'. eraseIfNullEntry a (put_item a (it\<lparr>si_holder := 0\<rparr>) sf1) = Inr sf' \<and> sf_ok ports sf' \<and> sf_same sf sf'
    \<and> sf_abs sf' = (sf_abs sf)(a := (fst (sf_abs sf a), {}))"
proof -
  note l = same_lines [OF s]
  have p: "sf_slavePorts sf1 = sf_slavePorts sf" using s(2) by (simp add: sf_same_def)
  have i: "item_ok (sf_slavePorts sf1) (it\<lparr>si_holder := 0\<rparr>)" "item_sets (sf_slavePorts sf1) (Some (it\<lparr>si_holder := 0\<rparr>)) = (fst (sf_abs sf a), {})"
    using ok f by (auto simp: p sf_ok_def item_ok_def item_sets_def sf_abs_def)
  have "sf_same sf sf'" if "sf_same sf1 sf'" for sf' using s(2) that by (simp add: sf_same_def)
  then show ?thesis using put_erase [of ports a sf1, OF _ i(1)] ok_except_weaken [OF ok] i(2) l by auto
qed

lemma snoop_simulates:
  assumes ok: "sf_ok ports sf"
  shows "simulates ports sf (sf_step (Snoop pkt) sf)
    (spec_step (sf_slavePorts sf) (sf_linesize sf) (unat (sf_maxEntryCount sf)) (Snoop pkt) (sf_abs sf))"
proof (cases "isRequest (pk_cmd pkt) \<and> (\<exists>a. line_addr (sf_linesize sf) pkt = Inr a)")
  case True
  then obtain a where a: "isRequest (pk_cmd pkt)" "line_addr (sf_linesize sf) pkt = Inr a" by blast
  show ?thesis
  proof (cases "sf_find sf a")
    case None
    then show ?thesis using a ok entry_ok(3) [OF ok, of a] tracked_lines [OF ok] by (simp add: lookupSnoop_def)
  next
    case (Some it)
    define single where "single = (mask_count (si_holder it OR si_requested it) = 1)"
    define sf1 where "sf1 = sf\<lparr>sf_totSnoops := sf_totSnoops sf + 1, sf_hitSingleSnoops := sf_hitSingleSnoops sf + (if single then 1 else 0),
      sf_hitMultiSnoops := sf_hitMultiSnoops sf + (if single then 0 else 1)\<rparr>"
    have s: "sf_cachedLocations sf1 = sf_cachedLocations sf" "sf_same sf sf1" by (simp_all add: sf1_def sf_same_def)
    have e: "entry sf a = it" using Some by (simp add: entry_def)
    note en = entry_ok [OF ok, of a, unfolded e]
    have out: "maskToPortList (si_holder it OR si_requested it) sf2 =
        Inr (filter (\<lambda>q. q \<in> fst (sf_abs sf a) \<union> snd (sf_abs sf a)) (sf_slavePorts sf))" if "sf_same sf sf2" for sf2
      using maskToPortList_members [of ports sf2] sf_same_ports [OF that] that ok en(1,2)
      by (auto simp: sf_same_def sf_ok_def item_ok_def intro!: filter_cong)
    have z: "si_requested it = 0 \<longleftrightarrow> fst (sf_abs sf a) = {}" using en(1,2) members_empty by (simp add: item_ok_def)
    obtain sf' where d: "eraseIfNullEntry a (put_item a (it\<lparr>si_holder := 0\<rparr>) sf1) = Inr sf'" "sf_ok ports sf'" "sf_same sf sf'"
        "sf_abs sf' = (sf_abs sf)(a := (fst (sf_abs sf a), {}))" using drop_holders [OF ok s Some] by blast
    have "lookupSnoop pkt sf = bindR (assertR (isWriteback (pk_cmd pkt) \<or> pk_req_uncacheable pkt
          \<or> isInvalidate (pk_cmd pkt) = needsWritable (pk_cmd pkt) \<or> isCacheMaintenance pkt)) (\<lambda>_.
        bindR (if isInvalidate (pk_cmd pkt) \<and> fst (sf_abs sf a) = {} then eraseIfNullEntry a (put_item a (it\<lparr>si_holder := 0\<rparr>) sf1) else Inr sf1) (\<lambda>sf2.
        bindR (maskToPortList (si_holder it OR si_requested it) sf2) (\<lambda>ports. Inr (sf2, ports, sf_lookupLatency sf2))))"
      unfolding sf1_def single_def using a Some by (simp add: lookupSnoop_def Let_def z pkt_needsWritable_def)
    then show ?thesis using a ok Some en(3) d s(2) out same_lines [OF s] by (simp add: assertR_def)
  qed
qed (cases "line_addr (sf_linesize sf) pkt"; auto simp: lookupSnoop_def assertR_def)

lemma forward_simulates:
  assumes ok: "sf_ok ports sf"
  shows "simulates ports sf (sf_step (SnoopForward pkt) sf) (spec_step P (sf_linesize sf) cap (SnoopForward pkt) (sf_abs sf))"
proof (cases "isResponse (pk_cmd pkt) \<and> pk_cache_responding pkt \<and> (\<exists>a. line_addr (sf_linesize sf) pkt = Inr a)")
  case True
  then obtain a where a: "isResponse (pk_cmd pkt)" "pk_cache_responding pkt" "line_addr (sf_linesize sf) pkt = Inr a" by blast
  show ?thesis
  proof (cases "sf_find sf a")
    case None
    then have "(sf_abs sf)(a := (fst (sf_abs sf a), {})) = sf_abs sf" using entry_ok(3) [OF ok, of a] by (auto simp: fun_eq_iff)
    then show ?thesis using a ok None by (simp add: updateSnoopForward_def)
  next
    case (Some it)
    then show ?thesis using a ok drop_holders [OF ok refl _ Some] by (auto simp: updateSnoopForward_def)
  qed
qed (cases "line_addr (sf_linesize sf) pkt"; auto simp: updateSnoopForward_def assertR_def)

text \<open>An update of the entry of a line that leaves a port in it.\<close>

lemma put_simulates:
  assumes ok: "sf_ok ports sf" and "item_ok (sf_slavePorts sf) it" "item_sets (sf_slavePorts sf) (Some it) = RH" "RH \<noteq> ({}, {})"
  shows "\<not> null_item it \<and> sf_ok ports (put_item a it sf) \<and> sf_abs (put_item a it sf) = (sf_abs sf)(a := RH)"
  using ok_except_put [OF ok_except_weaken [OF ok] assms(2)] null_item_sets [OF assms(2)] assms(3,4) by auto

lemma mask_member:
  assumes "ports_ok ports sf" "p \<in> set ports" "sp_isSnooping p"
  shows "\<exists>m. portToMask p sf = Inr m \<and> mask_ok (sf_slavePorts sf) m \<and> members (sf_slavePorts sf) m = {p}
    \<and> (\<forall>n. mask_ok (sf_slavePorts sf) n \<longrightarrow> (n AND m = 0 \<longleftrightarrow> p \<notin> members (sf_slavePorts sf) n))"
proof -
  obtain m where m: "portToMask p sf = Inr m" "mask_ok (sf_slavePorts sf) m" "members (sf_slavePorts sf) m = {p}"
    using ports_ok_mask [OF assms(1,2)] assms(3) by auto
  have "distinct (sf_slavePorts sf)" using assms(1) by (simp add: ports_ok_def)
  then show ?thesis using m by (auto simp: mask_disjoint)
qed

lemma response_simulates:
  assumes ok: "sf_ok ports sf" and p: "p \<in> set ports"
  shows "simulates ports sf (sf_step (Response pkt p) sf) (spec_step P (sf_linesize sf) cap (Response pkt p) (sf_abs sf))"
proof (cases "isResponse (pk_cmd pkt) \<and> \<not> pk_req_uncacheable pkt \<and> sp_isSnooping p \<and> (\<exists>a. line_addr (sf_linesize sf) pkt = Inr a)")
  case True
  then obtain a where a: "isResponse (pk_cmd pkt)" "\<not> pk_req_uncacheable pkt" "sp_isSnooping p" "line_addr (sf_linesize sf) pkt = Inr a" by blast
  have P: "ports_ok ports sf" "distinct (sf_slavePorts sf)" "length (sf_slavePorts sf) \<le> 256" using ok by (auto simp: sf_ok_def ports_ok_def)
  obtain m where m: "portToMask p sf = Inr m" "mask_ok (sf_slavePorts sf) m" "members (sf_slavePorts sf) m = {p}"
      "\<And>n. mask_ok (sf_slavePorts sf) n \<Longrightarrow> n AND m = 0 \<longleftrightarrow> p \<notin> members (sf_slavePorts sf) n"
    using mask_member [OF P(1) p a(3)] by blast
  show ?thesis
  proof (cases "sf_find sf a")
    case None
    then show ?thesis using a ok entry_ok(3) [OF ok, of a] by (simp add: updateResponse_def)
  next
    case (Some it)
    then have it: "entry sf a = it" by (simp add: entry_def)
    note en = entry_ok [OF ok, of a, unfolded it]
    let ?maint = "\<lparr>si_requested = si_requested it AND NOT m,
      si_holder = (if isInvalidate (pk_cmd pkt) then si_holder it AND NOT m else si_holder it)\<rparr>"
    let ?fill = "\<lparr>si_requested = si_requested it AND NOT m, si_holder = si_holder it OR m\<rparr>"
    have i: "item_ok (sf_slavePorts sf) ?maint" "item_ok (sf_slavePorts sf) ?fill" using en(1) m(2) by (simp_all add: item_ok_def)
    have b: "item_sets (sf_slavePorts sf) (Some ?fill) = (fst (sf_abs sf a) - {p}, insert p (snd (sf_abs sf a)))"
      "item_sets (sf_slavePorts sf) (Some ?maint) =
        (fst (sf_abs sf a) - {p}, if isInvalidate (pk_cmd pkt) then snd (sf_abs sf a) - {p} else snd (sf_abs sf a))"
      using en(2) m(3) P(2,3) by (auto simp: item_sets_def)
    have r: "si_requested it AND m = 0 \<longleftrightarrow> p \<notin> fst (sf_abs sf a)" using en(1,2) m(4) by (simp add: item_ok_def)
    note f = put_simulates [OF ok i(2) b(1), of a] and g = put_erase [OF ok_except_weaken [OF ok] i(1), of a]
    show ?thesis
    proof (cases "isCacheMaintenance pkt")
      case True
      then show ?thesis using a Some en(3) m(1) r g b(2) by (auto simp: updateResponse_def Let_def)
    next
      case False
      then show ?thesis using a Some en(3) m(1) r f by (auto simp: updateResponse_def Let_def null_item_def or.commute)
    qed
  qed
qed (use ok in \<open>cases "line_addr (sf_linesize sf) pkt"; auto simp: updateResponse_def assertR_def\<close>)

lemma snoop_response_simulates:
  assumes ok: "sf_ok ports sf" and p: "rsp \<in> set ports" "req \<in> set ports"
  shows "simulates ports sf (sf_step (SnoopResponse pkt rsp req) sf)
    (spec_step P (sf_linesize sf) cap (SnoopResponse pkt rsp req) (sf_abs sf))"
proof (cases "isResponse (pk_cmd pkt) \<and> pk_cache_responding pkt \<and> \<not> pk_req_uncacheable pkt \<and> sp_isSnooping req
    \<and> (\<exists>a. line_addr (sf_linesize sf) pkt = Inr a)")
  case True
  then obtain a where a: "isResponse (pk_cmd pkt)" "pk_cache_responding pkt" "\<not> pk_req_uncacheable pkt" "sp_isSnooping req"
      "line_addr (sf_linesize sf) pkt = Inr a" by blast
  have P: "ports_ok ports sf" "distinct (sf_slavePorts sf)" "length (sf_slavePorts sf) \<le> 256" using ok by (auto simp: sf_ok_def ports_ok_def)
  note en = entry_ok [OF ok, of a]
  obtain m where m: "portToMask req sf = Inr m" "mask_ok (sf_slavePorts sf) m" "members (sf_slavePorts sf) m = {req}"
      "si_requested (entry sf a) AND m = 0 \<longleftrightarrow> req \<notin> fst (sf_abs sf a)"
    using mask_member [OF P(1) p(2) a(4)] en(1,2) by (auto simp: item_ok_def)
  obtain n where n: "portToMask rsp sf = Inr n" "members (sf_slavePorts sf) n = (if sp_isSnooping rsp then {rsp} else {})"
    using ports_ok_mask [OF P(1) p(1)] by blast
  have "rsp \<notin> snd (sf_abs sf a)" if "\<not> sp_isSnooping rsp"
    using that en(2) members_subset [of "sf_slavePorts sf" "si_holder (entry sf a)"] P(1) by (auto simp: ports_ok_def)
  then have h: "si_holder (entry sf a) AND n = 0 \<longleftrightarrow> rsp \<notin> snd (sf_abs sf a)"
    using en(1,2) n(2) P(2) by (auto simp: mask_disjoint item_ok_def)
  let ?it = "\<lparr>si_requested = si_requested (entry sf a) AND NOT m,
    si_holder = (if \<not> pk_has_sharers pkt then 0 else si_holder (entry sf a)) OR m\<rparr>"
  have i: "item_ok (sf_slavePorts sf) ?it" using en(1) m(2) by (simp add: item_ok_def)
  have "item_sets (sf_slavePorts sf) (Some ?it) = (fst (sf_abs sf a) - {req}, insert req (if pk_has_sharers pkt then snd (sf_abs sf a) else {}))"
    using en(2) m(3) P(2,3) by (auto simp: item_sets_def)
  note f = put_simulates [OF ok i this, of a]
  show ?thesis using a m(1,4) n(1) h f by (auto simp: updateSnoopResponse_def entry_def [symmetric] Let_def null_item_def assertR_def)
qed (use ok in \<open>cases "line_addr (sf_linesize sf) pkt"; auto simp: updateSnoopResponse_def assertR_def\<close>)

fun op_ports :: "SfOp \<Rightarrow> SlavePort list" where
  "op_ports (Request pkt p will_retry) = [p]"
| "op_ports (Snoop pkt) = []"
| "op_ports (SnoopResponse pkt rsp req) = [rsp, req]"
| "op_ports (SnoopForward pkt) = []"
| "op_ports (Response pkt p) = [p]"

lemma step_simulates:
  assumes "sf_ok ports sf" "set (op_ports op) \<subseteq> set ports"
  shows "simulates ports sf (sf_step op sf) (spec_step (sf_slavePorts sf) (sf_linesize sf) (unat (sf_maxEntryCount sf)) op (sf_abs sf))"
proof (cases op)
  case (Request pkt p will_retry)
  then show ?thesis using assms request_simulates by simp
next
  case (Snoop pkt)
  then show ?thesis using assms(1) snoop_simulates by simp
next
  case (SnoopResponse pkt rsp req)
  then show ?thesis using assms snoop_response_simulates by simp
next
  case (SnoopForward pkt)
  then show ?thesis using assms(1) forward_simulates by simp
next
  case (Response pkt p)
  then show ?thesis using assms response_simulates by simp
qed

text \<open>Runs, with the ports each transaction snoops.\<close>

fun run_ops :: "('o \<Rightarrow> 's \<Rightarrow> ('s \<times> 'a) result) \<Rightarrow> 'o list \<Rightarrow> 's \<Rightarrow> ('s \<times> 'a list) result" where
  "run_ops step [] s = Inr (s, [])"
| "run_ops step (op # ops) s =
     bindR (step op s) (\<lambda>(s1, out). bindR (run_ops step ops s1) (\<lambda>(s2, outs). Inr (s2, out # outs)))"

lemma run_simulates:
  assumes "sf_ok ports sf" "list_all (\<lambda>op. set (op_ports op) \<subseteq> set ports) ops"
  shows "simulates ports sf (run_ops sf_step ops sf)
    (run_ops (spec_step (sf_slavePorts sf) (sf_linesize sf) (unat (sf_maxEntryCount sf))) ops (sf_abs sf))"
  using assms
proof (induction ops arbitrary: sf)
  case (Cons op ops)
  have s: "simulates ports sf (sf_step op sf) (spec_step (sf_slavePorts sf) (sf_linesize sf) (unat (sf_maxEntryCount sf)) op (sf_abs sf))"
    using step_simulates Cons.prems by simp
  show ?case
  proof (cases "sf_step op sf")
    case (Inl e)
    then show ?thesis using s by simp
  next
    case (Inr r)
    obtain sf1 out where r: "r = (sf1, out)" by fastforce
    then have s1: "spec_step (sf_slavePorts sf) (sf_linesize sf) (unat (sf_maxEntryCount sf)) op (sf_abs sf) = Inr (sf_abs sf1, out)"
        "sf_ok ports sf1" "sf_same sf sf1" using s Inr by simp_all
    have e: "sf_slavePorts sf1 = sf_slavePorts sf" "sf_linesize sf1 = sf_linesize sf" "sf_maxEntryCount sf1 = sf_maxEntryCount sf"
      using s1(3) by (simp_all add: sf_same_def)
    have "simulates ports sf1 (run_ops sf_step ops sf1)
        (run_ops (spec_step (sf_slavePorts sf) (sf_linesize sf) (unat (sf_maxEntryCount sf))) ops (sf_abs sf1))"
      using Cons.IH [OF s1(2)] Cons.prems(2) by (simp add: e)
    then show ?thesis using Inr r s1(1,3) by (cases "run_ops sf_step ops sf1") (auto simp: sf_same_def)
  qed
qed simp

lemma new_filter:
  assumes "map sp_id ports = map int [0 ..< length ports]" "setSlavePorts ports (SnoopFilter_new ls latency capacity) = Inr sf"
  shows "sf_ok ports sf \<and> sf_slavePorts sf = filter sp_isSnooping ports \<and> sf_linesize sf = ls
    \<and> sf_maxEntryCount sf = ucast (capacity div ucast ls) \<and> sf_abs sf = (\<lambda>a. ({}, {}))"
  using setSlavePorts_ok [OF assms]
  by (auto simp: SnoopFilter_new_def sf_ok_def sf_find_def sf_abs_def item_sets_def fun_eq_iff)

section \<open>Keeping track of a line\<close>

text \<open>The transactions after which a port need not be snooped for a line any more: its eviction of the line, its clean
  or invalidation of the line, an invalidating snoop from below, and a response that passes the line on to another port
  or downwards without sharers.\<close>

fun gives_up :: "u32 \<Rightarrow> SlavePort \<Rightarrow> u64 \<Rightarrow> SfOp \<Rightarrow> bool" where
  "gives_up ls p a (Request pkt q will_retry) \<longleftrightarrow> q = p \<and> line_addr ls pkt = Inr a \<and> tracked pkt p \<and> \<not> will_retry
     \<and> isEviction (pk_cmd pkt) \<and> \<not> pk_block_cached pkt"
| "gives_up ls p a (Snoop pkt) \<longleftrightarrow> line_addr ls pkt = Inr a \<and> isInvalidate (pk_cmd pkt)"
| "gives_up ls p a (SnoopResponse pkt rsp req) \<longleftrightarrow> line_addr ls pkt = Inr a \<and> req \<noteq> p \<and> \<not> pk_has_sharers pkt"
| "gives_up ls p a (SnoopForward pkt) \<longleftrightarrow> line_addr ls pkt = Inr a \<and> \<not> pk_has_sharers pkt"
| "gives_up ls p a (Response pkt q) \<longleftrightarrow> q = p \<and> line_addr ls pkt = Inr a \<and> isCacheMaintenance pkt"

text \<open>A transaction about a line, other than a request of the port itself.\<close>

fun asks_for :: "u32 \<Rightarrow> SlavePort \<Rightarrow> u64 \<Rightarrow> SfOp \<Rightarrow> bool" where
  "asks_for ls p a (Request pkt q will_retry) \<longleftrightarrow> q \<noteq> p \<and> line_addr ls pkt = Inr a"
| "asks_for ls p a (Snoop pkt) \<longleftrightarrow> line_addr ls pkt = Inr a"
| "asks_for ls p a op \<longleftrightarrow> False"

definition at_line :: "SlavePort \<Rightarrow> u64 \<Rightarrow> Lines \<Rightarrow> bool" where
  "at_line p a st \<longleftrightarrow> p \<in> fst (st a) \<union> snd (st a)"

lemma spec_keeps:
  assumes "spec_step P ls cap op st = Inr (st', out)" "at_line p a st" "\<not> gives_up ls p a op"
  shows "at_line p a st'"
  using assms
  by (cases op) (auto simp: bindR_Inr_iff Let_def at_line_def spec_request_def split: if_splits prod.splits)

lemma spec_asks:
  assumes "spec_step P ls cap op st = Inr (st', out)" "at_line p a st" "asks_for ls p a op" "p \<in> set P"
  shows "p \<in> set out"
  using assms by (cases op) (auto simp: bindR_Inr_iff Let_def at_line_def split: if_splits)

lemma spec_accepts:
  assumes "spec_step P ls cap (Request pkt p False) st = Inr (st', out)" "tracked pkt p" "needsResponse (pk_cmd pkt)"
    "\<not> pk_cache_responding pkt" "line_addr ls pkt = Inr a"
  shows "at_line p a st'"
  using assms by (auto simp: bindR_Inr_iff Let_def at_line_def spec_request_def split: if_splits prod.splits)

section \<open>Properties\<close>

lemma run_ops_append:
  "run_ops step (xs @ ys) s =
     bindR (run_ops step xs s) (\<lambda>(s1, o1). bindR (run_ops step ys s1) (\<lambda>(s2, o2). Inr (s2, o1 @ o2)))"
  by (induction xs arbitrary: s) (auto simp: bindR_assoc bindR_def split: sum.splits prod.splits)

lemma spec_run_keeps:
  assumes "run_ops (spec_step P ls cap) ops st = Inr (st', outs)" "at_line p a st" "list_all (\<lambda>op. \<not> gives_up ls p a op) ops"
  shows "at_line p a st'"
  using assms
proof (induction ops arbitrary: st outs)
  case (Cons op ops)
  obtain st1 out outs1 where "spec_step P ls cap op st = Inr (st1, out)" "run_ops (spec_step P ls cap) ops st1 = Inr (st', outs1)"
    using Cons.prems(1) by (auto simp: bindR_Inr_iff)
  then show ?case using Cons.IH Cons.prems(2,3) spec_keeps by auto
qed simp

text \<open>C19: The snoop filter keeps exactly two sets of ports for every line. After any transactions of the ports of its
  crossbar, the bit masks, hash map, iterator and saved entry of the code stand for the sets of the specification, every
  lookup returns the same ports to snoop in the same order, and a check of the code stops a run exactly where the
  specification stops it, with the same error. In particular a request that has to be sent again leaves no trace.\<close>

theorem snoop_filter_refines:
  assumes "map sp_id ports = map int [0 ..< length ports]" "setSlavePorts ports (SnoopFilter_new ls latency capacity) = Inr sf0"
    and "list_all (\<lambda>op. set (op_ports op) \<subseteq> set ports) ops"
  shows "run_ops (spec_step (filter sp_isSnooping ports) ls (unat (ucast (capacity div ucast ls) :: u32))) ops (\<lambda>a. ({}, {})) =
    (case run_ops sf_step ops sf0 of Inl e \<Rightarrow> Inl e | Inr (sf, outs) \<Rightarrow> Inr (sf_abs sf, outs))"
  using new_filter [OF assms(1,2)] run_simulates [OF _ assms(3), of sf0] by (auto simp: simulates_def split: sum.splits)

text \<open>C20: The snoop filter never loses a cache that may have a line. When a port's cache has asked for a line and the
  request was accepted, every later request of another port and every snoop from below for that line is sent to the
  port, until the port evicts, cleans or invalidates the line, an invalidating snoop comes from below, or a response
  without sharers passes the line on.\<close>

theorem requester_is_snooped:
  assumes "map sp_id ports = map int [0 ..< length ports]" "setSlavePorts ports (SnoopFilter_new ls latency capacity) = Inr sf0"
    and "list_all (\<lambda>op. set (op_ports op) \<subseteq> set ports) (pre @ Request pkt p False # post @ [ask])"
    and "run_ops sf_step (pre @ Request pkt p False # post @ [ask]) sf0 = Inr (sf, outs)"
    and "tracked pkt p" "needsResponse (pk_cmd pkt)" "\<not> pk_cache_responding pkt" "line_addr ls pkt = Inr a"
    and "list_all (\<lambda>op. \<not> gives_up ls p a op) post" "asks_for ls p a ask"
  shows "p \<in> set (last outs)"
proof -
  define step where "step = spec_step (filter sp_isSnooping ports) ls (unat (ucast (capacity div ucast ls) :: u32))"
  have "run_ops step (pre @ Request pkt p False # post @ [ask]) (\<lambda>a. ({}, {})) = Inr (sf_abs sf, outs)"
    using new_filter [OF assms(1,2)] run_simulates [OF _ assms(3), of sf0] assms(4) by (auto simp: step_def)
  then obtain st1 st2 st3 o1 out2 o3 out4 where r: "step (Request pkt p False) st1 = Inr (st2, out2)" "run_ops step post st2 = Inr (st3, o3)"
      "step ask st3 = Inr (sf_abs sf, out4)" "outs = o1 @ out2 # o3 @ [out4]"
    by (auto simp: run_ops_append bindR_Inr_iff)
  have "at_line p a st3"
    using spec_run_keeps [OF r(2) [unfolded step_def] _ assms(9)] spec_accepts [OF r(1) [unfolded step_def] assms(5-8)] by blast
  moreover have "p \<in> set (filter sp_isSnooping ports)" using assms(3,5) by (simp add: tracked_def)
  ultimately show ?thesis using spec_asks [OF r(3) [unfolded step_def] _ assms(10)] r(4) by simp
qed

section \<open>Two caches that share a line\<close>

definition demo_ports :: "SlavePort list" where
  "demo_ports = [\<lparr>sp_id = 0, sp_isSnooping = True\<rparr>, \<lparr>sp_id = 1, sp_isSnooping = False\<rparr>, \<lparr>sp_id = 2, sp_isSnooping = True\<rparr>]"

definition demo_pkt :: "Command \<Rightarrow> Packet" where
  "demo_pkt cmd = \<lparr>pk_cmd = cmd, pk_addr = 0x1048, pk_isSecure = False, pk_valid_addr = True, pk_has_sharers = False,
     pk_cache_responding = False, pk_block_cached = False, pk_req_uncacheable = False, pk_req_clean = False, pk_req_invalidate = False\<rparr>"

definition demo_sf_ops :: "SfOp list" where
  "demo_sf_ops = [Request (demo_pkt ReadSharedReq) (demo_ports ! 0) False, Response (demo_pkt ReadResp) (demo_ports ! 0),
     Request (demo_pkt ReadExReq) (demo_ports ! 2) False]"

lemma demo_filter: "\<exists>sf0. setSlavePorts demo_ports (SnoopFilter_new 64 1 8192) = Inr sf0"
  by (simp add: setSlavePorts_def demo_ports_def SnoopFilter_new_def add_slave_port_def vec_put_def numeral_3_eq_3 Let_def)

lemma demo_line: "line_addr 64 (demo_pkt cmd) = Inr 0x1040"
  by (simp add: line_addr_def getBlockAddr_def demo_pkt_def)

lemma demo_commands:
  "fromCache ReadSharedReq" "needsResponse ReadSharedReq" "isResponse ReadResp" "fromCache ReadExReq" "needsResponse ReadExReq"
  by (simp_all add: cmd_attributes commandInfo_def)

lemma demo_spec_run:
  "run_ops (spec_step (filter sp_isSnooping demo_ports) 64 cap) demo_sf_ops (\<lambda>a. ({}, {})) =
     Inr (\<lambda>a. if a = 0x1040 then ({demo_ports ! 2}, {demo_ports ! 0}) else ({}, {}), [[], [], [demo_ports ! 0]])"
proof -
  have p: "filter sp_isSnooping demo_ports = [demo_ports ! 0, demo_ports ! 2]" "sp_isSnooping (demo_ports ! 0)" "sp_isSnooping (demo_ports ! 2)"
    "demo_ports ! 0 \<noteq> demo_ports ! 2" by (simp_all add: demo_ports_def)
  have k: "pk_cmd (demo_pkt cmd) = cmd" "\<not> pk_cache_responding (demo_pkt cmd)" "\<not> pk_req_uncacheable (demo_pkt cmd)"
    "\<not> isCacheMaintenance (demo_pkt cmd)" for cmd by (simp_all add: demo_pkt_def isCacheMaintenance_def)
  show ?thesis using demo_commands p(2-4)
    by (simp add: demo_sf_ops_def p(1) k demo_line Let_def tracked_def spec_request_def) (auto simp: fun_eq_iff)
qed

lemma demo_hyps:
  "map sp_id demo_ports = map int [0 ..< length demo_ports]"
  "list_all (\<lambda>op. set (op_ports op) \<subseteq> set demo_ports) demo_sf_ops"
  by (simp_all add: demo_ports_def demo_sf_ops_def numeral_3_eq_3)

theorem snoop_filter_refines_witness:
  "\<exists>sf0. setSlavePorts demo_ports (SnoopFilter_new 64 1 8192) = Inr sf0
     \<and> (\<exists>sf outs. run_ops sf_step demo_sf_ops sf0 = Inr (sf, outs)
        \<and> sf_abs sf = (\<lambda>a. if a = 0x1040 then ({demo_ports ! 2}, {demo_ports ! 0}) else ({}, {})) \<and> outs = [[], [], [demo_ports ! 0]])"
proof -
  obtain sf0 where s: "setSlavePorts demo_ports (SnoopFilter_new 64 1 8192) = Inr sf0" using demo_filter by blast
  then show ?thesis using snoop_filter_refines [OF demo_hyps(1) s demo_hyps(2)]
    by (auto simp: demo_spec_run split: sum.splits)
qed

theorem requester_is_snooped_witness:
  "\<exists>sf0. setSlavePorts demo_ports (SnoopFilter_new 64 1 8192) = Inr sf0
     \<and> (\<exists>sf outs. run_ops sf_step demo_sf_ops sf0 = Inr (sf, outs) \<and> demo_ports ! 0 \<in> set (last outs))"
proof -
  obtain sf0 where s: "setSlavePorts demo_ports (SnoopFilter_new 64 1 8192) = Inr sf0" using demo_filter by blast
  obtain sf outs where r: "run_ops sf_step demo_sf_ops sf0 = Inr (sf, outs)"
    using run_simulates [OF _ demo_hyps(2), of sf0] new_filter [OF demo_hyps(1) s]
    by (auto simp: demo_spec_run simulates_def split: sum.splits)
  have ops: "demo_sf_ops = [] @ Request (demo_pkt ReadSharedReq) (demo_ports ! 0) False # [Response (demo_pkt ReadResp) (demo_ports ! 0)]
      @ [Request (demo_pkt ReadExReq) (demo_ports ! 2) False]" by (simp add: demo_sf_ops_def)
  have "tracked (demo_pkt ReadSharedReq) (demo_ports ! 0)" "needsResponse (pk_cmd (demo_pkt ReadSharedReq))"
      "\<not> pk_cache_responding (demo_pkt ReadSharedReq)"
      "list_all (\<lambda>op. \<not> gives_up 64 (demo_ports ! 0) 0x1040 op) [Response (demo_pkt ReadResp) (demo_ports ! 0)]"
      "asks_for 64 (demo_ports ! 0) 0x1040 (Request (demo_pkt ReadExReq) (demo_ports ! 2) False)"
    using demo_commands demo_line by (simp_all add: tracked_def isCacheMaintenance_def demo_pkt_def demo_ports_def)
  then have "demo_ports ! 0 \<in> set (last outs)"
    using requester_is_snooped [OF demo_hyps(1) s demo_hyps(2) [unfolded ops] r [unfolded ops] _ _ _ demo_line] by blast
  then show ?thesis using s r by blast
qed

end
