(* ===== verification/Spec2Isabelle.thy ===== *)
theory Spec2Isabelle
  imports EventQueueCorrect AddrRange SatCounter ReplacementPolicies CacheBlk Indexing
    CacheFill CreditFlow SwitchAllocation InterfaceShape ChipletChannel
    SnoopFilterCorrect
begin

text \<open>
  Verification of the simulation kernel and memory-system core of a gem5 derived chiplet simulator
  (\<open>gem5/src\<close>).

  \<^bold>\<open>The program.\<close> The simulator is driven by event queues (\<open>sim/eventq\<close>, \<open>sim/simulate.cc\<close>): components
  schedule events at ticks, and the loop serves them in order of time and priority. The address space is
  divided between memories and interleaved channels by address ranges (\<open>base/addr_range.hh\<close>). A cache is
  a table of blocks (\<open>mem/cache/cache_blk\<close>) found through an indexing policy
  (\<open>mem/cache/tags/indexing_policies\<close>) and replaced by a replacement policy
  (\<open>mem/cache/replacement_policies\<close>), some of which count with saturating counters
  (\<open>base/sat_counter.hh\<close>); the tag store (\<open>mem/cache/tags\<close>) brings these together, and the cache
  (\<open>mem/cache/base.cc\<close>, \<open>cache.cc\<close>) fills it and writes back what it replaces. The crossbar above a shared cache asks a snoop filter
  (\<open>mem/snoop_filter\<close>) which of the caches it has to snoop. Between the chiplets
  messages travel through the Garnet network (\<open>mem/ruby/network/garnet2.0\<close>) as flits, to sets of
  destinations (\<open>mem/ruby/common\<close>): a network interface takes them from the message buffers of the
  protocol (\<open>mem/ruby/network/MessageBuffer\<close>), cuts them into flits and sends these over a link to a router,
  whose switch allocator forwards one flit per port and cycle as long as the next buffer has given credit.
  Programs on different chiplets exchange data through files (\<open>sim/pseudo_inst.cc\<close>). All of them use the bit-field functions of \<open>base/bitfield.hh\<close> and
  \<open>base/intmath.hh\<close>.

  \<^bold>\<open>The theories.\<close>
  \<^item> \<open>Prelude\<close>: integer types at their width, results that can stop (\<open>panic\<close>, \<open>fatal\<close>, failed assertion,
    exception, undefined behaviour, endless loop), shared lemmas.
  \<^item> \<open>Bitfield\<close>: bit fields, searches, logarithms, rounding; every function on 64-bit words.
  \<^item> \<open>AddrRange\<close>: the class \<open>AddrRange\<close> as a record; membership, merging, intersection, offsets.
  \<^item> \<open>EventQueue\<close>: events in an explicit store, because the queue is a linked list of linked lists threaded
    through the events; the methods of \<open>Event\<close> and \<open>EventQueue\<close> and the loop \<open>doSimLoop\<close>.
  \<^item> \<open>EventQueueCorrect\<close>: the queue refines a list sorted by time and priority; safety of every run,
    monotone time, termination of the loop, exactness of removal, the self check.
  \<^item> \<open>SatCounter\<close>, \<open>ReplacementPolicies\<close>: all replacement policies of the directory; one contract (a
    policy answers with one of the candidates), interpreted for each of them.
  \<^item> \<open>CacheBlk\<close>: status bits and the load-locked reservations of a block.
  \<^item> \<open>Indexing\<close>: set-associative and skewed-associative placement; one contract (the tag and the place
    determine the block address), interpreted for both.
  \<^item> \<open>CacheTags\<close>: the base and set-associative tag stores over any indexing and replacement policy; the
    contract of the indexing policies is interpreted for the dispatch between them, so lookup is exact and
    initialisation gives an empty, well-formed store for every policy.
  \<^item> \<open>CacheFill\<close>: \<open>allocateBlock\<close> and everything it calls. Filling a block changes the partial map from
    addresses to blocks exactly at the new block and the evicted ones; no dirty data is lost; the fill
    succeeds unless a miss is outstanding on the victim.
  \<^item> \<open>NetDest\<close>: node sets and network destinations refine sets of nodes.
  \<^item> \<open>FlitBuffer\<close>: flits, credits, and the flit buffer as the binary heap of the standard library; it
    refines a priority queue.
  \<^item> \<open>GarnetRouting\<close>: routing by table (least weight, only towards the destination) and XY routing on a
    mesh (every flit arrives after as many hops as the distance).

  \<^item> \<open>StdHeap\<close>: \<open>push_heap\<close> and \<open>pop_heap\<close> of the standard library over any order; flit buffers and message
    buffers interpret it.
  \<^item> \<open>GarnetUnits\<close>, \<open>GarnetRouter\<close>: virtual channels, credits, links, input and output ports, switch
    allocator, crossbar and the wake-up of a router.
  \<^item> \<open>CreditFlow\<close>: an output port, the links and the input port of the next router as one channel; no
    assertion on credits or channel states fails in any interleaving of their steps.
  \<^item> \<open>SwitchAllocation\<close>: the two stages of allocation equal a reference that picks winners by rotation; a
    persistent request is served within one round.
  \<^item> \<open>MessageBuffer\<close>: the message buffer; an ordered one refines a first-in first-out queue and a bounded one
    never overflows.
  \<^item> \<open>NetworkInterface\<close>: the end points of the network, with the store of the messages flits point to.
  \<^item> \<open>PacketFlow\<close>, \<open>Flitisation\<close>: the choice of channels and the deadlock check, handing packets over in order,
    and the cutting of a multicast message into one packet for each destination.
  \<^item> \<open>InterfaceShape\<close>: the sizes and ranges of an interface's state, which construction establishes and
    every operation keeps.
  \<^item> \<open>ChipletChannel\<close>: the instructions by which chiplets exchange data through files; for one receiving core
    they are a first-in first-out queue.
  \<^item> \<open>MemCmd\<close>: the commands of the memory system, the table of their attributes, and packets.
  \<^item> \<open>SnoopFilter\<close>, \<open>SnoopFilterCorrect\<close>: the snoop filter of a crossbar (\<open>mem/snoop_filter\<close>), over bit masks and a
    hash map; it refines two sets of ports for each line, and a port that may have a line is always snooped for it.

  \<^bold>\<open>Loops.\<close> Loops over pointers are partial functions into \<open>option\<close>, where \<open>None\<close> stands for a loop that
  never ends; that they end on well-formed data is part of what is proved. No loop uses fuel.

  \<^bold>\<open>Parameters.\<close> The virtual \<open>process()\<close> of an event is an argument of the functions that serve events; the
  random source of the replacement policies and of table routing is an argument. The machine types of a
  protocol and their numbers of nodes, which the protocol compiler generates, are arguments of the
  destination sets; the router of a network interface and the random
  delay of a message buffer are arguments too.

  \<^bold>\<open>Not modelled.\<close> Statistics, tracing and printing; threads (each queue is modelled on its own, with the
  list of asynchronous insertions as the only meeting point); Unix signals in the simulation loop; the
  request, response and snoop paths of the caches, their miss queues, the data of packets, the crossbars around
  the snoop filter, memory controllers, processors, instruction sets, devices and coherence protocols, part of which is generated when the simulator is built.
\<close>

end
